(* ===== verification/Prelude.thy ===== *)
theory Prelude
  imports Main "HOL-Library.AList" "HOL-Library.Sublist"
begin

text \<open>
  Shared vocabulary of the development: the theorem collections the component theories
  feed, and the generic facts on lists and association lists that several of them use.
\<close>

section \<open>Theorem collections\<close>

named_theorems tr_rules \<open>introduction rules for execution triples\<close>
named_theorems fs_simps \<open>rewriting of file-system observations over updates\<close>
named_theorems run_simps \<open>unfolding of program constructs on a given environment and world\<close>

section \<open>Association lists read as maps\<close>

lemma map_of_update [fs_simps]:
  "map_of (AList.update k v al) q = (if q = k then Some v else map_of al q)"
  by (simp add: update_conv')

lemma map_of_delete_if [fs_simps]:
  "map_of (AList.delete k al) q = (if q = k then None else map_of al q)"
  by (simp add: delete_conv')

lemma map_of_filter_key:
  "map_of (filter (\<lambda>(k, v). P k) al) q = (if P q then map_of al q else None)"
  by (induction al) auto

lemma distinct_fst_filter:
  "distinct (map fst al) \<Longrightarrow> distinct (map fst (filter P al))"
  by (induction al) auto

lemma filter_fst_delete:
  "distinct (map fst al) \<Longrightarrow> map_of al k = Some v \<Longrightarrow>
   length (filter (\<lambda>e. snd e = v) (AList.delete k al)) + 1
     = length (filter (\<lambda>e. snd e = v) al)"
proof (induction al)
  case (Cons a al)
  then show ?case
    by (cases a) (auto simp: delete_id image_iff dest!: map_of_SomeD split: if_splits)
qed simp

section \<open>Lists\<close>

lemma butlast_eq_iff: "xs \<noteq> [] \<Longrightarrow> ys \<noteq> [] \<Longrightarrow>
    xs = ys \<longleftrightarrow> butlast xs = butlast ys \<and> last xs = last ys"
  by (metis append_butlast_last_id)

lemma take_eq_prefix: "take (length p) s = p \<longleftrightarrow> prefix p s"
  by (metis append_eq_conv_conj append_take_drop_id prefix_def)

lemma set_takeWhile_all: "x \<in> set (takeWhile P xs) \<Longrightarrow> P x"
  by (rule set_takeWhileD [THEN conjunct2])

lemma takeWhile_app_stop:
  "\<forall>x \<in> set xs. P x \<Longrightarrow> \<not> P y \<Longrightarrow> takeWhile P (xs @ y # ys) = xs"
  by (induction xs) auto

lemma dropWhile_app_stop:
  "\<forall>x \<in> set xs. P x \<Longrightarrow> \<not> P y \<Longrightarrow> dropWhile P (xs @ y # ys) = y # ys"
  by (induction xs) auto

lemma takeWhile_all_app: "\<forall>x \<in> set xs. P x \<Longrightarrow> takeWhile P xs = xs"
  by (induction xs) auto

lemma dropWhile_all_app: "\<forall>x \<in> set xs. P x \<Longrightarrow> dropWhile P xs = []"
  by (induction xs) auto

end
