(* ===== verification/PyStr.thy ===== *)
theory PyStr
  imports Prelude
begin

text \<open>
  The operations of Python's \<open>str\<close> and \<open>int\<close> the sources use. A Python string is
  modelled by the list of its UTF-8 bytes (\<open>string\<close>); white space, line ends and
  digits are the ASCII ones, which is all the tools the code talks to produce.
\<close>

section \<open>Characters\<close>

definition code :: "char \<Rightarrow> nat" where
  "code c = of_char c"

definition is_digit :: "char \<Rightarrow> bool" where
  "is_digit c \<longleftrightarrow> 48 \<le> code c \<and> code c \<le> 57"

definition digit_val :: "char \<Rightarrow> nat" where
  "digit_val c = code c - 48"

definition digit_char :: "nat \<Rightarrow> char" where
  "digit_char n = char_of (48 + n)"

definition is_space :: "char \<Rightarrow> bool" where
  "is_space c \<longleftrightarrow> code c = 32 \<or> (9 \<le> code c \<and> code c \<le> 13) \<or> (28 \<le> code c \<and> code c \<le> 31)"

definition is_linebreak :: "char \<Rightarrow> bool" where
  "is_linebreak c \<longleftrightarrow> (10 \<le> code c \<and> code c \<le> 13) \<or> (28 \<le> code c \<and> code c \<le> 30)"

definition lower_char :: "char \<Rightarrow> char" where
  "lower_char c = (if 65 \<le> code c \<and> code c \<le> 90 then char_of (code c + 32) else c)"

abbreviation NL :: char where "NL \<equiv> CHR 0x0A"
abbreviation CR :: char where "CR \<equiv> CHR 0x0D"
abbreviation QUOTE :: char where "QUOTE \<equiv> CHR 0x22"
abbreviation BACKSLASH :: char where "BACKSLASH \<equiv> CHR 0x5C"

lemma code_inject: "code c = code d \<longleftrightarrow> c = d"
  by (simp add: code_def)

lemma code_digit_char: "n < 10 \<Longrightarrow> code (digit_char n) = 48 + n"
  by (simp add: code_def digit_char_def of_char_of)

lemma digit_char_digit [simp]: "n < 10 \<Longrightarrow> is_digit (digit_char n)"
  by (simp add: is_digit_def code_digit_char)

lemma digit_val_char [simp]: "n < 10 \<Longrightarrow> digit_val (digit_char n) = n"
  by (simp add: digit_val_def code_digit_char)

lemma digit_not_space: "is_digit c \<Longrightarrow> \<not> is_space c"
  by (auto simp: is_digit_def is_space_def)

section \<open>Splitting, stripping, searching\<close>

text \<open>\<open>s.split()\<close>: the maximal runs of non-space characters.\<close>

function split_ws :: "string \<Rightarrow> string list" where
  "split_ws [] = []"
| "split_ws (c # cs) =
     (if is_space c then split_ws cs
      else takeWhile (\<lambda>x. \<not> is_space x) (c # cs)
           # split_ws (dropWhile (\<lambda>x. \<not> is_space x) (c # cs)))"
  by pat_completeness auto
termination
  by (relation "measure length") (auto simp: length_dropWhile_le le_imp_less_Suc)

text \<open>\<open>s.splitlines()\<close>: no empty last line, and CR LF is one line end.\<close>

fun skip_break :: "string \<Rightarrow> string" where
  "skip_break [] = []"
| "skip_break (b # r) = (if b = CR \<and> r \<noteq> [] \<and> hd r = NL then tl r else r)"

lemma skip_break_shorter: "s \<noteq> [] \<Longrightarrow> length (skip_break s) < length s"
  by (cases s) auto

function splitlines :: "string \<Rightarrow> string list" where
  "splitlines [] = []"
| "splitlines (c # cs) =
     (let line = takeWhile (\<lambda>x. \<not> is_linebreak x) (c # cs);
          rest = dropWhile (\<lambda>x. \<not> is_linebreak x) (c # cs)
      in line # (if rest = [] then [] else splitlines (skip_break rest)))"
  by pat_completeness auto
termination
proof (relation "measure length", goal_cases)
  case (2 c cs line rest)
  then show ?case
    using skip_break_shorter [of rest]
      length_dropWhile_le [of "\<lambda>x. \<not> is_linebreak x" "c # cs"]
    by (simp del: dropWhile.simps)
qed simp

text \<open>\<open>s.split(c, 1)\<close>\<close>

definition split1 :: "char \<Rightarrow> string \<Rightarrow> string list" where
  "split1 c s = (if c \<in> set s
     then [takeWhile (\<lambda>x. x \<noteq> c) s, tl (dropWhile (\<lambda>x. x \<noteq> c) s)] else [s])"

text \<open>\<open>s.strip()\<close>, \<open>s.lower()\<close>, \<open>s.startswith(p)\<close>, \<open>s.rfind(c)\<close>\<close>

definition strip :: "string \<Rightarrow> string" where
  "strip s = rev (dropWhile is_space (rev (dropWhile is_space s)))"

definition lower :: "string \<Rightarrow> string" where
  "lower s = map lower_char s"

definition startswith :: "string \<Rightarrow> string \<Rightarrow> bool" where
  "startswith s p \<longleftrightarrow> take (length p) s = p"

definition rfind :: "string \<Rightarrow> char \<Rightarrow> int" where
  "rfind s c = int (length s) - 1 - int (length (takeWhile (\<lambda>x. x \<noteq> c) (rev s)))"

text \<open>\<open>sep.join(xs)\<close>\<close>

fun join :: "string \<Rightarrow> string list \<Rightarrow> string" where
  "join sep [] = []"
| "join sep [x] = x"
| "join sep (x # y # xs) = x @ sep @ join sep (y # xs)"

text \<open>Splitting at every occurrence of a character: \<open>s.split(c)\<close>.\<close>

fun split_on :: "char \<Rightarrow> string \<Rightarrow> string list" where
  "split_on c [] = [[]]"
| "split_on c (x # xs) =
     (if x = c then [] # split_on c xs
      else (case split_on c xs of [] \<Rightarrow> [[x]] | w # ws \<Rightarrow> (x # w) # ws))"

lemma split_on_nonempty: "split_on c s \<noteq> []"
  by (induction s) (auto split: list.splits)

lemma split_on_id: "c \<notin> set s \<Longrightarrow> split_on c s = [s]"
  by (induction s) auto

lemma split_on_app: "c \<notin> set s \<Longrightarrow> split_on c (s @ c # t) = s # split_on c t"
  by (induction s) auto

lemma split1_nth0: "split1 c s ! 0 = takeWhile (\<lambda>x. x \<noteq> c) s"
  by (auto simp: split1_def intro!: takeWhile_all_app [symmetric])

lemma startswith_iff: "startswith s p \<longleftrightarrow> prefix p s"
  by (simp add: startswith_def take_eq_prefix)

lemma rfind_absent: "c \<notin> set s \<Longrightarrow> rfind s c = - 1"
proof -
  assume "c \<notin> set s"
  then have "takeWhile (\<lambda>x. x \<noteq> c) (rev s) = rev s"
    by (intro takeWhile_all_app) auto
  then have "length (takeWhile (\<lambda>x. x \<noteq> c) (rev s)) = length s"
    by (simp only: length_rev)
  then show ?thesis by (simp only: rfind_def)
qed

lemma rfind_split: "c \<notin> set t \<Longrightarrow> rfind (s @ c # t) c = int (length s)"
proof -
  assume "c \<notin> set t"
  then have "takeWhile (\<lambda>x. x \<noteq> c) (rev t @ c # rev s) = rev t"
    by (intro takeWhile_app_stop) auto
  then show ?thesis by (simp add: rfind_def)
qed

section \<open>Decimal numbers\<close>

text \<open>\<open>str(n)\<close> and \<open>int(s)\<close>; \<open>None\<close> stands for \<open>ValueError\<close>. As in Python, digits may be
  grouped by single underscores.\<close>

fun show_nat :: "nat \<Rightarrow> string" where
  "show_nat n = (if n < 10 then [digit_char n] else show_nat (n div 10) @ [digit_char (n mod 10)])"

declare show_nat.simps [simp del]

definition show_int :: "int \<Rightarrow> string" where
  "show_int i = (if i < 0 then ''-'' @ show_nat (nat (- i)) else show_nat (nat i))"

fun digits_val :: "nat \<Rightarrow> string \<Rightarrow> nat option" where
  "digits_val acc [] = Some acc"
| "digits_val acc (c # cs) =
     (if is_digit c then digits_val (10 * acc + digit_val c) cs
      else if c = CHR ''_'' then
        (case cs of [] \<Rightarrow> None | d # _ \<Rightarrow> if is_digit d then digits_val acc cs else None)
      else None)"

definition nat_lit :: "string \<Rightarrow> nat option" where
  "nat_lit s = (case s of [] \<Rightarrow> None | c # _ \<Rightarrow> if is_digit c then digits_val 0 s else None)"

definition py_int :: "string \<Rightarrow> int option" where
  "py_int s = (case strip s of
     [] \<Rightarrow> None
   | c # cs \<Rightarrow>
       if c = CHR ''-'' then map_option (\<lambda>n. - int n) (nat_lit cs)
       else if c = CHR ''+'' then map_option int (nat_lit cs)
       else map_option int (nat_lit (c # cs)))"

lemma show_nat_nonempty [simp]: "show_nat n \<noteq> []"
  by (subst show_nat.simps) simp

lemma show_nat_digits: "c \<in> set (show_nat n) \<Longrightarrow> is_digit c"
proof (induction n rule: show_nat.induct)
  case (1 n)
  then show ?case by (subst (asm) (2) show_nat.simps) (auto split: if_splits)
qed

lemma digits_val_append:
  "\<forall>c \<in> set s. is_digit c \<Longrightarrow> \<forall>c \<in> set t. is_digit c \<Longrightarrow>
   digits_val acc (s @ t) = Option.bind (digits_val acc s) (\<lambda>a. digits_val a t)"
  by (induction s arbitrary: acc) auto

lemma digits_val_show: "digits_val 0 (show_nat n) = Some n"
proof (induction n rule: show_nat.induct)
  case (1 n)
  show ?case
  proof (cases "n < 10")
    case True
    then show ?thesis by (subst show_nat.simps) simp
  next
    case False
    then have "digits_val 0 (show_nat (n div 10) @ [digit_char (n mod 10)]) = Some n"
      using 1 by (subst digits_val_append) (auto dest: show_nat_digits)
    with False show ?thesis by (subst show_nat.simps) simp
  qed
qed

lemma nat_lit_show: "nat_lit (show_nat n) = Some n"
proof -
  obtain c cs where s: "show_nat n = c # cs"
    using show_nat_nonempty [of n] by (cases "show_nat n") auto
  then have "is_digit c" using show_nat_digits [of c n] by simp
  with s show ?thesis using digits_val_show [of n]
    by (simp add: nat_lit_def del: digits_val.simps)
qed

lemma dropWhile_hd: "s = [] \<or> \<not> P (hd s) \<Longrightarrow> dropWhile P s = s"
  by (cases s) auto

lemma strip_id:
  assumes "s = [] \<or> (\<not> is_space (hd s) \<and> \<not> is_space (last s))"
  shows "strip s = s"
proof -
  have "dropWhile is_space s = s" using assms by (auto intro: dropWhile_hd)
  moreover have "dropWhile is_space (rev s) = rev s"
    using assms by (auto intro!: dropWhile_hd simp: hd_rev)
  ultimately show ?thesis by (simp add: strip_def)
qed

lemma py_int_show_nat: "py_int (show_nat n) = Some (int n)"
proof -
  obtain c cs where s: "show_nat n = c # cs"
    using show_nat_nonempty [of n] by (cases "show_nat n") auto
  have d: "is_digit c" using show_nat_digits [of c n] s by simp
  then have "c \<noteq> CHR ''-''" "c \<noteq> CHR ''+''"
    by (auto simp: is_digit_def code_def)
  moreover have "strip (show_nat n) = show_nat n"
  proof (rule strip_id, rule disjI2)
    have "is_digit (last (show_nat n))"
      by (rule show_nat_digits [of _ n]) simp
    moreover have "is_digit (hd (show_nat n))" using d s by simp
    ultimately show "\<not> is_space (hd (show_nat n)) \<and> \<not> is_space (last (show_nat n))"
      by (simp add: digit_not_space)
  qed
  ultimately show ?thesis
    using nat_lit_show [of n] by (simp add: py_int_def s)
qed

section \<open>The first word of a line\<close>

lemma rstrip_append:
  "w \<noteq> [] \<Longrightarrow> \<not> is_space (last w) \<Longrightarrow>
   rev (dropWhile is_space (rev (w @ t))) = w @ rev (dropWhile is_space (rev t))"
  by (cases "\<forall>c \<in> set t. is_space c")
    (auto simp: dropWhile_append dropWhile_hd hd_rev)

lemma rstrip_cases: "t = c # u \<Longrightarrow> rev (dropWhile is_space (rev t)) = [] \<or> hd (rev (dropWhile is_space (rev t))) = c"
  by (auto simp: dropWhile_append split: if_splits)

lemma split_ws_word:
  assumes "w \<noteq> []" "\<forall>c \<in> set w. \<not> is_space c" "t = [] \<or> is_space (hd t)"
  shows "split_ws (w @ t) = w # split_ws t"
proof -
  obtain a v where w: "w = a # v" using assms(1) by (cases w) auto
  have 1: "takeWhile (\<lambda>x. \<not> is_space x) (w @ t) = w"
    using assms(2,3) by (cases t) (auto intro: takeWhile_all_app takeWhile_app_stop)
  have 2: "dropWhile (\<lambda>x. \<not> is_space x) (w @ t) = t"
    using assms(2,3) by (cases t) (auto simp: dropWhile_all_app dropWhile_app_stop)
  have "\<not> is_space a" using assms(2) w by simp
  then have "split_ws (w @ t) = takeWhile (\<lambda>x. \<not> is_space x) (w @ t)
      # split_ws (dropWhile (\<lambda>x. \<not> is_space x) (w @ t))"
    unfolding w append_Cons by (subst split_ws.simps(2)) simp
  then show ?thesis by (simp only: 1 2)
qed

lemma first_word:
  assumes "w \<noteq> []" "\<forall>c \<in> set w. \<not> is_space c" "is_space c"
  shows "\<exists>ws. split_ws (strip (w @ c # t)) = w # ws"
proof -
  let ?r = "rev (dropWhile is_space (rev (c # t)))"
  have "dropWhile is_space (w @ c # t) = w @ c # t"
    using assms(1,2) by (cases w) auto
  then have "strip (w @ c # t) = w @ ?r"
    using rstrip_append [of w "c # t"] assms(1,2) by (simp add: strip_def)
  moreover have "?r = [] \<or> is_space (hd ?r)"
    using rstrip_cases [of "c # t" c t] assms(3) by auto
  ultimately show ?thesis using split_ws_word [OF assms(1,2)] by metis
qed

section \<open>Text read from files and pipes\<close>

text \<open>Text mode reads turn CR LF and CR into LF and require valid UTF-8.\<close>

fun univ_nl :: "string \<Rightarrow> string" where
  "univ_nl [] = []"
| "univ_nl [c] = [if c = CR then NL else c]"
| "univ_nl (c # d # s) =
     (if c = CR then (if d = NL then NL # univ_nl s else NL # univ_nl (d # s)) else c # univ_nl (d # s))"

definition is_cont :: "char \<Rightarrow> bool" where
  "is_cont c \<longleftrightarrow> 128 \<le> code c \<and> code c < 192"

fun utf8_ok :: "string \<Rightarrow> bool" where
  "utf8_ok [] = True"
| "utf8_ok (c # s) =
     (if code c < 128 then utf8_ok s
      else if 194 \<le> code c \<and> code c < 224 then (case s of c1 # r \<Rightarrow> is_cont c1 \<and> utf8_ok r | _ \<Rightarrow> False)
      else if 224 \<le> code c \<and> code c < 240 then
        (case s of c1 # c2 # r \<Rightarrow> is_cont c1 \<and> is_cont c2 \<and> (code c = 224 \<longrightarrow> 160 \<le> code c1)
           \<and> (code c = 237 \<longrightarrow> code c1 < 160) \<and> utf8_ok r | _ \<Rightarrow> False)
      else if 240 \<le> code c \<and> code c < 245 then
        (case s of c1 # c2 # c3 # r \<Rightarrow> is_cont c1 \<and> is_cont c2 \<and> is_cont c3 \<and> (code c = 240 \<longrightarrow> 144 \<le> code c1)
           \<and> (code c = 244 \<longrightarrow> code c1 < 144) \<and> utf8_ok r | _ \<Rightarrow> False)
      else False)"

lemma univ_nl_id: "CR \<notin> set s \<Longrightarrow> univ_nl s = s"
  by (induction s rule: univ_nl.induct) auto

lemma univ_nl_append: "CR \<notin> set s \<Longrightarrow> univ_nl (s @ t) = s @ univ_nl t"
proof (induction s)
  case (Cons c s)
  then show ?case by (cases "s @ t") auto
qed simp

lemma utf8_ok_ascii: "\<forall>c \<in> set s. code c < 128 \<Longrightarrow> utf8_ok s"
  by (induction s) auto

end
