(* ===== verification/FileSys.thy ===== *)
theory FileSys
  imports PyStr
begin

text \<open>
  The file system the tool works on, as seen through the system calls Python's \<open>os\<close>,
  \<open>pathlib\<close> and \<open>shutil\<close> issue: one tree of directories, regular files with hard
  links and symbolic links, each file's data kept in an inode. A call yields its result
  or an exception, and the list of all the states the disk goes through while it runs,
  so that what a crash may leave behind is part of the model.

  Paths are absolute lists of components. A symbolic link is followed when it is the
  last component of a path; the directories on the way to it are real directories.
\<close>

section \<open>Paths\<close>

type_synonym path = "string list"

text \<open>\<open>str(p)\<close>, and \<open>p / s\<close> of pathlib: an absolute \<open>s\<close> replaces \<open>p\<close>, empty and
  \<open>.\<close> components vanish.\<close>

definition path_str :: "path \<Rightarrow> string" where
  "path_str p = (if p = [] then ''/'' else concat (map (\<lambda>c. CHR ''/'' # c) p))"

definition comps :: "string \<Rightarrow> path" where
  "comps s = filter (\<lambda>c. c \<noteq> [] \<and> c \<noteq> ''.'') (split_on (CHR ''/'') s)"

definition pjoin :: "path \<Rightarrow> string \<Rightarrow> path" where
  "pjoin p s = (if startswith s ''/'' then comps s else p @ comps s)"

text \<open>\<open>os.path.basename(s)\<close>\<close>

definition basename :: "string \<Rightarrow> string" where
  "basename s = drop (nat (rfind s (CHR ''/'') + 1)) s"

text \<open>A string that is one ordinary path component.\<close>

definition plain_name :: "string \<Rightarrow> bool" where
  "plain_name s \<longleftrightarrow> s \<noteq> [] \<and> CHR ''/'' \<notin> set s \<and> s \<noteq> ''.'' \<and> s \<noteq> ''..''"

lemma comps_plain [simp]: "plain_name s \<Longrightarrow> comps s = [s]"
  by (simp add: comps_def plain_name_def split_on_id)

lemma pjoin_plain [simp]: "plain_name s \<Longrightarrow> pjoin p s = p @ [s]"
  by (cases s) (auto simp: pjoin_def plain_name_def startswith_def comps_def split_on_id)

lemma basename_plain: "CHR ''/'' \<notin> set s \<Longrightarrow> basename s = s"
  by (simp add: basename_def rfind_absent)

lemma basename_after_slash: "CHR ''/'' \<notin> set t \<Longrightarrow> basename (s @ CHR ''/'' # t) = t"
  by (simp add: basename_def rfind_split nat_add_distrib)

text \<open>A path of such components is read back from its text.\<close>

definition plain_path :: "path \<Rightarrow> bool" where
  "plain_path p \<longleftrightarrow> list_all plain_name p"

lemma comps_slash: "comps (CHR ''/'' # s) = comps s"
  by (simp add: comps_def)

lemma comps_path_str:
  assumes "plain_path p"
  shows "comps (path_str p) = p"
proof -
  have s: "comps (concat (map (\<lambda>c. CHR ''/'' # c) q)) = q" if "list_all plain_name q" for q
    using that
  proof (induction q)
    case Nil
    then show ?case by (simp add: comps_def)
  next
    case (Cons c q)
    have c: "CHR ''/'' \<notin> set c" "c \<noteq> []" "c \<noteq> ''.''" using Cons.prems by (auto simp: plain_name_def)
    show ?case
    proof (cases q)
      case Nil
      then show ?thesis using Cons.prems by (simp add: comps_slash)
    next
      case (Cons d r)
      then have "comps (c @ concat (map (\<lambda>c. CHR ''/'' # c) q)) = c # comps (concat (map (\<lambda>c. CHR ''/'' # c) q))"
        using c split_on_app [OF c(1)] by (simp add: comps_def)
      then show ?thesis using Cons.IH Cons.prems by (simp add: comps_slash)
    qed
  qed
  show ?thesis
    using s assms by (cases "p = []") (simp_all add: path_str_def plain_path_def comps_def)
qed

text \<open>The name of a hidden or temporary file.\<close>

definition dotted :: "string \<Rightarrow> bool" where
  "dotted s \<longleftrightarrow> startswith s ''.''"

section \<open>Data\<close>

datatype node = Dir | File nat | Symlink string

record inode =
  bytes :: string
  verity :: bool

record fs =
  entries :: "(path \<times> node) list"
  inodes :: "nat \<Rightarrow> inode option"
  next_ino :: nat

datatype errno = ENOENT | EEXIST | ENOTDIR | EISDIR | EPERM | ENOTEMPTY | ELOOP | EINVAL

datatype exn =
    SystemExit
  | OSErr errno path
  | SameFile path
  | ValueErr
  | KeyErr string
  | IndexErr
  | TypeErr
  | AttributeErr

fun is_oserror :: "exn \<Rightarrow> bool" where
  "is_oserror (OSErr _ _) = True"
| "is_oserror (SameFile _) = True"
| "is_oserror _ = False"

definition lookup :: "fs \<Rightarrow> path \<Rightarrow> node option" where
  "lookup f p = (if p = [] then Some Dir else map_of (entries f) p)"

definition set_entry :: "path \<Rightarrow> node \<Rightarrow> fs \<Rightarrow> fs" where
  "set_entry p n f = f\<lparr>entries := AList.update p n (entries f)\<rparr>"

definition del_entry :: "path \<Rightarrow> fs \<Rightarrow> fs" where
  "del_entry p f = f\<lparr>entries := AList.delete p (entries f)\<rparr>"

definition set_data :: "nat \<Rightarrow> inode \<Rightarrow> fs \<Rightarrow> fs" where
  "set_data i b f = f\<lparr>inodes := (inodes f)(i := Some b)\<rparr>"

lemma lookup_root [simp]: "lookup f [] = Some Dir"
  by (simp add: lookup_def)

lemma lookup_set_entry [fs_simps]:
  "p \<noteq> [] \<Longrightarrow> lookup (set_entry p n f) q = (if q = p then Some n else lookup f q)"
  by (simp add: lookup_def set_entry_def map_of_update)

lemma lookup_del_entry [fs_simps]:
  "p \<noteq> [] \<Longrightarrow> lookup (del_entry p f) q = (if q = p then None else lookup f q)"
  by (simp add: lookup_def del_entry_def map_of_delete_if)

lemma lookup_set_data [fs_simps]: "lookup (set_data i b f) q = lookup f q"
  by (simp add: lookup_def set_data_def)

lemma lookup_next_ino [fs_simps]: "lookup (f\<lparr>next_ino := n\<rparr>) q = lookup f q"
  by (simp add: lookup_def)

lemma inodes_update [fs_simps]:
  "inodes (set_entry p n f) = inodes f"
  "inodes (del_entry p f) = inodes f"
  "inodes (set_data i b f) = (inodes f)(i := Some b)"
  by (simp_all add: set_entry_def del_entry_def set_data_def)

lemma next_ino_update [fs_simps]:
  "next_ino (set_entry p n f) = next_ino f"
  "next_ino (del_entry p f) = next_ino f"
  "next_ino (set_data i b f) = next_ino f"
  by (simp_all add: set_entry_def del_entry_def set_data_def)

section \<open>Observations\<close>

text \<open>Following the symbolic links at the end of a path, with the kernel's limit.\<close>

fun resolve :: "nat \<Rightarrow> fs \<Rightarrow> path \<Rightarrow> path option" where
  "resolve 0 f p = None"
| "resolve (Suc n) f p =
     (case lookup f p of Some (Symlink t) \<Rightarrow> resolve n f (pjoin (butlast p) t) | _ \<Rightarrow> Some p)"

definition max_links :: nat where
  "max_links = 40"

definition realpath :: "fs \<Rightarrow> path \<Rightarrow> path option" where
  "realpath f p = resolve max_links f p"

definition stat :: "fs \<Rightarrow> path \<Rightarrow> node option" where
  "stat f p = (case realpath f p of None \<Rightarrow> None | Some q \<Rightarrow> lookup f q)"

definition is_symlink :: "fs \<Rightarrow> path \<Rightarrow> bool" where
  "is_symlink f p = (case lookup f p of Some (Symlink _) \<Rightarrow> True | _ \<Rightarrow> False)"

definition path_exists :: "fs \<Rightarrow> path \<Rightarrow> bool" where
  "path_exists f p = (stat f p \<noteq> None)"

definition is_file :: "fs \<Rightarrow> path \<Rightarrow> bool" where
  "is_file f p = (case stat f p of Some (File _) \<Rightarrow> True | _ \<Rightarrow> False)"

definition is_dir :: "fs \<Rightarrow> path \<Rightarrow> bool" where
  "is_dir f p = (stat f p = Some Dir)"

text \<open>The data of the regular file at a path, no link followed.\<close>

definition cat :: "fs \<Rightarrow> path \<Rightarrow> string option" where
  "cat f p = (case lookup f p of Some (File i) \<Rightarrow> map_option bytes (inodes f i) | _ \<Rightarrow> None)"

text \<open>\<open>st_nlink\<close>: how many names an inode has.\<close>

definition nlink :: "fs \<Rightarrow> nat \<Rightarrow> nat" where
  "nlink f i = length (filter (\<lambda>e. snd e = File i) (entries f))"

definition children :: "fs \<Rightarrow> path \<Rightarrow> string list" where
  "children f p = map last (filter (\<lambda>q. q \<noteq> [] \<and> butlast q = p) (map fst (entries f)))"

definition below :: "fs \<Rightarrow> path \<Rightarrow> path list" where
  "below f p = filter (\<lambda>q. strict_prefix p q) (map fst (entries f))"

lemma resolve_no_link: "\<not> is_symlink f p \<Longrightarrow> 0 < n \<Longrightarrow> resolve n f p = Some p"
  by (cases n) (auto simp: is_symlink_def split: option.splits node.splits)

lemma realpath_no_link: "\<not> is_symlink f p \<Longrightarrow> realpath f p = Some p"
  by (simp add: realpath_def resolve_no_link max_links_def)

lemma stat_no_link: "\<not> is_symlink f p \<Longrightarrow> stat f p = lookup f p"
  by (simp add: stat_def realpath_no_link)

lemma stat_simps [simp]:
  "lookup f p = None \<Longrightarrow> stat f p = None"
  "lookup f p = Some Dir \<Longrightarrow> stat f p = Some Dir"
  "lookup f p = Some (File i) \<Longrightarrow> stat f p = Some (File i)"
  by (subst stat_no_link; simp add: is_symlink_def)+

lemma is_file_lookup [simp]: "lookup f p = Some (File i) \<Longrightarrow> is_file f p"
  by (simp add: is_file_def)

lemma is_dir_lookup [simp]: "lookup f p = Some Dir \<Longrightarrow> is_dir f p"
  by (simp add: is_dir_def)

lemma lookup_None_obs [simp]:
  "lookup f p = None \<Longrightarrow> \<not> is_file f p"
  "lookup f p = None \<Longrightarrow> \<not> is_dir f p"
  "lookup f p = None \<Longrightarrow> \<not> path_exists f p"
  "lookup f p = None \<Longrightarrow> \<not> is_symlink f p"
  by (simp_all add: is_file_def is_dir_def path_exists_def is_symlink_def)

lemma path_exists_lookup [simp]:
  "lookup f p = Some (File i) \<Longrightarrow> path_exists f p"
  "lookup f p = Some Dir \<Longrightarrow> path_exists f p"
  by (simp_all add: path_exists_def)

lemma cat_Some_lookup: "cat f p = Some b \<Longrightarrow> \<exists>i. lookup f p = Some (File i)"
  by (auto simp: cat_def split: option.splits node.splits)

lemma cat_is_file: "cat f p = Some b \<Longrightarrow> is_file f p"
  by (auto dest: cat_Some_lookup)

end
