(* ===== verification/SysCalls.thy ===== *)
theory SysCalls
  imports FileSys
begin

text \<open>
  The calls that change the file system. Each yields its result or the exception Python
  raises, with the states the disk goes through, oldest first; the last one, if any, is
  the state it leaves. Single calls are atomic; data is written byte by byte, so a crash
  can leave any prefix of it.
\<close>

type_synonym 'a sys = "fs \<Rightarrow> (exn + 'a) \<times> fs list"

definition atomic :: "(fs \<Rightarrow> exn + fs) \<Rightarrow> unit sys" where
  "atomic g f = (case g f of Inl x \<Rightarrow> (Inl x, []) | Inr f' \<Rightarrow> (Inr (), [f']))"

text \<open>What is wrong with the directory a name is to be created in, if anything.\<close>

definition parent_err :: "fs \<Rightarrow> path \<Rightarrow> errno option" where
  "parent_err f p = (case lookup f (butlast p) of
     None \<Rightarrow> Some ENOENT | Some Dir \<Rightarrow> None | Some _ \<Rightarrow> Some ENOTDIR)"

section \<open>Names\<close>

definition mkdir1 :: "path \<Rightarrow> fs \<Rightarrow> exn + fs" where
  "mkdir1 p f =
     (if lookup f p \<noteq> None then Inl (OSErr EEXIST p)
      else case parent_err f p of Some e \<Rightarrow> Inl (OSErr e p) | None \<Rightarrow> Inr (set_entry p Dir f))"

definition unlink1 :: "path \<Rightarrow> fs \<Rightarrow> exn + fs" where
  "unlink1 p f = (case lookup f p of
     None \<Rightarrow> Inl (OSErr ENOENT p)
   | Some Dir \<Rightarrow> Inl (OSErr EISDIR p)
   | Some _ \<Rightarrow> Inr (del_entry p f))"

definition symlink1 :: "string \<Rightarrow> path \<Rightarrow> fs \<Rightarrow> exn + fs" where
  "symlink1 t p f =
     (if lookup f p \<noteq> None then Inl (OSErr EEXIST p)
      else if t = [] then Inl (OSErr ENOENT p)
      else case parent_err f p of
          Some e \<Rightarrow> Inl (OSErr e p) | None \<Rightarrow> Inr (set_entry p (Symlink t) f))"

text \<open>\<open>os.link(src, dst)\<close> of a regular file.\<close>

definition link1 :: "path \<Rightarrow> path \<Rightarrow> fs \<Rightarrow> exn + fs" where
  "link1 src dst f = (case stat f src of
     None \<Rightarrow> Inl (OSErr ENOENT src)
   | Some (File i) \<Rightarrow>
       (if lookup f dst \<noteq> None then Inl (OSErr EEXIST dst)
        else case parent_err f dst of
            Some e \<Rightarrow> Inl (OSErr e dst) | None \<Rightarrow> Inr (set_entry dst (File i) f))
   | Some _ \<Rightarrow> Inl (OSErr EPERM src))"

fun is_regular :: "node \<Rightarrow> bool" where
  "is_regular (File _) = True"
| "is_regular _ = False"

text \<open>\<open>os.replace(src, dst)\<close>; the program renames files and links only. Two names of one
  file are left as they are, as POSIX has it.\<close>

definition replace1 :: "path \<Rightarrow> path \<Rightarrow> fs \<Rightarrow> exn + fs" where
  "replace1 src dst f = (case lookup f src of
     None \<Rightarrow> Inl (OSErr ENOENT src)
   | Some Dir \<Rightarrow> Inl (OSErr EISDIR src)
   | Some n \<Rightarrow>
       (if lookup f dst = Some Dir then Inl (OSErr EISDIR dst)
        else case parent_err f dst of
            Some e \<Rightarrow> Inl (OSErr e dst)
          | None \<Rightarrow>
              if src = dst \<or> (lookup f dst = Some n \<and> is_regular n) then Inr f
              else Inr (set_entry dst n (del_entry src f))))"

definition rmdir1 :: "path \<Rightarrow> fs \<Rightarrow> exn + fs" where
  "rmdir1 p f = (case lookup f p of
     None \<Rightarrow> Inl (OSErr ENOENT p)
   | Some Dir \<Rightarrow>
       (if p = [] \<or> children f p \<noteq> [] then Inl (OSErr ENOTEMPTY p) else Inr (del_entry p f))
   | Some _ \<Rightarrow> Inl (OSErr ENOTDIR p))"

text \<open>\<open>shutil.rmtree(p)\<close>: everything below \<open>p\<close>, contents before their directory.\<close>

fun del_all :: "path list \<Rightarrow> fs \<Rightarrow> fs list" where
  "del_all [] f = []"
| "del_all (p # ps) f = (let f' = del_entry p f in f' # del_all ps f')"

definition deepest_first :: "path list \<Rightarrow> path list" where
  "deepest_first ps = sort_key (\<lambda>q. - int (length q)) ps"

definition rmtree1 :: "path \<Rightarrow> unit sys" where
  "rmtree1 p f = (case lookup f p of
     None \<Rightarrow> (Inl (OSErr ENOENT p), [])
   | Some Dir \<Rightarrow>
       if p = [] then (Inl (OSErr EPERM p), [])
       else (Inr (), del_all (deepest_first (below f p) @ [p]) f)
   | Some _ \<Rightarrow> (Inl (OSErr ENOTDIR p), []))"

section \<open>Data\<close>

text \<open>The states of an inode being overwritten: truncated, then longer and longer.\<close>

definition grow :: "nat \<Rightarrow> string \<Rightarrow> fs \<Rightarrow> fs list" where
  "grow i b f = map (\<lambda>k. set_data i \<lparr>bytes = take k b, verity = False\<rparr> f) [0..<Suc (length b)]"

text \<open>A new regular file.\<close>

definition create :: "path \<Rightarrow> string \<Rightarrow> fs \<Rightarrow> fs list" where
  "create p b f = grow (next_ino f) b
     (set_entry p (File (next_ino f)) (f\<lparr>next_ino := Suc (next_ino f)\<rparr>))"

text \<open>Writing a whole file: \<open>open(p, 'w')\<close> and \<open>write\<close>. A file sealed with fs-verity cannot
  be opened for writing.\<close>

definition write1 :: "path \<Rightarrow> string \<Rightarrow> unit sys" where
  "write1 p b f = (case realpath f p of
     None \<Rightarrow> (Inl (OSErr ELOOP p), [])
   | Some q \<Rightarrow> (case lookup f q of
         Some (File i) \<Rightarrow> (case inodes f i of
             None \<Rightarrow> (Inl (OSErr EINVAL p), [])
           | Some nd \<Rightarrow> if verity nd then (Inl (OSErr EPERM p), []) else (Inr (), grow i b f))
       | None \<Rightarrow> (case parent_err f q of
             Some e \<Rightarrow> (Inl (OSErr e p), []) | None \<Rightarrow> (Inr (), create q b f))
       | Some _ \<Rightarrow> (Inl (OSErr EISDIR p), [])))"

definition read1 :: "path \<Rightarrow> fs \<Rightarrow> exn + string" where
  "read1 p f = (case stat f p of
     None \<Rightarrow> Inl (OSErr ENOENT p)
   | Some (File i) \<Rightarrow> (case inodes f i of None \<Rightarrow> Inl (OSErr EINVAL p) | Some nd \<Rightarrow> Inr (bytes nd))
   | Some _ \<Rightarrow> Inl (OSErr EISDIR p))"

lemma cat_read: "cat f p = Some b \<Longrightarrow> read1 p f = Inr b"
  by (auto simp: cat_def read1_def split: option.splits node.splits)

text \<open>\<open>shutil.copy2(src, dst)\<close>: into a directory when \<open>dst\<close> is one; refused when both are
  the same file.\<close>

definition copy1 :: "path \<Rightarrow> path \<Rightarrow> unit sys" where
  "copy1 src dst f =
     (let d = (if is_dir f dst then dst @ [last src] else dst)
      in case read1 src f of
           Inl x \<Rightarrow> (Inl x, [])
         | Inr b \<Rightarrow> if stat f d = stat f src then (Inl (SameFile d), []) else write1 d b f)"

definition listdir1 :: "path \<Rightarrow> fs \<Rightarrow> exn + string list" where
  "listdir1 p f = (case stat f p of
     None \<Rightarrow> Inl (OSErr ENOENT p)
   | Some Dir \<Rightarrow> Inr (children f p)
   | Some _ \<Rightarrow> Inl (OSErr ENOTDIR p))"

definition readlink1 :: "path \<Rightarrow> fs \<Rightarrow> exn + string" where
  "readlink1 p f = (case lookup f p of
     None \<Rightarrow> Inl (OSErr ENOENT p) | Some (Symlink t) \<Rightarrow> Inr t | Some _ \<Rightarrow> Inl (OSErr EINVAL p))"

text \<open>\<open>os.walk(d)\<close>: the non-directories and the directories strictly below \<open>d\<close>; links
  to directories count as directories and are not entered.\<close>

definition walk_files :: "fs \<Rightarrow> path \<Rightarrow> path list" where
  "walk_files f d = filter (\<lambda>q. \<not> is_dir f q) (below f d)"

definition walk_dirs :: "fs \<Rightarrow> path \<Rightarrow> path list" where
  "walk_dirs f d = filter (\<lambda>q. is_dir f q) (below f d)"

section \<open>Well-formed file systems\<close>

definition keys_ok :: "fs \<Rightarrow> bool" where
  "keys_ok f \<longleftrightarrow> distinct (map fst (entries f)) \<and> [] \<notin> fst ` set (entries f)"

definition wf_fs :: "fs \<Rightarrow> bool" where
  "wf_fs f \<longleftrightarrow> keys_ok f \<and>
     (\<forall>p n. lookup f p = Some n \<longrightarrow> p \<noteq> [] \<longrightarrow> lookup f (butlast p) = Some Dir) \<and>
     (\<forall>p i. lookup f p = Some (File i) \<longrightarrow> i < next_ino f \<and> inodes f i \<noteq> None)"

text \<open>Every name or inode outside the given sets is untouched.\<close>

definition only :: "path set \<Rightarrow> nat set \<Rightarrow> fs \<Rightarrow> fs \<Rightarrow> bool" where
  "only A N f g \<longleftrightarrow> (\<forall>q. q \<notin> A \<longrightarrow> lookup g q = lookup f q) \<and> (\<forall>i. i \<notin> N \<longrightarrow> inodes g i = inodes f i)"

lemma only_refl [simp]: "only A N f f"
  by (simp add: only_def)

lemma only_trans: "only A N f g \<Longrightarrow> only A N g h \<Longrightarrow> only A N f h"
  by (simp add: only_def)

lemma only_mono: "only A N f g \<Longrightarrow> A \<subseteq> A' \<Longrightarrow> N \<subseteq> N' \<Longrightarrow> only A' N' f g"
  by (auto simp: only_def)

lemma only_cat: "only A N f g \<Longrightarrow> p \<notin> A \<Longrightarrow> (\<And>i. lookup f p = Some (File i) \<Longrightarrow> i \<notin> N) \<Longrightarrow>
   cat g p = cat f p"
  by (auto simp: only_def cat_def split: option.splits node.splits)

lemma wf_lookup: "wf_fs f \<Longrightarrow> p \<noteq> [] \<Longrightarrow> lookup f p = map_of (entries f) p"
  by (simp add: lookup_def)

lemma wf_parent: "wf_fs f \<Longrightarrow> lookup f p = Some n \<Longrightarrow> p \<noteq> [] \<Longrightarrow> lookup f (butlast p) = Some Dir"
  by (simp add: wf_fs_def)

lemma wf_file: "wf_fs f \<Longrightarrow> lookup f p = Some (File i) \<Longrightarrow> i < next_ino f \<and> (\<exists>b. inodes f i = Some b)"
  by (auto simp: wf_fs_def)

lemma wf_file_cat: "wf_fs f \<Longrightarrow> lookup f p = Some (File i) \<Longrightarrow> \<exists>b. cat f p = Some b"
  by (auto simp: cat_def dest: wf_file)

lemma wf_in_keys: "wf_fs f \<Longrightarrow> q \<in> fst ` set (entries f) \<longleftrightarrow> q \<noteq> [] \<and> lookup f q \<noteq> None"
  unfolding wf_fs_def keys_ok_def lookup_def using map_of_eq_None_iff [of "entries f" q] by auto

lemma wf_below: "wf_fs f \<Longrightarrow> q \<in> set (below f p) \<longleftrightarrow> strict_prefix p q \<and> lookup f q \<noteq> None"
  using wf_in_keys [of f q] by (auto simp: below_def)

lemma wf_prefix_dir:
  assumes wf: "wf_fs f" and ex: "lookup f q = Some n" and p: "strict_prefix p q"
  shows "lookup f p = Some Dir"
  using ex p
proof (induction q arbitrary: n rule: rev_induct)
  case (snoc x q)
  then have "lookup f q = Some Dir" using wf_parent [OF wf, of "q @ [x]"] by simp
  moreover have "p = q \<or> strict_prefix p q"
    using snoc.prems(2) by (auto simp: strict_prefix_def)
  ultimately show ?case using snoc.IH by blast
qed simp

lemma wf_children: "wf_fs f \<Longrightarrow> c \<in> set (children f p) \<longleftrightarrow> lookup f (p @ [c]) \<noteq> None"
proof -
  assume wf: "wf_fs f"
  have "c \<in> set (children f p) \<longleftrightarrow> (\<exists>q. q \<in> fst ` set (entries f) \<and> q \<noteq> [] \<and> butlast q = p \<and> last q = c)"
    by (auto simp: children_def)
  also have "\<dots> \<longleftrightarrow> p @ [c] \<in> fst ` set (entries f)"
    by (metis append_butlast_last_id butlast_snoc last_snoc snoc_eq_iff_butlast)
  finally show ?thesis using wf_in_keys [OF wf, of "p @ [c]"] by simp
qed

section \<open>What the calls preserve\<close>

lemma keys_ok_updates [simp]:
  "p \<noteq> [] \<Longrightarrow> keys_ok f \<Longrightarrow> keys_ok (set_entry p n f)"
  "keys_ok f \<Longrightarrow> keys_ok (del_entry p f)"
  "keys_ok (set_data i b f) = keys_ok f"
  "keys_ok (f\<lparr>next_ino := m\<rparr>) = keys_ok f"
  using dom_delete_subset [of p "entries f"]
  by (auto simp: keys_ok_def set_entry_def del_entry_def set_data_def distinct_update
      distinct_delete dom_update simp del: set_map)

lemma wf_keys: "wf_fs f \<Longrightarrow> keys_ok f"
  by (simp add: wf_fs_def)

lemma wf_set_entry:
  assumes "wf_fs f" "p \<noteq> []" "lookup f (butlast p) = Some Dir" "lookup f p \<noteq> Some Dir"
    and "\<And>i. n = File i \<Longrightarrow> i < next_ino f \<and> inodes f i \<noteq> None"
  shows "wf_fs (set_entry p n f)"
  using assms wf_parent [OF assms(1)] wf_file [OF assms(1)]
  by (auto simp: wf_fs_def fs_simps split: if_splits)

lemma wf_del_entry:
  assumes "wf_fs f" "p \<noteq> []" "\<And>c. lookup f (p @ [c]) = None"
  shows "wf_fs (del_entry p f)"
proof -
  have "lookup (del_entry p f) (butlast q) = Some Dir"
    if q: "lookup (del_entry p f) q = Some n" "q \<noteq> []" for q n
  proof -
    have "butlast q \<noteq> p"
      using q assms by (metis append_butlast_last_id lookup_del_entry option.distinct(1))
    then show ?thesis
      using q assms wf_parent [OF assms(1), of q] by (auto simp: fs_simps split: if_splits)
  qed
  then show ?thesis
    using assms wf_file [OF assms(1)] by (auto simp: wf_fs_def fs_simps split: if_splits)
qed

lemma wf_no_child: "wf_fs f \<Longrightarrow> lookup f p \<noteq> Some Dir \<Longrightarrow> lookup f (p @ [c]) = None"
  using wf_parent [of f "p @ [c]"] by (cases "lookup f (p @ [c])") auto

lemma wf_del_nondir: "wf_fs f \<Longrightarrow> p \<noteq> [] \<Longrightarrow> lookup f p \<noteq> Some Dir \<Longrightarrow> wf_fs (del_entry p f)"
  by (rule wf_del_entry) (auto intro: wf_no_child)

lemma wf_set_data: "wf_fs f \<Longrightarrow> wf_fs (set_data i b f)"
  by (auto simp: wf_fs_def fs_simps)

lemma wf_bump: "wf_fs f \<Longrightarrow> wf_fs (f\<lparr>next_ino := Suc (next_ino f)\<rparr>)"
  by (auto simp: wf_fs_def fs_simps less_SucI)

lemma set_data_set_entry: "set_data i b (set_entry p n f) = set_entry p n (set_data i b f)"
  by (simp add: set_data_def set_entry_def)

lemma parent_err_None: "parent_err f p = None \<longleftrightarrow> lookup f (butlast p) = Some Dir"
  by (auto simp: parent_err_def split: option.splits node.splits)

lemma wf_mkdir1: "wf_fs f \<Longrightarrow> mkdir1 p f = Inr g \<Longrightarrow> wf_fs g"
  by (cases "p = []")
    (auto simp: mkdir1_def parent_err_None split: if_splits option.splits intro!: wf_set_entry)

lemma wf_unlink1: "wf_fs f \<Longrightarrow> unlink1 p f = Inr g \<Longrightarrow> wf_fs g"
  by (cases "p = []") (auto simp: unlink1_def split: option.splits node.splits intro!: wf_del_nondir)

lemma wf_symlink1: "wf_fs f \<Longrightarrow> symlink1 t p f = Inr g \<Longrightarrow> wf_fs g"
  by (cases "p = []")
    (auto simp: symlink1_def parent_err_None split: if_splits option.splits intro!: wf_set_entry)

lemma stat_file_bound: "wf_fs f \<Longrightarrow> stat f p = Some (File i) \<Longrightarrow> i < next_ino f \<and> (\<exists>b. inodes f i = Some b)"
  by (auto simp: stat_def split: option.splits dest: wf_file)

lemma wf_link1: "wf_fs f \<Longrightarrow> link1 s p f = Inr g \<Longrightarrow> wf_fs g"
  by (cases "p = []")
    (auto simp: link1_def parent_err_None split: if_splits option.splits node.splits
      intro!: wf_set_entry dest: stat_file_bound)

lemma wf_replace1:
  assumes wf: "wf_fs f" and r: "replace1 s d f = Inr g"
  shows "wf_fs g"
proof -
  obtain n where n: "lookup f s = Some n" "n \<noteq> Dir" and d: "lookup f d \<noteq> Some Dir"
    and pd: "lookup f (butlast d) = Some Dir"
    and g: "g = f \<or> (s \<noteq> d \<and> g = set_entry d n (del_entry s f))"
    using r by (auto simp: replace1_def parent_err_None split: option.splits node.splits if_splits)
  then have ne: "s \<noteq> []" "d \<noteq> []" by auto
  have wf': "wf_fs (del_entry s f)" using wf ne n by (intro wf_del_nondir) auto
  from pd n have "butlast d \<noteq> s" by auto
  with pd d ne have "lookup (del_entry s f) (butlast d) = Some Dir"
    "lookup (del_entry s f) d \<noteq> Some Dir" by (auto simp: fs_simps)
  with wf' ne n(1) have "wf_fs (set_entry d n (del_entry s f))"
    by (intro wf_set_entry) (auto simp: fs_simps dest: wf_file [OF wf])
  with g wf show ?thesis by blast
qed

lemma wf_rmdir1: "wf_fs f \<Longrightarrow> rmdir1 p f = Inr g \<Longrightarrow> wf_fs g"
  using wf_children [of f _ p]
  by (cases "p = []") (auto simp: rmdir1_def split: option.splits node.splits if_splits intro!: wf_del_entry)

lemma wf_grow: "wf_fs f \<Longrightarrow> g \<in> set (grow i b f) \<Longrightarrow> wf_fs g"
  by (auto simp: grow_def intro: wf_set_data)

lemma wf_create:
  assumes "wf_fs f" "lookup f (butlast p) = Some Dir" "lookup f p = None" "g \<in> set (create p b f)"
  shows "wf_fs g"
proof -
  let ?f = "f\<lparr>next_ino := Suc (next_ino f)\<rparr>"
  obtain x where g: "g = set_entry p (File (next_ino f)) (set_data (next_ino f) x ?f)"
    using assms(4) by (auto simp: create_def grow_def set_data_set_entry)
  have "p \<noteq> []" using assms(3) by auto
  then show ?thesis unfolding g
    using assms by (intro wf_set_entry wf_set_data wf_bump) (auto simp: fs_simps)
qed

lemma wf_write1: "wf_fs f \<Longrightarrow> g \<in> set (snd (write1 p b f)) \<Longrightarrow> wf_fs g"
  by (auto simp: write1_def parent_err_None split: option.splits node.splits if_splits
      intro: wf_grow wf_create)

lemma wf_copy1: "wf_fs f \<Longrightarrow> g \<in> set (snd (copy1 s d f)) \<Longrightarrow> wf_fs g"
  by (auto simp: copy1_def Let_def split: sum.splits if_splits intro: wf_write1)

text \<open>Removing a set of names, contents before their directory.\<close>

lemma wf_del_all:
  assumes "wf_fs f" "[] \<notin> set ps" "sorted_wrt (\<lambda>p q. length q \<le> length p) ps"
    and "\<And>q c. q \<in> set ps \<Longrightarrow> lookup f (q @ [c]) \<noteq> None \<Longrightarrow> q @ [c] \<in> set ps"
  shows "g \<in> set (del_all ps f) \<Longrightarrow> wf_fs g"
  using assms
proof (induction ps arbitrary: f)
  case (Cons p ps)
  have noc: "lookup f (p @ [c]) = None" for c
    using Cons.prems(4) Cons.prems(5) [of p c] by (cases "lookup f (p @ [c])") auto
  then have wf': "wf_fs (del_entry p f)"
    using Cons.prems(2,3) by (intro wf_del_entry) auto
  have "q @ [c] \<in> set ps" if "q \<in> set ps" "lookup (del_entry p f) (q @ [c]) \<noteq> None" for q c
    using that Cons.prems(3) Cons.prems(5) [of q c] by (auto simp: fs_simps split: if_splits)
  with Cons.IH [OF _ wf'] Cons.prems wf' show ?case by (auto simp: Let_def)
qed simp

lemma del_all_only: "[] \<notin> set ps \<Longrightarrow> g \<in> set (del_all ps f) \<Longrightarrow> only (set ps) {} f g"
proof (induction ps arbitrary: f)
  case (Cons p ps)
  have "only (set (p # ps)) {} f (del_entry p f)"
    using Cons.prems by (auto simp: only_def fs_simps)
  moreover have "only (set (p # ps)) {} (del_entry p f) g" if "g \<in> set (del_all ps (del_entry p f))"
    using Cons.IH [of "del_entry p f"] Cons.prems that by (auto intro: only_mono)
  ultimately show ?case using Cons.prems(2) by (auto simp: Let_def intro: only_trans)
qed simp

lemma del_all_last:
  "[] \<notin> set ps \<Longrightarrow> lookup (last (f # del_all ps f)) q = (if q \<in> set ps then None else lookup f q)
     \<and> inodes (last (f # del_all ps f)) = inodes f"
  by (induction ps arbitrary: f) (auto simp: Let_def fs_simps)

lemma del_all_shrinks: "[] \<notin> set ps \<Longrightarrow> g \<in> set (del_all ps f) \<Longrightarrow> lookup g q = lookup f q \<or> lookup g q = None"
proof (induction ps arbitrary: f)
  case (Cons p ps)
  have ne: "p \<noteq> []" using Cons.prems by auto
  have "lookup g q = lookup (del_entry p f) q \<or> lookup g q = None"
    using Cons.IH [of "del_entry p f"] Cons.prems by (cases "g = del_entry p f") (auto simp: Let_def)
  then show ?case by (auto simp: lookup_del_entry [OF ne] split: if_splits)
qed simp

lemma set_deepest_first [simp]: "set (deepest_first ps) = set ps"
  by (simp add: deepest_first_def)

lemma sorted_deepest_first: "sorted_wrt (\<lambda>p q. length q \<le> length p) (deepest_first ps)"
proof -
  have "sorted (map (\<lambda>q. - int (length q)) (deepest_first ps))"
    by (simp add: deepest_first_def)
  then show ?thesis by (simp add: sorted_map)
qed

lemma rmtree1_dels:
  assumes "wf_fs f" "p \<noteq> []"
  shows "set (deepest_first (below f p) @ [p]) = {q. prefix p q \<and> lookup f q \<noteq> None} \<union> {p}"
    and "sorted_wrt (\<lambda>p q. length q \<le> length p) (deepest_first (below f p) @ [p])"
    and "[] \<notin> set (deepest_first (below f p) @ [p])"
  using assms sorted_deepest_first [of "below f p"]
  by (auto simp: wf_below sorted_wrt_append strict_prefix_def dest: prefix_length_le)

lemma wf_rmtree1: 
  assumes wf: "wf_fs f" and g: "g \<in> set (snd (rmtree1 p f))"
  shows "wf_fs g"
proof -
  have ne: "p \<noteq> []" and g': "g \<in> set (del_all (deepest_first (below f p) @ [p]) f)"
    using g by (auto simp: rmtree1_def split: option.splits node.splits if_splits)
  show ?thesis
    by (rule wf_del_all [OF wf _ _ _ g'])
      (use rmtree1_dels [OF wf ne] in \<open>auto simp: wf_below [OF wf] strict_prefix_def\<close>)
qed

lemma rmtree1_only:
  assumes wf: "wf_fs f" and g: "g \<in> set (snd (rmtree1 p f))"
  shows "only {q. prefix p q} {} f g"
proof -
  have ne: "p \<noteq> []" and g': "g \<in> set (del_all (deepest_first (below f p) @ [p]) f)"
    using g by (auto simp: rmtree1_def split: option.splits node.splits if_splits)
  show ?thesis
    by (rule only_mono [OF del_all_only [OF _ g']]) (use rmtree1_dels [OF wf ne] in auto)
qed

lemma rmtree1_dir:
  assumes wf: "wf_fs f" and d: "lookup f p = Some Dir" and ne: "p \<noteq> []"
  shows "fst (rmtree1 p f) = Inr ()"
    and "lookup (last (f # snd (rmtree1 p f))) q = (if prefix p q then None else lookup f q)"
    and "inodes (last (f # snd (rmtree1 p f))) = inodes f"
proof -
  have r: "rmtree1 p f = (Inr (), del_all (deepest_first (below f p) @ [p]) f)"
    using d ne by (simp add: rmtree1_def)
  show "fst (rmtree1 p f) = Inr ()" by (simp add: r)
  note D = rmtree1_dels [OF wf ne]
  show "lookup (last (f # snd (rmtree1 p f))) q = (if prefix p q then None else lookup f q)"
    using del_all_last [OF D(3), of f q] D(1) by (cases "lookup f q") (auto simp: r)
  show "inodes (last (f # snd (rmtree1 p f))) = inodes f"
    using del_all_last [OF D(3), of f q] by (simp add: r)
qed

text \<open>Writing to a path that is no link: one name and one inode change.\<close>

definition ino_for :: "fs \<Rightarrow> path \<Rightarrow> nat" where
  "ino_for f p = (case lookup f p of Some (File i) \<Rightarrow> i | _ \<Rightarrow> next_ino f)"

definition writable :: "fs \<Rightarrow> path \<Rightarrow> bool" where
  "writable f p = (case lookup f p of
     None \<Rightarrow> lookup f (butlast p) = Some Dir
   | Some (File i) \<Rightarrow> (case inodes f i of None \<Rightarrow> False | Some nd \<Rightarrow> \<not> verity nd)
   | _ \<Rightarrow> False)"

definition written :: "fs \<Rightarrow> path \<Rightarrow> string \<Rightarrow> fs \<Rightarrow> bool" where
  "written f p b g \<longleftrightarrow> lookup g = (lookup f)(p \<mapsto> File (ino_for f p)) \<and>
     inodes g = (inodes f)(ino_for f p \<mapsto> \<lparr>bytes = b, verity = False\<rparr>)"

lemma writable_write1:
  assumes "writable f p"
  shows "fst (write1 p b f) = Inr ()"
    and "g \<in> set (snd (write1 p b f)) \<Longrightarrow> \<exists>k. written f p (take k b) g"
    and "written f p b (last (f # snd (write1 p b f)))"
proof -
  let ?gs = "snd (write1 p b f)"
  have nl: "\<not> is_symlink f p"
    using assms by (auto simp: writable_def is_symlink_def split: option.splits node.splits)
  have "fst (write1 p b f) = Inr () \<and>
    (\<exists>h. ?gs = grow (ino_for f p) b h \<and> lookup h = (lookup f)(p \<mapsto> File (ino_for f p)) \<and> inodes h = inodes f)"
  proof (cases "lookup f p")
    case None
    then have "p \<noteq> []" by auto
    let ?h = "set_entry p (File (next_ino f)) (f\<lparr>next_ino := Suc (next_ino f)\<rparr>)"
    have "write1 p b f = (Inr (), grow (next_ino f) b ?h)"
      using None assms nl
      by (auto simp: write1_def create_def writable_def realpath_no_link parent_err_None
          split: option.splits)
    then show ?thesis using None \<open>p \<noteq> []\<close>
      by (auto simp: ino_for_def fs_simps intro!: exI [of _ ?h])
  next
    case (Some n)
    then obtain i nd where n: "n = File i" "inodes f i = Some nd" "\<not> verity nd"
      using assms by (auto simp: writable_def split: node.splits option.splits)
    then have "write1 p b f = (Inr (), grow i b f)"
      using Some nl by (simp add: write1_def realpath_no_link)
    then show ?thesis using Some n by (auto simp: ino_for_def fun_upd_idem intro!: exI [of _ f])
  qed
  then obtain h where h: "fst (write1 p b f) = Inr ()" "?gs = grow (ino_for f p) b h"
    "lookup h = (lookup f)(p \<mapsto> File (ino_for f p))" "inodes h = inodes f" by blast
  show "fst (write1 p b f) = Inr ()" by (rule h)
  have lk: "lookup (set_data i d h) = lookup h" for i d by (rule ext) (simp add: fs_simps)
  show "\<exists>k. written f p (take k b) g" if "g \<in> set ?gs"
    using that h(2-4) by (auto simp: grow_def written_def lk fs_simps simp del: upt_Suc)
  have "last (f # ?gs) = set_data (ino_for f p) \<lparr>bytes = b, verity = False\<rparr> h"
    unfolding h(2) grow_def by simp
  then show "written f p b (last (f # ?gs))"
    using h(3,4) by (simp add: written_def lk fs_simps)
qed

lemma not_writable_write1:
  "\<not> is_symlink f p \<Longrightarrow> \<not> writable f p \<Longrightarrow> write1 p b f = (fst (write1 p b f), []) \<and> (\<exists>x. fst (write1 p b f) = Inl x)"
  by (auto simp: write1_def writable_def realpath_no_link parent_err_def is_symlink_def
      split: option.splits node.splits)

lemma written_cat:
  "written f p b g \<Longrightarrow> cat g p = Some b"
  by (simp add: written_def cat_def)

lemma written_frame:
  assumes "written f p b g" "q \<noteq> p" "wf_fs f"
    and "\<And>i. lookup f p = Some (File i) \<Longrightarrow> lookup f q \<noteq> Some (File i)"
  shows "lookup g q = lookup f q" "cat g q = cat f q"
proof -
  show lk: "lookup g q = lookup f q" using assms(1,2) by (simp add: written_def)
  have "i \<noteq> ino_for f p" if "lookup f q = Some (File i)" for i
  proof (cases "lookup f p")
    case None
    then show ?thesis using wf_file [OF assms(3) that] by (auto simp: ino_for_def)
  next
    case (Some n)
    then show ?thesis using that assms(4) wf_file [OF assms(3) that]
      by (cases n) (auto simp: ino_for_def)
  qed
  then show "cat g q = cat f q" using assms(1) lk
    by (auto simp: cat_def written_def split: option.splits node.splits)
qed

end
