(* ===== verification/Proc.thy ===== *)
theory Proc
  imports SysCalls Complex_Main
begin

text \<open>
  Python procedures as state transformers with exceptions. A procedure reads the
  environment of the run (flags, external programs, clock), works on the world (disk,
  terminal), and returns a value or raises; what it did before raising stays done. The
  world keeps every state the disk went through, newest first, so that a property of
  \<open>hist\<close> is a property of every possible crash.
\<close>

section \<open>Environment and world\<close>

text \<open>The outcome of an external command: status, output, and the states it takes the
  disk through.\<close>

record tool_result =
  t_rc :: int
  t_out :: string
  t_err :: string
  t_fs :: "fs list"

text \<open>The run's parameters. The last fields stand for what the code does not determine: the
  readings of the clock, the iteration order of a set of strings, the order in which the
  jobs of a thread pool complete, the decompressor, the line the user types, and the process that holds the lock, if
  any, with what it still does to the disk.\<close>

record env =
  dry_run :: bool
  verbose :: bool
  tool :: "string list \<Rightarrow> fs \<Rightarrow> tool_result"
  has_tool :: "string \<Rightarrow> bool"
  euid :: nat
  clock :: string
  temp_name :: "string \<Rightarrow> fs \<Rightarrow> path"
  getenv :: "string \<Rightarrow> string option"
  tty :: bool
  mono :: "nat \<Rightarrow> rat"
  set_order :: "string list \<Rightarrow> string list"
  done_order :: "nat \<Rightarrow> nat list"
  gunzip :: "string \<Rightarrow> string option"
  stdin_line :: "string option"
  lock_holder :: "(fs \<Rightarrow> fs list) option"

record world =
  fsys :: fs
  hist :: "fs list"
  stdout :: "string list"
  stderr :: "string list"
  ticks :: nat

type_synonym 'a proc = "env \<Rightarrow> world \<Rightarrow> (exn + 'a) \<times> world"

section \<open>Constructs\<close>

definition ret :: "'a \<Rightarrow> 'a proc" where
  "ret x e w = (Inr x, w)"

definition raise :: "exn \<Rightarrow> 'a proc" where
  "raise x e w = (Inl x, w)"

definition bnd :: "'a proc \<Rightarrow> ('a \<Rightarrow> 'b proc) \<Rightarrow> 'b proc" where
  "bnd m k e w = (case m e w of (Inl x, w') \<Rightarrow> (Inl x, w') | (Inr v, w') \<Rightarrow> k v e w')"

text \<open>A block of statements.\<close>

fun steps :: "unit proc list \<Rightarrow> unit proc" where
  "steps [] = ret ()"
| "steps (m # ms) = bnd m (\<lambda>_. steps ms)"

text \<open>\<open>if c: m\<close>, with a condition on values, and one on the disk.\<close>

definition if_do :: "bool \<Rightarrow> unit proc \<Rightarrow> unit proc" where
  "if_do c m = (if c then m else ret ())"

definition gets :: "(fs \<Rightarrow> 'a) \<Rightarrow> 'a proc" where
  "gets g e w = (Inr (g (fsys w)), w)"

definition reads :: "(fs \<Rightarrow> exn + 'a) \<Rightarrow> 'a proc" where
  "reads g e w = (g (fsys w), w)"

definition asks :: "(env \<Rightarrow> 'a) \<Rightarrow> 'a proc" where
  "asks g e w = (Inr (g e), w)"

definition lift :: "exn + 'a \<Rightarrow> 'a proc" where
  "lift r e w = (r, w)"

definition syscall :: "'a sys \<Rightarrow> 'a proc" where
  "syscall op e w = (case op (fsys w) of (r, gs) \<Rightarrow>
     (r, w\<lparr>fsys := last (fsys w # gs), hist := rev gs @ hist w\<rparr>))"

definition print :: "string \<Rightarrow> unit proc" where
  "print s e w = (Inr (), w\<lparr>stdout := stdout w @ [s]\<rparr>)"

definition eprint :: "string \<Rightarrow> unit proc" where
  "eprint s e w = (Inr (), w\<lparr>stderr := stderr w @ [s]\<rparr>)"

text \<open>\<open>try: m except: h\<close> (\<open>h\<close> re-raises what it does not handle) and \<open>try: m finally: c\<close>.\<close>

definition try_except :: "'a proc \<Rightarrow> (exn \<Rightarrow> 'a proc) \<Rightarrow> 'a proc" where
  "try_except m h e w = (case m e w of (Inl x, w') \<Rightarrow> h x e w' | (Inr v, w') \<Rightarrow> (Inr v, w'))"

definition try_finally :: "'a proc \<Rightarrow> unit proc \<Rightarrow> 'a proc" where
  "try_finally m c e w = (case m e w of (r, w') \<Rightarrow>
     (case c e w' of (Inl x, w'') \<Rightarrow> (Inl x, w'') | (Inr _, w'') \<Rightarrow> (r, w'')))"

text \<open>\<open>for x in xs: m x\<close>, and the same with a variable carried along.\<close>

fun for_each :: "('a \<Rightarrow> unit proc) \<Rightarrow> 'a list \<Rightarrow> unit proc" where
  "for_each m [] = ret ()"
| "for_each m (x # xs) = bnd (m x) (\<lambda>_. for_each m xs)"

fun for_acc :: "('a \<Rightarrow> 'b \<Rightarrow> 'b proc) \<Rightarrow> 'a list \<Rightarrow> 'b \<Rightarrow> 'b proc" where
  "for_acc m [] b = ret b"
| "for_acc m (x # xs) b = bnd (m x b) (for_acc m xs)"

section \<open>Calls of the standard library\<close>

text \<open>\<open>time.monotonic()\<close>: the \<open>n\<close>-th reading of the clock is the environment's.\<close>

definition monotonic :: "rat proc" where
  "monotonic e w = (Inr (mono e (ticks w)), w\<lparr>ticks := Suc (ticks w)\<rparr>)"

definition os_mkdir :: "path \<Rightarrow> unit proc" where
  "os_mkdir p = syscall (atomic (mkdir1 p))"

definition os_unlink :: "path \<Rightarrow> unit proc" where
  "os_unlink p = syscall (atomic (unlink1 p))"

definition os_symlink :: "string \<Rightarrow> path \<Rightarrow> unit proc" where
  "os_symlink t p = syscall (atomic (symlink1 t p))"

definition os_link :: "path \<Rightarrow> path \<Rightarrow> unit proc" where
  "os_link s d = syscall (atomic (link1 s d))"

definition os_replace :: "path \<Rightarrow> path \<Rightarrow> unit proc" where
  "os_replace s d = syscall (atomic (replace1 s d))"

definition os_rmdir :: "path \<Rightarrow> unit proc" where
  "os_rmdir p = syscall (atomic (rmdir1 p))"

definition rmtree :: "path \<Rightarrow> unit proc" where
  "rmtree p = syscall (rmtree1 p)"

definition write_text :: "path \<Rightarrow> string \<Rightarrow> unit proc" where
  "write_text p b = syscall (write1 p b)"

definition copy2 :: "path \<Rightarrow> path \<Rightarrow> unit proc" where
  "copy2 s d = syscall (copy1 s d)"

definition read_bytes :: "path \<Rightarrow> string proc" where
  "read_bytes p = reads (read1 p)"

text \<open>\<open>rmtree(p, ignore_errors=True)\<close>\<close>

definition rmtree_quiet :: "path \<Rightarrow> unit proc" where
  "rmtree_quiet p = try_except (rmtree p) (\<lambda>x. if is_oserror x then ret () else raise x)"

text \<open>\<open>p.mkdir(parents=True, exist_ok=True)\<close>, on the reversed path.\<close>

fun mkdirs_rev :: "string list \<Rightarrow> unit proc" where
  "mkdirs_rev [] = ret ()"
| "mkdirs_rev (c # r) =
     (let p = rev (c # r) in
      try_except (os_mkdir p) (\<lambda>x.
        if x = OSErr ENOENT p then bnd (mkdirs_rev r) (\<lambda>_. os_mkdir p)
        else bnd (gets (\<lambda>f. is_dir f p)) (\<lambda>d. if d then ret () else raise x)))"

definition mkdirs :: "path \<Rightarrow> unit proc" where
  "mkdirs p = mkdirs_rev (rev p)"

text \<open>\<open>tempfile.mkdtemp(prefix)\<close>: the name is the environment's choice.\<close>

definition mkdtemp :: "string \<Rightarrow> path proc" where
  "mkdtemp pre = bnd (asks (\<lambda>e. temp_name e pre)) (\<lambda>nm.
     bnd (gets nm) (\<lambda>p. bnd (os_mkdir p) (\<lambda>_. ret p)))"

section \<open>Runs from a given disk\<close>

definition boot :: "fs \<Rightarrow> world" where
  "boot f = \<lparr>fsys = f, hist = [], stdout = [], stderr = [], ticks = 0\<rparr>"

definition outcome :: "'a proc \<Rightarrow> env \<Rightarrow> fs \<Rightarrow> exn + 'a" where
  "outcome m e f = fst (m e (boot f))"

definition disk_after :: "'a proc \<Rightarrow> env \<Rightarrow> fs \<Rightarrow> fs" where
  "disk_after m e f = fsys (snd (m e (boot f)))"

text \<open>The states a crash can leave: the disk before, between and after the system calls.\<close>

definition crash_states :: "'a proc \<Rightarrow> env \<Rightarrow> fs \<Rightarrow> fs set" where
  "crash_states m e f = insert f (set (hist (snd (m e (boot f)))))"

lemmas proc_defs [run_simps] =
  ret_def raise_def bnd_def if_do_def gets_def reads_def asks_def lift_def print_def eprint_def
  try_except_def try_finally_def monotonic_def

lemma bnd_assoc: "bnd (bnd m k) h = bnd m (\<lambda>x. bnd (k x) h)"
  by (intro ext) (simp add: bnd_def split: prod.split sum.split)

lemma bnd_ret: "bnd (ret x) k = k x"
  by (intro ext) (simp add: bnd_def ret_def)

lemma bnd_lift: "bnd (lift (Inr x)) k = k x"
  by (intro ext) (simp add: bnd_def lift_def)

lemma syscall_atomic [run_simps]:
  "syscall (atomic g) e w = (case g (fsys w) of
     Inl x \<Rightarrow> (Inl x, w) | Inr f \<Rightarrow> (Inr (), w\<lparr>fsys := f, hist := f # hist w\<rparr>))"
  by (auto simp: syscall_def atomic_def split: sum.splits)

section \<open>Triples\<close>

text \<open>
  \<open>xtriple e P C X m Q\<close>: started on a disk satisfying \<open>P\<close>, every state \<open>m\<close> takes the disk
  through satisfies \<open>C\<close>; if \<open>m\<close> raises \<open>x\<close> it leaves a disk satisfying \<open>X x\<close>, and if it
  returns \<open>x\<close> one satisfying \<open>Q x\<close>. In \<open>triple\<close> an exception is one more way to stop; in
  \<open>tot\<close> there is none.
\<close>

definition xtriple ::
  "env \<Rightarrow> (fs \<Rightarrow> bool) \<Rightarrow> (fs \<Rightarrow> bool) \<Rightarrow> (exn \<Rightarrow> fs \<Rightarrow> bool) \<Rightarrow> 'a proc \<Rightarrow> ('a \<Rightarrow> fs \<Rightarrow> bool) \<Rightarrow> bool" where
  "xtriple e P C X m Q \<longleftrightarrow> (\<forall>w. P (fsys w) \<longrightarrow>
     (case m e w of (r, w') \<Rightarrow>
        (\<exists>new. hist w' = new @ hist w \<and> fsys w' = hd (new @ [fsys w]) \<and> (\<forall>g \<in> set new. C g)) \<and>
        (case r of Inl x \<Rightarrow> X x (fsys w') | Inr x \<Rightarrow> Q x (fsys w'))))"

lemmas triple_def = xtriple_def

abbreviation triple ::
  "env \<Rightarrow> (fs \<Rightarrow> bool) \<Rightarrow> (fs \<Rightarrow> bool) \<Rightarrow> 'a proc \<Rightarrow> ('a \<Rightarrow> fs \<Rightarrow> bool) \<Rightarrow> bool" where
  "triple e P C m Q \<equiv> xtriple e P C (\<lambda>_. C) m Q"

abbreviation keeps :: "env \<Rightarrow> (fs \<Rightarrow> bool) \<Rightarrow> 'a proc \<Rightarrow> bool" where
  "keeps e I m \<equiv> triple e I I m (\<lambda>_. I)"

abbreviation tot ::
  "env \<Rightarrow> (fs \<Rightarrow> bool) \<Rightarrow> (fs \<Rightarrow> bool) \<Rightarrow> 'a proc \<Rightarrow> ('a \<Rightarrow> fs \<Rightarrow> bool) \<Rightarrow> bool" where
  "tot e P C m Q \<equiv> xtriple e P C (\<lambda>_ _. False) m Q"

lemma tripleI:
  assumes "\<And>w. P (fsys w) \<Longrightarrow> \<exists>new. hist (snd (m e w)) = new @ hist w \<and>
      fsys (snd (m e w)) = hd (new @ [fsys w]) \<and> (\<forall>g \<in> set new. C g)"
    and "\<And>w x. P (fsys w) \<Longrightarrow> fst (m e w) = Inl x \<Longrightarrow> X x (fsys (snd (m e w)))"
    and "\<And>w x. P (fsys w) \<Longrightarrow> fst (m e w) = Inr x \<Longrightarrow> Q x (fsys (snd (m e w)))"
  shows "xtriple e P C X m Q"
  using assms by (fastforce simp: triple_def split: prod.splits sum.splits)

lemma tripleD:
  assumes "xtriple e P C X m Q" "P (fsys w)" "m e w = (r, w')"
  obtains new where "hist w' = new @ hist w" "\<forall>g \<in> set new. C g" "fsys w' = hd (new @ [fsys w])"
    "\<And>x. r = Inl x \<Longrightarrow> X x (fsys w')" "\<And>x. r = Inr x \<Longrightarrow> Q x (fsys w')"
proof -
  have *: "(\<exists>new. hist w' = new @ hist w \<and> fsys w' = hd (new @ [fsys w]) \<and> (\<forall>g \<in> set new. C g)) \<and>
        (case r of Inl x \<Rightarrow> X x (fsys w') | Inr x \<Rightarrow> Q x (fsys w'))"
    using assms by (auto simp: triple_def)
  then obtain new where "hist w' = new @ hist w" "\<forall>g \<in> set new. C g" "fsys w' = hd (new @ [fsys w])" by blast
  then show thesis using * by (intro that) (auto split: sum.splits)
qed

lemma tr_ret [tr_rules]: "(\<And>f. P f \<Longrightarrow> Q x f) \<Longrightarrow> xtriple e P C X (ret x) Q"
  by (auto simp: triple_def run_simps)

lemma tr_raise [tr_rules]: "(\<And>f. P f \<Longrightarrow> X x f) \<Longrightarrow> xtriple e P C X (raise x) Q"
  by (auto simp: triple_def run_simps)

lemma tr_bnd:
  assumes m: "xtriple e P C X m R" and k: "\<And>x. xtriple e (R x) C X (k x) Q"
  shows "xtriple e P C X (bnd m k) Q"
  unfolding triple_def
proof (intro allI impI)
  fix w :: world assume P: "P (fsys w)"
  obtain r w1 where mw: "m e w = (r, w1)" by fastforce
  obtain n1 where n1: "hist w1 = n1 @ hist w" "fsys w1 = hd (n1 @ [fsys w])" "\<forall>g \<in> set n1. C g"
    "\<And>x. r = Inl x \<Longrightarrow> X x (fsys w1)" "\<And>x. r = Inr x \<Longrightarrow> R x (fsys w1)"
    using tripleD [OF m P mw] by metis
  show "case bnd m k e w of (r, w') \<Rightarrow>
        (\<exists>new. hist w' = new @ hist w \<and> fsys w' = hd (new @ [fsys w]) \<and> (\<forall>g \<in> set new. C g)) \<and>
        (case r of Inl x \<Rightarrow> X x (fsys w') | Inr x \<Rightarrow> Q x (fsys w'))"
  proof (cases r)
    case (Inl x)
    then show ?thesis using n1 mw by (auto simp: bnd_def)
  next
    case (Inr x)
    obtain r2 w2 where kw: "k x e w1 = (r2, w2)" by fastforce
    obtain n2 where "hist w2 = n2 @ hist w1" "fsys w2 = hd (n2 @ [fsys w1])" "\<forall>g \<in> set n2. C g"
      "\<And>y. r2 = Inl y \<Longrightarrow> X y (fsys w2)" "\<And>y. r2 = Inr y \<Longrightarrow> Q y (fsys w2)"
      using tripleD [OF k n1(5) [OF Inr] kw] by metis
    then show ?thesis using n1 mw kw Inr
      by (auto simp: bnd_def intro!: exI [of _ "n2 @ n1"] simp: hd_append split: sum.splits)
  qed
qed

lemma tr_conseq_x:
  assumes m: "xtriple e P' C' X' m Q'" and "\<And>f. P f \<Longrightarrow> P' f" "\<And>f. C' f \<Longrightarrow> C f"
    "\<And>x f. X' x f \<Longrightarrow> X x f" "\<And>x f. Q' x f \<Longrightarrow> Q x f"
  shows "xtriple e P C X m Q"
proof (rule tripleI)
  fix w :: world assume "P (fsys w)"
  then have P': "P' (fsys w)" by (rule assms(2))
  obtain r w' where mw: "m e w = (r, w')" by fastforce
  obtain n where n: "hist w' = n @ hist w" "\<forall>g \<in> set n. C' g" "fsys w' = hd (n @ [fsys w])"
    "\<And>x. r = Inl x \<Longrightarrow> X' x (fsys w')" "\<And>x. r = Inr x \<Longrightarrow> Q' x (fsys w')"
    using tripleD [OF m P' mw] by metis
  show "\<exists>new. hist (snd (m e w)) = new @ hist w \<and> fsys (snd (m e w)) = hd (new @ [fsys w]) \<and> (\<forall>g\<in>set new. C g)"
    using n(1,2,3) mw assms(3) by (intro exI [of _ n]) auto
  show "fst (m e w) = Inl x \<Longrightarrow> X x (fsys (snd (m e w)))"
    "fst (m e w) = Inr y \<Longrightarrow> Q y (fsys (snd (m e w)))" for x y
    using n(4,5) mw assms(4,5) by auto
qed

lemma tr_conseq:
  assumes "triple e P' C' m Q'" "\<And>f. P f \<Longrightarrow> P' f" "\<And>f. C' f \<Longrightarrow> C f" "\<And>x f. Q' x f \<Longrightarrow> Q x f"
  shows "triple e P C m Q"
  by (rule tr_conseq_x [OF assms(1)]) (auto intro: assms)

lemma tr_total:
  assumes "tot e P' C' m Q'" "\<And>f. P f \<Longrightarrow> P' f" "\<And>f. C' f \<Longrightarrow> C f" "\<And>x f. Q' x f \<Longrightarrow> Q x f"
  shows "xtriple e P C X m Q"
  by (rule tr_conseq_x [OF assms(1)]) (auto intro: assms)

lemma tr_gets: "(\<And>f. P f \<Longrightarrow> Q (g f) f) \<Longrightarrow> xtriple e P C X (gets g) Q"
  by (auto simp: triple_def run_simps)

lemma tr_reads: "(\<And>f x. P f \<Longrightarrow> g f = Inr x \<Longrightarrow> Q x f) \<Longrightarrow> (\<And>f x. P f \<Longrightarrow> g f = Inl x \<Longrightarrow> X x f) \<Longrightarrow>
    xtriple e P C X (reads g) Q"
  by (auto simp: triple_def run_simps split: sum.splits)

lemma tr_asks: "(\<And>f. P f \<Longrightarrow> Q (g e) f) \<Longrightarrow> xtriple e P C X (asks g) Q"
  by (auto simp: triple_def run_simps)

lemma tr_lift: "(\<And>f x. P f \<Longrightarrow> r = Inr x \<Longrightarrow> Q x f) \<Longrightarrow> (\<And>f x. P f \<Longrightarrow> r = Inl x \<Longrightarrow> X x f) \<Longrightarrow>
    xtriple e P C X (lift r) Q"
  by (auto simp: triple_def run_simps split: sum.splits)

lemma tr_print: "(\<And>f. P f \<Longrightarrow> Q () f) \<Longrightarrow> xtriple e P C X (print s) Q"
  by (auto simp: triple_def run_simps)

lemma tr_monotonic: "(\<And>f x. P f \<Longrightarrow> Q x f) \<Longrightarrow> xtriple e P C X monotonic Q"
  by (auto simp: triple_def run_simps)

lemma tr_eprint: "(\<And>f. P f \<Longrightarrow> Q () f) \<Longrightarrow> xtriple e P C X (eprint s) Q"
  by (auto simp: triple_def run_simps)

lemma tr_syscall:
  assumes "\<And>f g. P f \<Longrightarrow> g \<in> set (snd (op f)) \<Longrightarrow> C g"
    and "\<And>f x. P f \<Longrightarrow> fst (op f) = Inl x \<Longrightarrow> X x (last (f # snd (op f)))"
    and "\<And>f x. P f \<Longrightarrow> fst (op f) = Inr x \<Longrightarrow> Q x (last (f # snd (op f)))"
  shows "xtriple e P C X (syscall op) Q"
proof (rule tripleI)
  fix w :: world assume P: "P (fsys w)"
  have s: "syscall op e w = (fst (op (fsys w)),
      w\<lparr>fsys := last (fsys w # snd (op (fsys w))), hist := rev (snd (op (fsys w))) @ hist w\<rparr>)"
    by (simp add: syscall_def split: prod.split)
  show "\<exists>new. hist (snd (syscall op e w)) = new @ hist w \<and> fsys (snd (syscall op e w)) = hd (new @ [fsys w]) \<and> (\<forall>g\<in>set new. C g)"
    unfolding s using assms(1) [OF P] by (auto simp: hd_append hd_rev)
  show "fst (syscall op e w) = Inl x \<Longrightarrow> X x (fsys (snd (syscall op e w)))"
    "fst (syscall op e w) = Inr y \<Longrightarrow> Q y (fsys (snd (syscall op e w)))" for x y
    unfolding s using assms(2) [OF P, of x] assms(3) [OF P, of y] by simp_all
qed

lemma tr_atomic:
  assumes "\<And>f g. P f \<Longrightarrow> op f = Inr g \<Longrightarrow> C g \<and> Q () g" "\<And>f x. P f \<Longrightarrow> op f = Inl x \<Longrightarrow> X x f"
  shows "xtriple e P C X (syscall (atomic op)) Q"
  by (rule tr_syscall) (use assms in \<open>auto simp: atomic_def split: sum.splits\<close>)

lemma tr_try:
  assumes m: "xtriple e P C Y m Q" and h: "\<And>x. xtriple e (Y x) C X (h x) Q"
  shows "xtriple e P C X (try_except m h) Q"
  unfolding triple_def
proof (intro allI impI)
  fix w :: world assume P: "P (fsys w)"
  obtain r w1 where mw: "m e w = (r, w1)" by fastforce
  obtain n1 where n1: "hist w1 = n1 @ hist w" "fsys w1 = hd (n1 @ [fsys w])" "\<forall>g \<in> set n1. C g"
    "\<And>x. r = Inl x \<Longrightarrow> Y x (fsys w1)" "\<And>x. r = Inr x \<Longrightarrow> Q x (fsys w1)"
    using tripleD [OF m P mw] by metis
  show "case try_except m h e w of (r, w') \<Rightarrow>
        (\<exists>new. hist w' = new @ hist w \<and> fsys w' = hd (new @ [fsys w]) \<and> (\<forall>g \<in> set new. C g)) \<and>
        (case r of Inl x \<Rightarrow> X x (fsys w') | Inr x \<Rightarrow> Q x (fsys w'))"
  proof (cases r)
    case (Inr x)
    then show ?thesis using n1 mw by (auto simp: try_except_def)
  next
    case (Inl x)
    obtain r2 w2 where kw: "h x e w1 = (r2, w2)" by fastforce
    obtain n2 where "hist w2 = n2 @ hist w1" "fsys w2 = hd (n2 @ [fsys w1])" "\<forall>g \<in> set n2. C g"
      "\<And>y. r2 = Inl y \<Longrightarrow> X y (fsys w2)" "\<And>y. r2 = Inr y \<Longrightarrow> Q y (fsys w2)"
      using tripleD [OF h n1(4) [OF Inl] kw] by metis
    then show ?thesis using n1 mw kw Inl
      by (auto simp: try_except_def intro!: exI [of _ "n2 @ n1"] simp: hd_append split: sum.splits)
  qed
qed

lemma tr_finally_post:
  assumes m: "triple e P I m Q" and c: "\<And>x. triple e (Q x) I c (\<lambda>_. Q x)" and h: "keeps e I c"
  shows "triple e P I (try_finally m c) Q"
  unfolding triple_def
proof (intro allI impI)
  fix w :: world assume P: "P (fsys w)"
  obtain r w1 where mw: "m e w = (r, w1)" by fastforce
  obtain n1 where n1: "hist w1 = n1 @ hist w" "fsys w1 = hd (n1 @ [fsys w])" "\<forall>g \<in> set n1. I g"
    "\<And>x. r = Inl x \<Longrightarrow> I (fsys w1)" "\<And>x. r = Inr x \<Longrightarrow> Q x (fsys w1)"
    using tripleD [OF m P mw] by metis
  obtain r2 w2 where kw: "c e w1 = (r2, w2)" by fastforce
  have "\<exists>n2. hist w2 = n2 @ hist w1 \<and> fsys w2 = hd (n2 @ [fsys w1]) \<and> (\<forall>g \<in> set n2. I g) \<and>
      (\<forall>y. r2 = Inl y \<longrightarrow> I (fsys w2)) \<and> (\<forall>y. r2 = Inr y \<longrightarrow> (case r of Inl x \<Rightarrow> I (fsys w2) | Inr x \<Rightarrow> Q x (fsys w2)))"
  proof (cases r)
    case (Inl x)
    then show ?thesis using tripleD [OF h n1(4) [OF Inl] kw] by (metis sum.case(1))
  next
    case (Inr x)
    then show ?thesis using tripleD [OF c n1(5) [OF Inr] kw] by (metis sum.case(2))
  qed
  then obtain n2 where n2: "hist w2 = n2 @ hist w1" "fsys w2 = hd (n2 @ [fsys w1])" "\<forall>g \<in> set n2. I g"
      "\<And>y. r2 = Inl y \<Longrightarrow> I (fsys w2)" "\<And>y. r2 = Inr y \<Longrightarrow> (case r of Inl x \<Rightarrow> I (fsys w2) | Inr x \<Rightarrow> Q x (fsys w2))"
    by blast
  have "hist w2 = (n2 @ n1) @ hist w" "fsys w2 = hd ((n2 @ n1) @ [fsys w])" "\<forall>g \<in> set (n2 @ n1). I g"
    using n1 n2 by (auto simp: hd_append)
  then have new: "\<exists>new. hist w2 = new @ hist w \<and> fsys w2 = hd (new @ [fsys w]) \<and> (\<forall>g \<in> set new. I g)" by blast
  have "try_finally m c e w = ((case r2 of Inl y \<Rightarrow> Inl y | Inr _ \<Rightarrow> r), w2)"
    using mw kw by (simp add: try_finally_def split: sum.split)
  then show "case try_finally m c e w of (r, w') \<Rightarrow>
        (\<exists>new. hist w' = new @ hist w \<and> fsys w' = hd (new @ [fsys w]) \<and> (\<forall>g \<in> set new. I g)) \<and>
        (case r of Inl _ \<Rightarrow> I (fsys w') | Inr x \<Rightarrow> Q x (fsys w'))"
    using new n2(4,5) by (cases r2; cases r) auto
qed

lemma tr_finally:
  assumes "keeps e I m" and "keeps e I c"
  shows "keeps e I (try_finally m c)"
  by (rule tr_finally_post) (use assms in auto)

lemma tr_conj:
  assumes a: "xtriple e P C X m Q" and b: "xtriple e P' C' X' m Q'"
  shows "xtriple e (\<lambda>f. P f \<and> P' f) (\<lambda>f. C f \<and> C' f) (\<lambda>x f. X x f \<and> X' x f) m (\<lambda>x f. Q x f \<and> Q' x f)"
  unfolding triple_def
proof (intro allI impI)
  fix w :: world assume P: "P (fsys w) \<and> P' (fsys w)"
  obtain r w1 where mw: "m e w = (r, w1)" by fastforce
  obtain n where n: "hist w1 = n @ hist w" "fsys w1 = hd (n @ [fsys w])" "\<forall>g \<in> set n. C g"
    "\<And>x. r = Inl x \<Longrightarrow> X x (fsys w1)" "\<And>x. r = Inr x \<Longrightarrow> Q x (fsys w1)"
    using tripleD [OF a _ mw] P by metis
  obtain n' where "hist w1 = n' @ hist w" "\<forall>g \<in> set n'. C' g"
    "\<And>x. r = Inl x \<Longrightarrow> X' x (fsys w1)" "\<And>x. r = Inr x \<Longrightarrow> Q' x (fsys w1)"
    using tripleD [OF b _ mw] P by metis
  then show "case m e w of (r, w') \<Rightarrow>
        (\<exists>new. hist w' = new @ hist w \<and> fsys w' = hd (new @ [fsys w]) \<and> (\<forall>g \<in> set new. C g \<and> C' g)) \<and>
        (case r of Inl x \<Rightarrow> X x (fsys w') \<and> X' x (fsys w') | Inr x \<Rightarrow> Q x (fsys w') \<and> Q' x (fsys w'))"
    using n mw by (auto intro!: exI [of _ n] split: sum.splits)
qed

text \<open>Rules for the first statement of a block.\<close>

lemma tr_pure: "(\<phi> \<Longrightarrow> xtriple e P C X m Q) \<Longrightarrow> xtriple e (\<lambda>f. P f \<and> \<phi>) C X m Q"
  by (auto simp: triple_def)

lemma tr_exact: "(\<And>f0. P f0 \<Longrightarrow> xtriple e ((=) f0) C X m Q) \<Longrightarrow> xtriple e P C X m Q"
  by (auto simp: triple_def)

lemma tr_pre: "xtriple e P' C X m Q \<Longrightarrow> (\<And>f. P f \<Longrightarrow> P' f) \<Longrightarrow> xtriple e P C X m Q"
  by (auto simp: triple_def)

lemma tr_gets_bnd: "(\<And>x. xtriple e (\<lambda>f. P f \<and> x = g f) C X (k x) Q) \<Longrightarrow> xtriple e P C X (bnd (gets g) k) Q"
  by (rule tr_bnd [where R = "\<lambda>x f. P f \<and> x = g f"]) (auto intro: tr_gets)

lemma tr_reads_bnd:
  "(\<And>x. xtriple e (\<lambda>f. P f \<and> g f = Inr x) C X (k x) Q) \<Longrightarrow> (\<And>f x. P f \<Longrightarrow> g f = Inl x \<Longrightarrow> X x f) \<Longrightarrow> xtriple e P C X (bnd (reads g) k) Q"
  by (rule tr_bnd [where R = "\<lambda>x f. P f \<and> g f = Inr x"]) (auto intro: tr_reads)

lemma tr_gets_exact:
  "xtriple e ((=) f) C X (k (g f)) Q \<Longrightarrow> xtriple e ((=) f) C X (bnd (gets g) k) Q"
  by (simp add: triple_def run_simps)

lemma tr_gets_const:
  "(\<And>f. P f \<Longrightarrow> g f = v) \<Longrightarrow> xtriple e P C X (k v) Q \<Longrightarrow> xtriple e P C X (bnd (gets g) k) Q"
  by (simp add: triple_def run_simps)

lemma tr_reads_const:
  "(\<And>f. P f \<Longrightarrow> g f = Inr v) \<Longrightarrow> xtriple e P C X (k v) Q \<Longrightarrow> xtriple e P C X (bnd (reads g) k) Q"
  by (simp add: triple_def run_simps)

lemma tr_asks_bnd: "xtriple e P C X (k (a e)) Q \<Longrightarrow> xtriple e P C X (bnd (asks a) k) Q"
  by (simp add: triple_def run_simps)

lemma tr_lift_bnd:
  "(\<And>x. r = Inr x \<Longrightarrow> xtriple e P C X (k x) Q) \<Longrightarrow> (\<And>f x. P f \<Longrightarrow> r = Inl x \<Longrightarrow> X x f) \<Longrightarrow> xtriple e P C X (bnd (lift r) k) Q"
  by (cases r) (simp_all add: triple_def run_simps)

lemma tr_if_do:
  "(c \<Longrightarrow> xtriple e P C X m (\<lambda>_. Q ())) \<Longrightarrow> (\<And>f. \<not> c \<Longrightarrow> P f \<Longrightarrow> Q () f) \<Longrightarrow> xtriple e P C X (if_do c m) Q"
  by (cases c) (auto simp: if_do_def intro: tr_ret tr_conseq)

text \<open>Loops, with an invariant of the items done so far.\<close>

lemma tr_for_acc_inv:
  assumes "\<And>ys x zs b. xs = ys @ x # zs \<Longrightarrow> xtriple e (J ys b) C X (m x b) (J (ys @ [x]))"
  shows "xtriple e (J [] b) C X (for_acc m xs b) (J xs)"
proof -
  have "xtriple e (J ys b) C X (for_acc m zs b) (J (ys @ zs))" if "xs = ys @ zs" for ys zs b
    using that
  proof (induction zs arbitrary: ys b)
    case (Cons z zs)
    have "xtriple e (J ys b) C X (m z b) (J (ys @ [z]))" using assms Cons.prems by blast
    moreover have "xtriple e (J (ys @ [z]) b') C X (for_acc m zs b') (J ((ys @ [z]) @ zs))" for b'
      using Cons.IH [of "ys @ [z]"] Cons.prems by simp
    ultimately show ?case by (auto intro: tr_bnd)
  qed (auto intro: tr_ret)
  from this [of "[]" xs] show ?thesis by simp
qed

lemma tr_for_each_inv:
  assumes "\<And>ys x zs. xs = ys @ x # zs \<Longrightarrow> xtriple e (J ys) C X (m x) (\<lambda>_. J (ys @ [x]))"
  shows "xtriple e (J []) C X (for_each m xs) (\<lambda>_. J xs)"
proof -
  have "xtriple e (J ys) C X (for_each m zs) (\<lambda>_. J (ys @ zs))" if "xs = ys @ zs" for ys zs
    using that
  proof (induction zs arbitrary: ys)
    case (Cons z zs)
    have "xtriple e (J ys) C X (m z) (\<lambda>_. J (ys @ [z]))" using assms Cons.prems by blast
    moreover have "xtriple e (J (ys @ [z])) C X (for_each m zs) (\<lambda>_. J ((ys @ [z]) @ zs))"
      using Cons.IH [of "ys @ [z]"] Cons.prems by simp
    ultimately show ?case by (auto intro: tr_bnd)
  qed (auto intro: tr_ret)
  from this [of "[]" xs] show ?thesis by simp
qed

lemma tr_for_each:
  assumes "\<And>x. x \<in> set xs \<Longrightarrow> keeps e I (m x)"
  shows "keeps e I (for_each m xs)"
  using assms by (induction xs) (auto intro!: tr_ret intro: tr_bnd)

lemma tr_for_acc:
  assumes "\<And>x b. x \<in> set xs \<Longrightarrow> keeps e I (m x b)"
  shows "keeps e I (for_acc m xs b)"
  using assms
proof (induction xs arbitrary: b)
  case (Cons x xs)
  show ?case by (simp, rule tr_bnd [where R = "\<lambda>_. I"]) (use Cons in auto)
qed (auto intro: tr_ret)

lemma keeps_if_do [tr_rules]: "(c \<Longrightarrow> keeps e I m) \<Longrightarrow> keeps e I (if_do c m)"
  by (auto simp: if_do_def intro: tr_ret)

lemma keeps_steps: "(\<And>m. m \<in> set ms \<Longrightarrow> keeps e I m) \<Longrightarrow> keeps e I (steps ms)"
  by (induction ms) (auto intro!: tr_ret intro: tr_bnd)

lemma keeps_if [tr_rules]: "(c \<Longrightarrow> keeps e I m) \<Longrightarrow> (\<not> c \<Longrightarrow> keeps e I n) \<Longrightarrow> keeps e I (if c then m else n)"
  by simp

lemma keeps_bnd [tr_rules]: "keeps e I m \<Longrightarrow> (\<And>x. keeps e I (k x)) \<Longrightarrow> keeps e I (bnd m k)"
  by (rule tr_bnd [where R = "\<lambda>_. I"])

lemma keeps_reading [tr_rules]:
  "keeps e I (gets g)" "keeps e I (reads h)" "keeps e I (asks a)" "keeps e I (lift r)"
  "keeps e I (print s)" "keeps e I (eprint s)" "keeps e I monotonic"
  by (auto intro: tr_gets tr_reads tr_asks tr_lift tr_print tr_eprint tr_monotonic)

lemma keeps_cases [tr_rules]:
  "(v = None \<Longrightarrow> keeps e I n) \<Longrightarrow> (\<And>x. v = Some x \<Longrightarrow> keeps e I (m x)) \<Longrightarrow>
     keeps e I (case v of None \<Rightarrow> n | Some x \<Rightarrow> m x)"
  "(xs = [] \<Longrightarrow> keeps e I n) \<Longrightarrow> (\<And>y ys. xs = y # ys \<Longrightarrow> keeps e I (k y ys)) \<Longrightarrow>
     keeps e I (case xs of [] \<Rightarrow> n | y # ys \<Rightarrow> k y ys)"
  "(\<And>a b. p = (a, b) \<Longrightarrow> keeps e I (h a b)) \<Longrightarrow> keeps e I (case p of (a, b) \<Rightarrow> h a b)"
  by (auto split: option.split list.split prod.split)

lemmas keeps_control [tr_rules] =
  tr_try [where P = I and C = I and Q = "\<lambda>_. I" and X = "\<lambda>_. I" and Y = "\<lambda>_. I" for I] tr_finally tr_for_each tr_for_acc

text \<open>From triples to the states a crash can leave.\<close>

lemma triple_crash:
  assumes "triple e P C m Q" "P f" "C f" "g \<in> crash_states m e f"
  shows "C g"
proof -
  obtain r w' where mw: "m e (boot f) = (r, w')" by fastforce
  have "P (fsys (boot f))" using assms(2) by (simp add: boot_def)
  from tripleD [OF assms(1) this mw] obtain new
    where "hist w' = new @ hist (boot f)" "\<forall>g \<in> set new. C g" by metis
  then show ?thesis using assms(3,4) mw by (auto simp: crash_states_def boot_def)
qed

lemma crash_states_last:
  assumes "xtriple e P C X m Q" "P f"
  shows "disk_after m e f \<in> crash_states m e f"
proof -
  obtain r w' where mw: "m e (boot f) = (r, w')" by fastforce
  have "P (fsys (boot f))" using assms(2) by (simp add: boot_def)
  from tripleD [OF assms(1) this mw] obtain new
    where "hist w' = new @ hist (boot f)" "fsys w' = hd (new @ [fsys (boot f)])" by metis
  then show ?thesis using mw by (cases new) (auto simp: crash_states_def disk_after_def boot_def)
qed

lemma xtriple_outcome:
  assumes "xtriple e P C X m Q" "P f"
  shows "(case outcome m e f of Inl x \<Rightarrow> X x (disk_after m e f) | Inr x \<Rightarrow> Q x (disk_after m e f))"
proof -
  obtain r w' where mw: "m e (boot f) = (r, w')" by fastforce
  have "P (fsys (boot f))" using assms(2) by (simp add: boot_def)
  from tripleD [OF assms(1) this mw] have "\<And>x. r = Inl x \<Longrightarrow> X x (fsys w')" "\<And>x. r = Inr x \<Longrightarrow> Q x (fsys w')"
    by metis+
  then show ?thesis using mw by (cases r) (auto simp: outcome_def disk_after_def)
qed

lemma triple_outcome: "xtriple e P C X m Q \<Longrightarrow> P f \<Longrightarrow> outcome m e f = Inr x \<Longrightarrow> Q x (disk_after m e f)"
  using xtriple_outcome [of e P C X m Q f] by simp

lemma triple_raised: "xtriple e P C X m Q \<Longrightarrow> P f \<Longrightarrow> outcome m e f = Inl x \<Longrightarrow> X x (disk_after m e f)"
  using xtriple_outcome [of e P C X m Q f] by simp

lemma tot_outcome: "tot e P C m Q \<Longrightarrow> P f \<Longrightarrow> \<exists>x. outcome m e f = Inr x \<and> Q x (disk_after m e f)"
  using xtriple_outcome [of e P C "\<lambda>_ _. False" m Q f] by (auto split: sum.splits)

lemma tot_crash:
  assumes "tot e P C m Q" "P f" "C f" "g \<in> crash_states m e f"
  shows "C g"
  by (rule triple_crash [where P = P and Q = "\<lambda>_ _. True" and m = m, OF tr_total [OF assms(1)]]) (use assms in auto)

lemma keeps_after: "keeps e I m \<Longrightarrow> I f \<Longrightarrow> I (disk_after m e f)"
  by (cases "outcome m e f") (auto dest: triple_outcome triple_raised)

end
