(* ===== verification/DiskInv.thy ===== *)
theory DiskInv
  imports Proc
begin

text \<open>
  Invariants of the disk. A predicate that every single system call preserves is
  preserved, at every crash point, by every program built from the calls; the locale
  \<open>disk_invariant\<close> is that interface. Its instances here are the well-formedness of the
  file system and the immutability of files sealed with fs-verity.
\<close>

lemma keeps_read_bytes [tr_rules]: "keeps e I (read_bytes p)"
  unfolding read_bytes_def by (rule tr_rules)

locale disk_invariant =
  fixes I :: "fs \<Rightarrow> bool"
  assumes inv_mkdir: "I f \<Longrightarrow> mkdir1 p f = Inr g \<Longrightarrow> I g"
    and inv_unlink: "I f \<Longrightarrow> unlink1 p f = Inr g \<Longrightarrow> I g"
    and inv_symlink: "I f \<Longrightarrow> symlink1 t p f = Inr g \<Longrightarrow> I g"
    and inv_link: "I f \<Longrightarrow> link1 s p f = Inr g \<Longrightarrow> I g"
    and inv_replace: "I f \<Longrightarrow> replace1 s p f = Inr g \<Longrightarrow> I g"
    and inv_rmdir: "I f \<Longrightarrow> rmdir1 p f = Inr g \<Longrightarrow> I g"
    and inv_rmtree: "I f \<Longrightarrow> g \<in> set (snd (rmtree1 p f)) \<Longrightarrow> I g"
    and inv_write: "I f \<Longrightarrow> g \<in> set (snd (write1 p b f)) \<Longrightarrow> I g"
begin

lemma inv_copy: "I f \<Longrightarrow> g \<in> set (snd (copy1 s d f)) \<Longrightarrow> I g"
  by (auto simp: copy1_def Let_def split: sum.splits if_splits intro: inv_write)

lemma keeps_syscall: "(\<And>f g. I f \<Longrightarrow> g \<in> set (snd (op f)) \<Longrightarrow> I g) \<Longrightarrow> keeps e I (syscall op)"
  by (rule tr_syscall) (auto simp: last_in_set)

lemma keeps_calls [tr_rules]:
  "keeps e I (os_mkdir p)" "keeps e I (os_unlink p)" "keeps e I (os_symlink t p)"
  "keeps e I (os_link s p)" "keeps e I (os_replace s p)" "keeps e I (os_rmdir p)"
  "keeps e I (rmtree p)" "keeps e I (write_text p b)" "keeps e I (copy2 s p)"
  unfolding os_mkdir_def os_unlink_def os_symlink_def os_link_def os_replace_def os_rmdir_def
    rmtree_def write_text_def copy2_def
  by (auto intro: tr_atomic inv_mkdir inv_unlink inv_symlink inv_link inv_replace inv_rmdir
      keeps_syscall inv_rmtree inv_write inv_copy tr_rules)

lemma keeps_rmtree_quiet [tr_rules]: "keeps e I (rmtree_quiet p)"
  unfolding rmtree_quiet_def by (intro tr_rules) auto

lemma keeps_mkdirs_rev: "keeps e I (mkdirs_rev r)"
  by (induction r) (auto simp: Let_def intro!: tr_rules)

lemma keeps_mkdirs [tr_rules]: "keeps e I (mkdirs p)"
  unfolding mkdirs_def by (rule keeps_mkdirs_rev)

lemma keeps_mkdtemp [tr_rules]: "keeps e I (mkdtemp p)"
  unfolding mkdtemp_def by (intro tr_rules) auto

end

text \<open>External commands respect an invariant of the disk.\<close>

definition tools_keep :: "(fs \<Rightarrow> bool) \<Rightarrow> env \<Rightarrow> bool" where
  "tools_keep I e \<longleftrightarrow> (\<forall>cmd f g. I f \<longrightarrow> g \<in> set (t_fs (tool e cmd f)) \<longrightarrow> I g)"

section \<open>Well-formedness\<close>

interpretation wf: disk_invariant wf_fs
  by unfold_locales (fact wf_mkdir1 wf_unlink1 wf_symlink1 wf_link1 wf_replace1 wf_rmdir1
      wf_rmtree1 wf_write1)+

section \<open>Sealed files do not change\<close>

definition sealed_as :: "nat \<Rightarrow> string \<Rightarrow> fs \<Rightarrow> bool" where
  "sealed_as i b f \<longleftrightarrow> wf_fs f \<and> i < next_ino f \<and> inodes f i = Some \<lparr>bytes = b, verity = True\<rparr>"

lemma names_keep_inodes:
  "mkdir1 p f = Inr g \<Longrightarrow> inodes g = inodes f \<and> next_ino g = next_ino f"
  "unlink1 p f = Inr g \<Longrightarrow> inodes g = inodes f \<and> next_ino g = next_ino f"
  "symlink1 t p f = Inr g \<Longrightarrow> inodes g = inodes f \<and> next_ino g = next_ino f"
  "link1 s p f = Inr g \<Longrightarrow> inodes g = inodes f \<and> next_ino g = next_ino f"
  "replace1 s p f = Inr g \<Longrightarrow> inodes g = inodes f \<and> next_ino g = next_ino f"
  "rmdir1 p f = Inr g \<Longrightarrow> inodes g = inodes f \<and> next_ino g = next_ino f"
  by (auto simp: mkdir1_def unlink1_def symlink1_def link1_def replace1_def rmdir1_def fs_simps
      split: if_splits option.splits node.splits)

lemma del_all_inodes: "g \<in> set (del_all ps f) \<Longrightarrow> inodes g = inodes f \<and> next_ino g = next_ino f"
  by (induction ps arbitrary: f) (auto simp: Let_def fs_simps)

lemma rmtree_keeps_inodes: "g \<in> set (snd (rmtree1 p f)) \<Longrightarrow> inodes g = inodes f \<and> next_ino g = next_ino f"
  by (auto simp: rmtree1_def dest: del_all_inodes split: option.splits node.splits if_splits)

lemma sealed_step:
  "sealed_as i b f \<Longrightarrow> wf_fs g \<Longrightarrow> inodes g = inodes f \<and> next_ino g = next_ino f \<Longrightarrow> sealed_as i b g"
  by (simp add: sealed_as_def)

lemma grow_frame: "g \<in> set (grow j b f) \<Longrightarrow> i \<noteq> j \<Longrightarrow> inodes g i = inodes f i \<and> next_ino g = next_ino f"
  by (auto simp: grow_def fs_simps simp del: upt_Suc)

lemma create_frame:
  assumes "g \<in> set (create p b f)" "i < next_ino f"
  shows "inodes g i = inodes f i \<and> next_ino f \<le> next_ino g"
  using grow_frame [OF assms(1) [unfolded create_def], of i] assms(2) by (simp add: fs_simps)

lemma write_sealed:
  assumes s: "sealed_as i b f" and g: "g \<in> set (snd (write1 p c f))"
  shows "sealed_as i b g"
proof -
  have wf: "wf_fs f" and i: "i < next_ino f" "inodes f i = Some \<lparr>bytes = b, verity = True\<rparr>"
    using s by (auto simp: sealed_as_def)
  consider q where "g \<in> set (create q c f)"
    | j nd where "inodes f j = Some nd" "\<not> verity nd" "g \<in> set (grow j c f)"
    using g by (auto simp: write1_def split: option.splits node.splits if_splits)
  then have "inodes g i = inodes f i \<and> next_ino f \<le> next_ino g"
  proof cases
    case 1
    then show ?thesis using i(1) by (rule create_frame)
  next
    case 2
    then have "i \<noteq> j" using i(2) by auto
    with 2(3) show ?thesis by (simp add: grow_frame)
  qed
  then show ?thesis using wf_write1 [OF wf g] i by (simp add: sealed_as_def)
qed

lemma sealed_wf: "sealed_as i b f \<Longrightarrow> wf_fs f"
  by (simp add: sealed_as_def)

interpretation immutable: disk_invariant "sealed_as i b" for i b
proof unfold_locales
  fix f g p s t c
  assume s: "sealed_as i b f"
  note wf = sealed_wf [OF s] and step = sealed_step [OF s]
  show "mkdir1 p f = Inr g \<Longrightarrow> sealed_as i b g"
    by (rule step [OF wf_mkdir1 [OF wf] names_keep_inodes(1)])
  show "unlink1 p f = Inr g \<Longrightarrow> sealed_as i b g"
    by (rule step [OF wf_unlink1 [OF wf] names_keep_inodes(2)])
  show "symlink1 t p f = Inr g \<Longrightarrow> sealed_as i b g"
    by (rule step [OF wf_symlink1 [OF wf] names_keep_inodes(3)])
  show "link1 s p f = Inr g \<Longrightarrow> sealed_as i b g"
    by (rule step [OF wf_link1 [OF wf] names_keep_inodes(4)])
  show "replace1 s p f = Inr g \<Longrightarrow> sealed_as i b g"
    by (rule step [OF wf_replace1 [OF wf] names_keep_inodes(5)])
  show "rmdir1 p f = Inr g \<Longrightarrow> sealed_as i b g"
    by (rule step [OF wf_rmdir1 [OF wf] names_keep_inodes(6)])
  show "g \<in> set (snd (rmtree1 p f)) \<Longrightarrow> sealed_as i b g"
    by (rule step [OF wf_rmtree1 [OF wf] rmtree_keeps_inodes])
  show "g \<in> set (snd (write1 p c f)) \<Longrightarrow> sealed_as i b g"
    by (rule write_sealed [OF s])
qed

end
