(* ===== verification/Runtime.thy ===== *)
theory Runtime
  imports DiskInv
begin

text \<open>
  \<open>zerith/runtime.py\<close>: messages, fatal errors and the execution of external commands, and
  \<open>zerith/config.py\<close>: the constants and the tunables read from the process environment.
\<close>

section \<open>Messages and fatal errors\<close>

definition PREFIX :: string where
  "PREFIX = ''zerithctl''"

definition log :: "string \<Rightarrow> unit proc" where
  "log msg = print (PREFIX @ '': '' @ msg)"

definition vlog :: "string \<Rightarrow> unit proc" where
  "vlog msg = bnd (asks verbose) (\<lambda>v. if_do v (log msg))"

definition die :: "string \<Rightarrow> 'a proc" where
  "die msg = bnd (eprint (PREFIX @ '': error: '' @ msg)) (\<lambda>_. raise SystemExit)"

section \<open>External commands\<close>

text \<open>\<open>subprocess.run(cmd)\<close>: the program is looked up on the path; its effect on the disk
  and its output are the environment's.\<close>

definition exec :: "string list \<Rightarrow> tool_result proc" where
  "exec cmd e w =
     (if has_tool e (hd cmd)
      then let r = tool e cmd (fsys w)
           in (Inr r, w\<lparr>fsys := last (fsys w # t_fs r), hist := rev (t_fs r) @ hist w\<rparr>)
      else (Inl (OSErr ENOENT [hd cmd]), w))"

definition run :: "string list \<Rightarrow> bool \<Rightarrow> bool \<Rightarrow> string proc" where
  "run cmd capture check =
     (let printable = join '' '' cmd in
      bnd (asks dry_run) (\<lambda>dry.
        if dry \<and> \<not> capture then
          bnd (log (''[dry-run] '' @ printable)) (\<lambda>_. ret [])
        else
          bnd (vlog (''exec: '' @ printable)) (\<lambda>_.
          bnd (exec cmd) (\<lambda>res.
          bnd (if_do (t_rc res \<noteq> 0 \<and> check) (steps
                [if_do (capture \<and> t_err res \<noteq> []) (eprint (t_err res)),
                 die (''command failed ('' @ show_int (t_rc res) @ ''): '' @ printable)])) (\<lambda>_.
          ret (if capture then strip (univ_nl (t_out res)) else []))))))"

text \<open>\<open>run(cmd)\<close> and \<open>run(cmd, capture=True)\<close>, with \<open>check\<close> left at its default.\<close>

abbreviation run_do :: "string list \<Rightarrow> unit proc" where
  "run_do cmd \<equiv> bnd (run cmd False True) (\<lambda>_. ret ())"

abbreviation run_out :: "string list \<Rightarrow> string proc" where
  "run_out cmd \<equiv> run cmd True True"

text \<open>\<open>p.read_text()\<close>\<close>

definition read_text :: "path \<Rightarrow> string proc" where
  "read_text p = bnd (read_bytes p) (\<lambda>b. if utf8_ok b then ret (univ_nl b) else raise ValueErr)"

definition now :: "string proc" where
  "now = asks clock"

definition require_root :: "unit proc" where
  "require_root = bnd (asks dry_run) (\<lambda>dry. bnd (asks euid) (\<lambda>u.
     if_do (\<not> dry \<and> u \<noteq> 0) (die ''must run as root'')))"

definition require_tool :: "string \<Rightarrow> unit proc" where
  "require_tool nm = bnd (asks dry_run) (\<lambda>dry. bnd (asks (\<lambda>e. has_tool e nm)) (\<lambda>there.
     if_do (\<not> dry \<and> \<not> there) (die (''required tool '' @ CHR 0x27 # nm @ CHR 0x27 # '' not found on PATH''))))"

section \<open>Constants\<close>

definition SOURCE_CONF_NAME :: string where "SOURCE_CONF_NAME = ''source.conf''"
definition LOCK_NAME :: string where "LOCK_NAME = ''.zerithctl.lock''"
definition CONFIG_SCHEMA :: int where "CONFIG_SCHEMA = 1"
definition META_SCHEMA :: int where "META_SCHEMA = 2"
definition ROLES :: "string list" where "ROLES = [''current'', ''fallback'', ''staging'']"
definition UKI_NAME :: string where "UKI_NAME = ''zerith.efi''"
definition CFS_NAME :: string where "CFS_NAME = ''root.cfs''"
definition META_NAME :: string where "META_NAME = ''deployment.json''"
definition BOOTLOADER_NAME :: string where "BOOTLOADER_NAME = ''BOOTX64.EFI''"
definition EFI_LABEL :: string where "EFI_LABEL = ''Zerith Boot Manager''"

lemmas const_names =
  SOURCE_CONF_NAME_def LOCK_NAME_def ROLES_def UKI_NAME_def CFS_NAME_def META_NAME_def BOOTLOADER_NAME_def

section \<open>Tunables\<close>

definition env_int :: "env \<Rightarrow> string \<Rightarrow> int \<Rightarrow> int \<Rightarrow> int" where
  "env_int e nm dflt minimum =
     (case py_int (case getenv e nm of Some s \<Rightarrow> s | None \<Rightarrow> show_int dflt) of
        Some v \<Rightarrow> max minimum v
      | None \<Rightarrow> dflt)"

definition FETCH_JOBS :: "env \<Rightarrow> int" where
  "FETCH_JOBS e = env_int e ''ZERITH_FETCH_JOBS'' 8 1"

definition COALESCE_GAP :: "env \<Rightarrow> int" where
  "COALESCE_GAP e = env_int e ''ZERITH_COALESCE_GAP'' (2 ^ 20) 0"

lemma env_int_unset: "getenv e nm = None \<Longrightarrow> 0 \<le> d \<Longrightarrow> env_int e nm d m = max m d"
  by (simp add: env_int_def show_int_def py_int_show_nat)

lemma env_int_bounds: "m \<le> d \<Longrightarrow> m \<le> env_int e nm d m"
  by (auto simp: env_int_def split: option.split)

section \<open>Reasoning about the above\<close>

lemma tr_log: "(\<And>f. P f \<Longrightarrow> Q () f) \<Longrightarrow> xtriple e P C X (log m) Q"
  by (simp add: log_def tr_print)

lemma tr_vlog: "(\<And>f. P f \<Longrightarrow> Q () f) \<Longrightarrow> xtriple e P C X (vlog m) Q"
  by (auto simp: triple_def vlog_def log_def run_simps)

lemma tr_die: "(\<And>f. P f \<Longrightarrow> X SystemExit f) \<Longrightarrow> xtriple e P C X (die m) Q"
  by (auto simp: triple_def die_def run_simps)

lemma keeps_messages [tr_rules]: "keeps e I (log m)" "keeps e I (vlog m)" "keeps e I (die m)"
  by (auto intro: tr_log tr_vlog tr_die)

lemma keeps_require [tr_rules]: "keeps e I (require_root)" "keeps e I (require_tool nm)" "keeps e I now"
  unfolding require_root_def require_tool_def now_def by (intro tr_rules)+

lemma log_run [run_simps]:
  "log m e w = (Inr (), w\<lparr>stdout := stdout w @ [PREFIX @ '': '' @ m]\<rparr>)"
  by (simp add: log_def run_simps)

lemma vlog_run [run_simps]:
  "vlog m e w = (Inr (), if verbose e then w\<lparr>stdout := stdout w @ [PREFIX @ '': '' @ m]\<rparr> else w)"
  by (simp add: vlog_def run_simps)

lemma die_run [run_simps]:
  "die m e w = (Inl SystemExit, w\<lparr>stderr := stderr w @ [PREFIX @ '': error: '' @ m]\<rparr>)"
  by (simp add: die_def run_simps)

lemma tr_exec:
  assumes "\<And>f g. P f \<Longrightarrow> g \<in> set (t_fs (tool e cmd f)) \<Longrightarrow> C g"
    and "\<And>f. P f \<Longrightarrow> Q (tool e cmd f) (last (f # t_fs (tool e cmd f)))"
    and "\<And>f. P f \<Longrightarrow> \<not> has_tool e (hd cmd) \<Longrightarrow> X (OSErr ENOENT [hd cmd]) f"
  shows "xtriple e P C X (exec cmd) Q"
proof (rule tripleI)
  fix w :: world assume P: "P (fsys w)"
  show "\<exists>new. hist (snd (exec cmd e w)) = new @ hist w \<and> fsys (snd (exec cmd e w)) = hd (new @ [fsys w]) \<and> (\<forall>g\<in>set new. C g)"
    using assms(1) [OF P] by (auto simp: exec_def Let_def hd_append hd_rev)
  show "fst (exec cmd e w) = Inl x \<Longrightarrow> X x (fsys (snd (exec cmd e w)))"
    "fst (exec cmd e w) = Inr y \<Longrightarrow> Q y (fsys (snd (exec cmd e w)))" for x y
    using assms(2,3) [OF P] by (auto simp: exec_def Let_def simp del: last.simps split: if_splits)
qed

text \<open>The external commands are the only way these procedures reach the disk.\<close>

lemma keeps_exec: "tools_keep I e \<Longrightarrow> keeps e I (exec cmd)"
  by (rule tr_exec) (use last_in_set in \<open>auto simp: tools_keep_def\<close>)

lemma keeps_read_text [tr_rules]: "keeps e I (read_text p)"
  unfolding read_text_def by (intro tr_rules) auto

lemma keeps_run [tr_rules]: "tools_keep I e \<Longrightarrow> keeps e I (run cmd c k)"
  unfolding run_def Let_def
  by (intro tr_rules keeps_steps) (auto intro: tr_rules keeps_exec)

text \<open>Under \<open>--dry-run\<close> a mutating command is only logged.\<close>

lemma run_dry: "dry_run e \<Longrightarrow> fst (run cmd False ck e w) = Inr [] \<and> fsys (snd (run cmd False ck e w)) = fsys w
    \<and> hist (snd (run cmd False ck e w)) = hist w"
  by (simp add: run_def Let_def run_simps)

lemma run_capture:
  assumes "has_tool e (hd cmd)" "t_rc (tool e cmd (fsys w)) = 0" "t_fs (tool e cmd (fsys w)) = []"
  shows "run cmd True ck e w = (Inr (strip (univ_nl (t_out (tool e cmd (fsys w))))), snd (vlog (''exec: '' @ join '' '' cmd) e w))"
  using assms by (simp add: run_def Let_def exec_def run_simps)

end
