(* ===== verification/Verity.thy ===== *)
theory Verity
  imports Runtime
begin

text \<open>
  \<open>zerith/verity.py\<close>: measuring and sealing files with the \<open>fsverity\<close> tool. The tool
  itself is outside the repository: \<open>fsverity_tool\<close> states what its documentation promises
  about the two commands the code runs, for a digest function \<open>vd\<close>.
\<close>

definition measure_file :: "path \<Rightarrow> string proc" where
  "measure_file p = bnd (run_out [''fsverity'', ''digest'', path_str p]) (\<lambda>out.
     case split_ws out of [] \<Rightarrow> raise IndexErr | w # _ \<Rightarrow> ret (last (split1 (CHR '':'') w)))"

definition enable_verity :: "path \<Rightarrow> unit proc" where
  "enable_verity p = bnd (asks dry_run) (\<lambda>dry.
     if dry then log (''[dry-run] fsverity enable '' @ path_str p)
     else run_do [''fsverity'', ''enable'', path_str p])"

lemma keeps_verity [tr_rules]:
  "tools_keep I e \<Longrightarrow> keeps e I (measure_file p)"
  "tools_keep I e \<Longrightarrow> keeps e I (enable_verity p)"
  unfolding measure_file_def enable_verity_def
  by (auto intro!: tr_rules split: list.split)

section \<open>The tool's contract\<close>

definition is_hex :: "char \<Rightarrow> bool" where
  "is_hex c \<longleftrightarrow> (48 \<le> code c \<and> code c \<le> 57) \<or> (97 \<le> code c \<and> code c \<le> 102)"

definition is_digest :: "string \<Rightarrow> bool" where
  "is_digest d \<longleftrightarrow> length d = 64 \<and> list_all is_hex d"

text \<open>Sealing an inode.\<close>

definition seal :: "nat \<Rightarrow> fs \<Rightarrow> fs" where
  "seal i f = f\<lparr>inodes := (inodes f)(i := map_option (\<lambda>nd. nd\<lparr>verity := True\<rparr>) (inodes f i))\<rparr>"

definition fsverity_tool :: "(string \<Rightarrow> string) \<Rightarrow> env \<Rightarrow> bool" where
  "fsverity_tool vd e \<longleftrightarrow> has_tool e ''fsverity'' \<and> (\<forall>b. is_digest (vd b)) \<and>
     (\<forall>p f b. plain_path p \<longrightarrow> read1 p f = Inr b \<longrightarrow>
        tool e [''fsverity'', ''digest'', path_str p] f
          = \<lparr>t_rc = 0, t_out = ''sha256:'' @ vd b @ ''  '' @ path_str p @ [NL], t_err = [], t_fs = []\<rparr>) \<and>
     (\<forall>p f i nd. plain_path p \<longrightarrow> lookup f p = Some (File i) \<longrightarrow> inodes f i = Some nd \<longrightarrow> \<not> verity nd \<longrightarrow>
        tool e [''fsverity'', ''enable'', path_str p] f
          = \<lparr>t_rc = 0, t_out = [], t_err = [], t_fs = [seal i f]\<rparr>)"

lemma hex_not_special: "is_hex c \<Longrightarrow> \<not> is_space c" "is_hex c \<Longrightarrow> c \<noteq> CHR '':''" "is_hex c \<Longrightarrow> c \<noteq> CHR ''/''"
  by (auto simp: is_hex_def is_space_def code_def)

lemma seal_obs [fs_simps]:
  "lookup (seal i f) p = lookup f p" "next_ino (seal i f) = next_ino f" "cat (seal i f) p = cat f p"
  by (auto simp: seal_def lookup_def cat_def option.map_comp o_def split: option.splits node.splits if_splits)

text \<open>Keeping the bare hex of the tool's first word gives the digest of the contents.\<close>

lemma measure_word:
  assumes "is_digest d"
  shows "\<exists>ws. split_ws (strip (univ_nl (''sha256:'' @ d @ ''  '' @ r))) = (''sha256:'' @ d) # ws"
    and "last (split1 (CHR '':'') (''sha256:'' @ d)) = d"
proof -
  have d: "\<forall>c \<in> set d. is_hex c" using assms by (simp add: is_digest_def list_all_iff)
  then have "\<forall>c \<in> set (''sha256:'' @ d). \<not> is_space c"
    by (auto simp: hex_not_special) (auto simp: is_space_def code_def)
  moreover from d have "CR \<notin> set (''sha256:'' @ d @ ''  '')" by (auto simp: is_hex_def code_def)
  then have "univ_nl (''sha256:'' @ d @ ''  '' @ r) = (''sha256:'' @ d) @ CHR '' '' # CHR '' '' # univ_nl r"
    using univ_nl_append [of "''sha256:'' @ d @ ''  ''" r] by simp
  ultimately show "\<exists>ws. split_ws (strip (univ_nl (''sha256:'' @ d @ ''  '' @ r))) = (''sha256:'' @ d) # ws"
    using first_word [of "''sha256:'' @ d" "CHR '' ''" "CHR '' '' # univ_nl r"]
    by (simp only:) (simp add: is_space_def code_def)
  show "last (split1 (CHR '':'') (''sha256:'' @ d)) = d"
    by (simp add: split1_def)
qed

lemma measure_file_run:
  assumes "fsverity_tool vd e" "plain_path p" "read1 p (fsys w) = Inr b"
  shows "\<exists>w'. measure_file p e w = (Inr (vd b), w') \<and> fsys w' = fsys w \<and> hist w' = hist w"
proof -
  let ?cmd = "[''fsverity'', ''digest'', path_str p]"
  have t: "tool e ?cmd (fsys w)
      = \<lparr>t_rc = 0, t_out = ''sha256:'' @ vd b @ ''  '' @ path_str p @ [NL], t_err = [], t_fs = []\<rparr>"
    and h: "has_tool e (hd ?cmd)" and d: "is_digest (vd b)"
    using assms by (auto simp: fsverity_tool_def)
  obtain ws where ws: "split_ws (strip (univ_nl (t_out (tool e ?cmd (fsys w))))) = (''sha256:'' @ vd b) # ws"
    using measure_word(1) [OF d, of "path_str p @ [NL]"] t by auto
  have r: "run_out ?cmd e w = (Inr (strip (univ_nl (t_out (tool e ?cmd (fsys w))))),
      snd (vlog (''exec: '' @ join '' '' ?cmd) e w))"
    by (rule run_capture) (use t h in auto)
  show ?thesis unfolding measure_file_def bnd_def r
    using measure_word(2) [OF d] by (simp add: ws run_simps)
qed

lemma enable_verity_run:
  assumes "fsverity_tool vd e" "plain_path p" "\<not> dry_run e"
    and "lookup (fsys w) p = Some (File i)" "inodes (fsys w) i = Some nd" "\<not> verity nd"
  shows "\<exists>w'. enable_verity p e w = (Inr (), w') \<and> fsys w' = seal i (fsys w)
    \<and> hist w' = seal i (fsys w) # hist w"
proof -
  let ?cmd = "[''fsverity'', ''enable'', path_str p]"
  have t: "tool e ?cmd (fsys w) = \<lparr>t_rc = 0, t_out = [], t_err = [], t_fs = [seal i (fsys w)]\<rparr>"
    and h: "has_tool e (hd ?cmd)"
    using assms by (auto simp: fsverity_tool_def)
  then show ?thesis using assms(3)
    by (simp add: enable_verity_def run_def Let_def run_simps exec_def)
qed

end
