(* ===== verification/Json.thy ===== *)
theory Json
  imports PyStr
begin

text \<open>
  The part of Python's \<open>json\<close> module the sources use: \<open>json.dumps(x, indent=2)\<close> and
  \<open>json.loads(s)\<close>, with the escapes of the ASCII-only default encoding, the non-standard
  \<open>NaN\<close> and \<open>Infinity\<close>, and the last of several equal keys winning. Numbers with a
  fraction or an exponent are kept as they are written.
\<close>

datatype json =
    JNull
  | JBool bool
  | JInt int
  | JFloat string
  | JStr string
  | JArr "json list"
  | JObj "(string \<times> json) list"

section \<open>Writing\<close>

definition hex_digit :: "nat \<Rightarrow> char" where
  "hex_digit n = ''0123456789abcdef'' ! n"

definition u4 :: "nat \<Rightarrow> string" where
  "u4 n = [BACKSLASH, CHR ''u'', hex_digit (n div 4096 mod 16), hex_digit (n div 256 mod 16),
           hex_digit (n div 16 mod 16), hex_digit (n mod 16)]"

text \<open>A code point as one escape or a surrogate pair.\<close>

definition ucp :: "nat \<Rightarrow> string" where
  "ucp n = (if n < 65536 then u4 n
            else u4 (55296 + (n - 65536) div 1024) @ u4 (56320 + (n - 65536) mod 1024))"

definition esc_ascii :: "char \<Rightarrow> string" where
  "esc_ascii c =
     (if c = QUOTE then [BACKSLASH, QUOTE]
      else if c = BACKSLASH then [BACKSLASH, BACKSLASH]
      else if c = NL then [BACKSLASH, CHR ''n'']
      else if c = CR then [BACKSLASH, CHR ''r'']
      else if c = CHR 0x09 then [BACKSLASH, CHR ''t'']
      else if c = CHR 0x0C then [BACKSLASH, CHR ''f'']
      else if c = CHR 0x08 then [BACKSLASH, CHR ''b'']
      else if 32 \<le> code c \<and> code c \<le> 126 then [c]
      else u4 (code c))"

fun esc :: "string \<Rightarrow> string" where
  "esc [] = []"
| "esc (c # cs) =
     (if code c < 128 then esc_ascii c @ esc cs
      else if code c < 224 then
        (case cs of c1 # r \<Rightarrow> ucp (code c mod 32 * 64 + code c1 mod 64) @ esc r | _ \<Rightarrow> [])
      else if code c < 240 then
        (case cs of c1 # c2 # r \<Rightarrow>
           ucp (code c mod 16 * 4096 + code c1 mod 64 * 64 + code c2 mod 64) @ esc r | _ \<Rightarrow> [])
      else
        (case cs of c1 # c2 # c3 # r \<Rightarrow>
           ucp (code c mod 8 * 262144 + code c1 mod 64 * 4096 + code c2 mod 64 * 64 + code c3 mod 64)
             @ esc r | _ \<Rightarrow> []))"

definition dump_str :: "string \<Rightarrow> string" where
  "dump_str s = QUOTE # esc s @ [QUOTE]"

definition nl :: "nat \<Rightarrow> string" where
  "nl l = NL # replicate (2 * l) (CHR '' '')"

fun dump :: "nat \<Rightarrow> json \<Rightarrow> string"
  and dump_list :: "nat \<Rightarrow> json list \<Rightarrow> string"
  and dump_items :: "nat \<Rightarrow> (string \<times> json) list \<Rightarrow> string" where
  "dump l JNull = ''null''"
| "dump l (JBool b) = (if b then ''true'' else ''false'')"
| "dump l (JInt i) = show_int i"
| "dump l (JFloat s) = s"
| "dump l (JStr s) = dump_str s"
| "dump l (JArr xs) = (if xs = [] then ''[]''
     else CHR ''['' # nl (Suc l) @ dump_list (Suc l) xs @ nl l @ '']'')"
| "dump l (JObj kvs) = (if kvs = [] then ''{}''
     else CHR ''{'' # nl (Suc l) @ dump_items (Suc l) kvs @ nl l @ ''}'')"
| "dump_list l [] = []"
| "dump_list l (x # xs) = dump l x @ (if xs = [] then [] else CHR '','' # nl l @ dump_list l xs)"
| "dump_items l [] = []"
| "dump_items l ((k, v) # xs) = dump_str k @ '': '' @ dump l v
     @ (if xs = [] then [] else CHR '','' # nl l @ dump_items l xs)"

definition dumps :: "json \<Rightarrow> string" where
  "dumps j = dump 0 j"

section \<open>Reading\<close>

definition is_jws :: "char \<Rightarrow> bool" where
  "is_jws c \<longleftrightarrow> code c = 32 \<or> code c = 9 \<or> code c = 10 \<or> code c = 13"

definition skip_ws :: "string \<Rightarrow> string" where
  "skip_ws s = dropWhile is_jws s"

definition hex_val :: "char \<Rightarrow> nat option" where
  "hex_val c =
     (if 48 \<le> code c \<and> code c \<le> 57 then Some (code c - 48)
      else if 97 \<le> code c \<and> code c \<le> 102 then Some (code c - 87)
      else if 65 \<le> code c \<and> code c \<le> 70 then Some (code c - 55)
      else None)"

definition hex4 :: "char \<Rightarrow> char \<Rightarrow> char \<Rightarrow> char \<Rightarrow> nat option" where
  "hex4 a b c d = (case (hex_val a, hex_val b, hex_val c, hex_val d) of
     (Some i, Some j, Some k, Some l) \<Rightarrow> Some (i * 4096 + j * 256 + k * 16 + l) | _ \<Rightarrow> None)"

definition utf8 :: "nat \<Rightarrow> string" where
  "utf8 n =
     (if n < 128 then [char_of n]
      else if n < 2048 then [char_of (192 + n div 64), char_of (128 + n mod 64)]
      else if n < 65536 then
        [char_of (224 + n div 4096), char_of (128 + n div 64 mod 64), char_of (128 + n mod 64)]
      else [char_of (240 + n div 262144), char_of (128 + n div 4096 mod 64),
            char_of (128 + n div 64 mod 64), char_of (128 + n mod 64)])"

definition unesc :: "char \<Rightarrow> char option" where
  "unesc c =
     (if c = QUOTE \<or> c = BACKSLASH \<or> c = CHR ''/'' then Some c
      else if c = CHR ''b'' then Some (CHR 0x08)
      else if c = CHR ''f'' then Some (CHR 0x0C)
      else if c = CHR ''n'' then Some NL
      else if c = CHR ''r'' then Some CR
      else if c = CHR ''t'' then Some (CHR 0x09)
      else None)"

definition prepend :: "string \<Rightarrow> (string \<times> string) option \<Rightarrow> (string \<times> string) option" where
  "prepend x r = map_option (\<lambda>(s, t). (x @ s, t)) r"

text \<open>The body of a string literal, after its opening quote.\<close>

fun pstr :: "string \<Rightarrow> (string \<times> string) option" where
  "pstr [] = None"
| "pstr (c # cs) =
     (if c = QUOTE then Some ([], cs)
      else if c = BACKSLASH then
        (case cs of
           [] \<Rightarrow> None
         | d # r \<Rightarrow>
             if d = CHR ''u'' then
               (case r of
                  h1 # h2 # h3 # h4 # r4 \<Rightarrow>
                    (case hex4 h1 h2 h3 h4 of
                       None \<Rightarrow> None
                     | Some n \<Rightarrow>
                         (case r4 of
                            b # u # l1 # l2 # l3 # l4 # r8 \<Rightarrow>
                              (case hex4 l1 l2 l3 l4 of
                                 Some m \<Rightarrow>
                                   if 55296 \<le> n \<and> n < 56320 \<and> b = BACKSLASH \<and> u = CHR ''u''
                                      \<and> 56320 \<le> m \<and> m < 57344
                                   then prepend (utf8 (65536 + (n - 55296) * 1024 + (m - 56320))) (pstr r8)
                                   else prepend (utf8 n) (pstr r4)
                               | None \<Rightarrow> prepend (utf8 n) (pstr r4))
                          | _ \<Rightarrow> prepend (utf8 n) (pstr r4)))
                | _ \<Rightarrow> None)
             else (case unesc d of None \<Rightarrow> None | Some x \<Rightarrow> prepend [x] (pstr r)))
      else if code c < 32 then None
      else prepend [c] (pstr cs))"

definition frac_part :: "string \<Rightarrow> string" where
  "frac_part s = (case s of
     c # r \<Rightarrow> if c = CHR ''.'' \<and> takeWhile is_digit r \<noteq> [] then c # takeWhile is_digit r else []
   | [] \<Rightarrow> [])"

definition exp_part :: "string \<Rightarrow> string" where
  "exp_part s = (case s of
     c # r \<Rightarrow>
       if c = CHR ''e'' \<or> c = CHR ''E'' then
         (let sg = (case r of d # _ \<Rightarrow> if d = CHR ''+'' \<or> d = CHR ''-'' then [d] else [] | [] \<Rightarrow> []);
              ds = takeWhile is_digit (drop (length sg) r)
          in if ds = [] then [] else c # sg @ ds)
       else []
   | [] \<Rightarrow> [])"

definition pnum_abs :: "bool \<Rightarrow> string \<Rightarrow> (json \<times> string) option" where
  "pnum_abs neg t =
     (let ds0 = takeWhile is_digit t;
          ds = (if ds0 \<noteq> [] \<and> hd ds0 = CHR ''0'' then ''0'' else ds0);
          r1 = drop (length ds) t;
          fr = frac_part r1;
          r2 = drop (length fr) r1;
          ex = exp_part r2
      in if ds0 = [] then None
         else if fr = [] \<and> ex = [] then
           (case digits_val 0 ds of
              Some n \<Rightarrow> Some (JInt (if neg then - int n else int n), r1) | None \<Rightarrow> None)
         else Some (JFloat ((if neg then ''-'' else []) @ ds @ fr @ ex), drop (length ex) r2))"

definition pnum :: "string \<Rightarrow> (json \<times> string) option" where
  "pnum s = (if s \<noteq> [] \<and> hd s = CHR ''-'' then pnum_abs True (tl s) else pnum_abs False s)"

definition dict_of :: "(string \<times> json) list \<Rightarrow> (string \<times> json) list" where
  "dict_of kvs = foldl (\<lambda>d (k, v). AList.update k v d) [] kvs"

text \<open>Values, the elements of a non-empty list, the members of a non-empty object. Every call
  spends one unit of fuel and consumes at least one character.\<close>

fun pval :: "nat \<Rightarrow> string \<Rightarrow> (json \<times> string) option"
  and plist :: "nat \<Rightarrow> string \<Rightarrow> (json list \<times> string) option"
  and pitems :: "nat \<Rightarrow> string \<Rightarrow> ((string \<times> json) list \<times> string) option" where
  "pval 0 s = None"
| "pval (Suc n) s =
     (if s = [] then None
      else if hd s = QUOTE then map_option (\<lambda>(x, t). (JStr x, t)) (pstr (tl s))
      else if hd s = CHR ''{'' then
        (let r = skip_ws (tl s) in
         if r \<noteq> [] \<and> hd r = CHR ''}'' then Some (JObj [], tl r)
         else map_option (\<lambda>(kvs, t). (JObj (dict_of kvs), t)) (pitems n r))
      else if hd s = CHR ''['' then
        (let r = skip_ws (tl s) in
         if r \<noteq> [] \<and> hd r = CHR '']'' then Some (JArr [], tl r)
         else map_option (\<lambda>(xs, t). (JArr xs, t)) (plist n r))
      else if startswith s ''null'' then Some (JNull, drop 4 s)
      else if startswith s ''true'' then Some (JBool True, drop 4 s)
      else if startswith s ''false'' then Some (JBool False, drop 5 s)
      else if startswith s ''NaN'' then Some (JFloat ''NaN'', drop 3 s)
      else if startswith s ''Infinity'' then Some (JFloat ''Infinity'', drop 8 s)
      else if startswith s ''-Infinity'' then Some (JFloat ''-Infinity'', drop 9 s)
      else pnum s)"
| "plist 0 s = None"
| "plist (Suc n) s =
     (case pval n s of
        None \<Rightarrow> None
      | Some (x, t) \<Rightarrow>
          (let r = skip_ws t in
           if r \<noteq> [] \<and> hd r = CHR '']'' then Some ([x], tl r)
           else if r \<noteq> [] \<and> hd r = CHR '','' then
             map_option (\<lambda>(xs, u). (x # xs, u)) (plist n (skip_ws (tl r)))
           else None))"
| "pitems 0 s = None"
| "pitems (Suc n) s =
     (if s = [] \<or> hd s \<noteq> QUOTE then None
      else case pstr (tl s) of
        None \<Rightarrow> None
      | Some (k, t) \<Rightarrow>
          (let r = skip_ws t in
           if r = [] \<or> hd r \<noteq> CHR '':'' then None
           else case pval n (skip_ws (tl r)) of
             None \<Rightarrow> None
           | Some (v, t') \<Rightarrow>
               (let r' = skip_ws t' in
                if r' \<noteq> [] \<and> hd r' = CHR ''}'' then Some ([(k, v)], tl r')
                else if r' \<noteq> [] \<and> hd r' = CHR '','' then
                  map_option (\<lambda>(kvs, u). ((k, v) # kvs, u)) (pitems n (skip_ws (tl r')))
                else None)))"

definition loads :: "string \<Rightarrow> json option" where
  "loads s = (case pval (2 * length s + 1) (skip_ws s) of
     None \<Rightarrow> None | Some (v, t) \<Rightarrow> if skip_ws t = [] then Some v else None)"

section \<open>Python's view of a parsed value\<close>

fun truthy :: "json \<Rightarrow> bool" where
  "truthy JNull = False"
| "truthy (JBool b) = b"
| "truthy (JInt i) = (i \<noteq> 0)"
| "truthy (JFloat s) = (\<exists>c \<in> set (takeWhile (\<lambda>c. c \<noteq> CHR ''e'' \<and> c \<noteq> CHR ''E'') s).
     c \<noteq> CHR ''0'' \<and> c \<noteq> CHR ''.'' \<and> c \<noteq> CHR ''-'')"
| "truthy (JStr s) = (s \<noteq> [])"
| "truthy (JArr xs) = (xs \<noteq> [])"
| "truthy (JObj kvs) = (kvs \<noteq> [])"

end
