(* ===== verification/Oci.thy ===== *)
theory Oci
  imports Verity Json
begin

text \<open>
  \<open>zerith/oci.py\<close>: artifact references, signature verification, registry authentication and
  the \<open>Source\<close> of a deployment with its metadata. The registry, \<open>oras\<close>, \<open>cosign\<close> and
  \<open>curl\<close> are outside: they are commands of the environment.
\<close>

section \<open>References\<close>

definition ref_repo :: "string \<Rightarrow> string" where
  "ref_repo ref =
     (let nm = split1 (CHR ''@'') ref ! 0;
          slash = rfind nm (CHR ''/'');
          final = drop (nat (slash + 1)) nm
      in if CHR '':'' \<in> set final then take (nat (slash + 1)) nm @ split1 (CHR '':'') final ! 0
         else nm)"

section \<open>Metadata\<close>

text \<open>\<open>m.get(k)\<close> and \<open>m[k]\<close> of a parsed JSON value.\<close>

definition meta_get :: "json \<Rightarrow> string \<Rightarrow> exn + json option" where
  "meta_get m k = (case m of JObj kvs \<Rightarrow> Inr (map_of kvs k) | _ \<Rightarrow> Inl AttributeErr)"

definition meta_item :: "json \<Rightarrow> string \<Rightarrow> exn + json" where
  "meta_item m k = (case m of
     JObj kvs \<Rightarrow> (case map_of kvs k of Some v \<Rightarrow> Inr v | None \<Rightarrow> Inl (KeyErr k))
   | _ \<Rightarrow> Inl TypeErr)"

definition as_str :: "json \<Rightarrow> exn + string" where
  "as_str j = (case j of JStr s \<Rightarrow> Inr s | _ \<Rightarrow> Inl TypeErr)"

text \<open>\<open>str(v)\<close> in a message; compound values are shown as JSON.\<close>

definition json_str :: "json \<Rightarrow> string" where
  "json_str j = (case j of
     JStr s \<Rightarrow> s | JNull \<Rightarrow> ''None'' | JBool b \<Rightarrow> (if b then ''True'' else ''False'') | _ \<Rightarrow> dumps j)"

record source =
  staging :: path
  meta :: json
  src_ref :: "string option"
  local_objects :: "path option"
  cleanup_dir :: "path option"

definition src_uki :: "source \<Rightarrow> path" where
  "src_uki s = pjoin (staging s) UKI_NAME"

definition src_root_cfs :: "source \<Rightarrow> path" where
  "src_root_cfs s = pjoin (staging s) CFS_NAME"

definition src_bootloader :: "source \<Rightarrow> path" where
  "src_bootloader s = pjoin (staging s) BOOTLOADER_NAME"

text \<open>\<open>meta["deploy_id"]\<close>; every use needs a string.\<close>

definition src_deploy_id :: "source \<Rightarrow> exn + string" where
  "src_deploy_id s = (case meta_item (meta s) ''deploy_id'' of Inl x \<Rightarrow> Inl x | Inr v \<Rightarrow> as_str v)"

definition src_version :: "source \<Rightarrow> exn + json" where
  "src_version s = (case meta_get (meta s) ''version'' of
     Inl x \<Rightarrow> Inl x | Inr None \<Rightarrow> Inr (JStr ''unknown'') | Inr (Some v) \<Rightarrow> Inr v)"

definition src_digest :: "source \<Rightarrow> exn + json" where
  "src_digest s = meta_item (meta s) ''composefs_digest''"

definition src_objects_ref :: "source \<Rightarrow> exn + json" where
  "src_objects_ref s = (case meta_get (meta s) ''objects_ref'' of
     Inl x \<Rightarrow> Inl x | Inr None \<Rightarrow> Inr JNull | Inr (Some v) \<Rightarrow> Inr v)"

definition or_empty :: "exn + json option \<Rightarrow> exn + json" where
  "or_empty r = (case r of
     Inl x \<Rightarrow> Inl x | Inr None \<Rightarrow> Inr (JObj []) | Inr (Some v) \<Rightarrow> Inr (if truthy v then v else JObj []))"

definition src_objects_pack :: "source \<Rightarrow> exn + json" where
  "src_objects_pack s = or_empty (meta_get (meta s) ''objects_pack'')"

definition src_objects_index :: "source \<Rightarrow> exn + json" where
  "src_objects_index s = or_empty (meta_get (meta s) ''objects_index'')"

definition src_cleanup :: "source \<Rightarrow> unit proc" where
  "src_cleanup s = (case cleanup_dir s of None \<Rightarrow> ret () | Some d \<Rightarrow> rmtree_quiet d)"

section \<open>Registry authentication\<close>

definition is_word :: "char \<Rightarrow> bool" where
  "is_word c \<longleftrightarrow> is_digit c \<or> (65 \<le> code c \<and> code c \<le> 90) \<or> (97 \<le> code c \<and> code c \<le> 122) \<or> code c = 95"

text \<open>\<open>(?im)^www-authenticate:\s*bearer\s+(.+)$\<close> at one line start, on stripped text.\<close>

definition bearer_at :: "string \<Rightarrow> string option" where
  "bearer_at s =
     (let h = ''www-authenticate:''; r1 = dropWhile is_space (drop (length h) s);
          r2 = drop (length ''bearer'') r1; r3 = dropWhile is_space r2
      in if lower (take (length h) s) = h \<and> lower (take (length ''bearer'') r1) = ''bearer''
            \<and> r2 \<noteq> [] \<and> is_space (hd r2) \<and> r3 \<noteq> []
         then Some (takeWhile (\<lambda>c. c \<noteq> NL) r3) else None)"

fun bearer_search :: "bool \<Rightarrow> string \<Rightarrow> string option" where
  "bearer_search start [] = None"
| "bearer_search start (c # s) =
     (case (if start then bearer_at (c # s) else None) of
        Some x \<Rightarrow> Some x
      | None \<Rightarrow> bearer_search (c = NL) s)"

text \<open>\<open>re.findall('(\w+)="([^"]*)"', s)\<close>\<close>

function find_params :: "string \<Rightarrow> (string \<times> string) list" where
  "find_params [] = []"
| "find_params (c # s) =
     (if is_word c then
        (let w = takeWhile is_word (c # s); r = dropWhile is_word (c # s);
             v = takeWhile (\<lambda>x. x \<noteq> QUOTE) (drop 2 r)
         in if take 2 r = [CHR ''='', QUOTE] \<and> QUOTE \<in> set (drop 2 r)
            then (w, v) # find_params (drop (length v + 3) r)
            else find_params r)
      else find_params s)"
  by pat_completeness auto
termination
proof (relation "measure length", goal_cases)
  case (2 c s w r v)
  then show ?case using length_dropWhile_le [of is_word s] by simp
next
  case (3 c s w r v)
  then show ?case using length_dropWhile_le [of is_word s] by simp
qed auto

definition registry_auth_header :: "string \<Rightarrow> string option proc" where
  "registry_auth_header repo =
     (let registry = split1 (CHR ''/'') repo ! 0 in
      bnd (run_out [''curl'', ''-sS'', ''-o'', ''/dev/null'', ''-D'', ''-'', ''https://'' @ registry @ ''/v2/'']) (\<lambda>hdrs.
      case bearer_search True hdrs of
        None \<Rightarrow> ret None
      | Some g \<Rightarrow>
          (let params = map_of (rev (find_params g)) in
           case params ''realm'' of
             None \<Rightarrow> ret None
           | Some realm \<Rightarrow>
               if realm = [] then ret None
               else if CHR ''/'' \<notin> set repo then raise IndexErr
               else
                 (let query = ''service='' @ (case params ''service'' of Some x \<Rightarrow> x | None \<Rightarrow> registry)
                    @ ''&scope=repository:'' @ split1 (CHR ''/'') repo ! 1 @ '':pull'' in
                  bnd (run_out [''curl'', ''-fsSL'', realm @ ''?'' @ query]) (\<lambda>out.
                  case loads out of
                    None \<Rightarrow> ret None
                  | Some token \<Rightarrow>
                      bnd (lift (meta_get token ''token'')) (\<lambda>t1.
                      bnd (lift (meta_get token ''access_token'')) (\<lambda>t2.
                      let bearer = (case t1 of Some v \<Rightarrow> (if truthy v then Some v else t2) | None \<Rightarrow> t2)
                      in ret (case bearer of
                           Some v \<Rightarrow> if truthy v then Some (''Authorization: Bearer '' @ json_str v) else None
                         | None \<Rightarrow> None))))))))"

section \<open>Signatures\<close>

definition cosign_verify :: "string \<Rightarrow> string option \<Rightarrow> string \<Rightarrow> bool \<Rightarrow> unit proc" where
  "cosign_verify ref identity_re issuer skip =
     (if skip then log (''WARNING: skipping signature verification for '' @ ref)
      else case identity_re of
        None \<Rightarrow> die ''cosign identity not set (pass --cosign-identity or ZERITH_COSIGN_IDENTITY, or --insecure-skip-verify for dev)''
      | Some idre \<Rightarrow>
          if idre = [] then die ''cosign identity not set (pass --cosign-identity or ZERITH_COSIGN_IDENTITY, or --insecure-skip-verify for dev)''
          else steps
            [require_tool ''cosign'',
             bnd (run_out [''cosign'', ''verify'', ''--certificate-identity-regexp'', idre,
                  ''--certificate-oidc-issuer'', issuer, ref]) (\<lambda>_. ret ()),
             vlog (''cosign verified '' @ ref)])"

section \<open>Sources\<close>

definition dry_meta :: json where
  "dry_meta = JObj [(''deploy_id'', JStr ''dryrunid00000000''), (''version'', JStr ''unknown''),
     (''composefs_digest'', JStr (replicate 64 (CHR ''0''))), (''objects_ref'', JNull)]"

definition read_meta :: "path \<Rightarrow> json proc" where
  "read_meta stg =
     (let p = pjoin stg META_NAME in
      bnd (asks dry_run) (\<lambda>dry.
      bnd (gets (\<lambda>f. is_file f p)) (\<lambda>there.
      if dry \<and> \<not> there then ret dry_meta
      else try_except
        (bnd (read_text p) (\<lambda>s. case loads s of Some j \<Rightarrow> ret j | None \<Rightarrow> raise ValueErr))
        (\<lambda>x. if is_oserror x \<or> x = ValueErr
             then die (''bad or missing '' @ META_NAME @ '' in source'') else raise x))))"

definition source_from_ref ::
  "string \<Rightarrow> string option \<Rightarrow> string \<Rightarrow> bool \<Rightarrow> source proc" where
  "source_from_ref ref cos_id cos_issuer skip_verify =
     bnd (require_tool ''oras'') (\<lambda>_.
     bnd (cosign_verify ref cos_id cos_issuer skip_verify) (\<lambda>_.
     bnd (mkdtemp ''zerith-pull-'') (\<lambda>stg.
     bnd (run_do [''oras'', ''pull'', ref, ''-o'', path_str stg]) (\<lambda>_.
     bnd (read_meta stg) (\<lambda>m.
     bnd (lift (meta_get m ''deploy_id'')) (\<lambda>did.
     bnd (asks dry_run) (\<lambda>dry.
     bnd (if_do ((case did of Some v \<Rightarrow> \<not> truthy v | None \<Rightarrow> True) \<and> \<not> dry) (steps
            [rmtree_quiet stg,
             die (''artifact '' @ ref @ '' has no deploy_id in '' @ META_NAME)])) (\<lambda>_.
     ret \<lparr>staging = stg, meta = m, src_ref = Some ref, local_objects = None, cleanup_dir = Some stg\<rparr>))))))))"

definition source_from_local :: "path \<Rightarrow> source proc" where
  "source_from_local loc =
     bnd (asks dry_run) (\<lambda>dry.
     bnd (gets (\<lambda>f. is_dir f loc)) (\<lambda>d.
     bnd (if_do (\<not> dry \<and> \<not> d) (die (''--local '' @ path_str loc @ '' is not a directory''))) (\<lambda>_.
     bnd (read_meta loc) (\<lambda>m.
     let objs = pjoin loc ''objects'' in
     bnd (gets (\<lambda>f. is_dir f objs)) (\<lambda>od.
     bnd (if_do (\<not> dry \<and> \<not> od) (die (''--local '' @ path_str loc @ '' has no objects/ directory''))) (\<lambda>_.
     ret \<lparr>staging = loc, meta = m, src_ref = None, local_objects = Some objs, cleanup_dir = None\<rparr>))))))"

section \<open>Repository names\<close>

text \<open>A colon is a tag separator in the last path segment only, so a registry port stays.\<close>

lemma ref_repo_strip:
  assumes "CHR ''@'' \<notin> set host" "CHR ''@'' \<notin> set nm" "CHR ''/'' \<notin> set nm" "CHR '':'' \<notin> set nm"
    and "CHR ''/'' \<notin> set tag" "CHR ''@'' \<notin> set tag"
  shows "ref_repo (host @ ''/'' @ nm) = host @ ''/'' @ nm"
    and "ref_repo (host @ ''/'' @ nm @ '':'' @ tag) = host @ ''/'' @ nm"
    and "ref_repo (host @ ''/'' @ nm @ ''@'' @ dig) = host @ ''/'' @ nm"
    and "ref_repo (host @ ''/'' @ nm @ '':'' @ tag @ ''@'' @ dig) = host @ ''/'' @ nm"
proof -
  have bare: "ref_repo r = host @ ''/'' @ nm" if "split1 (CHR ''@'') r ! 0 = host @ ''/'' @ nm" for r
    using that assms rfind_split [of "CHR ''/''" nm host] by (simp add: ref_repo_def Let_def nat_add_distrib)
  have tagged: "ref_repo r = host @ ''/'' @ nm"
    if "split1 (CHR ''@'') r ! 0 = host @ ''/'' @ nm @ '':'' @ tag" for r
  proof -
    have "CHR ''/'' \<notin> set (nm @ '':'' @ tag)" using assms by simp
    then have "rfind (host @ ''/'' @ nm @ '':'' @ tag) (CHR ''/'') = int (length host)"
      using rfind_split [of "CHR ''/''" "nm @ '':'' @ tag" host] by simp
    moreover have "takeWhile (\<lambda>x. x \<noteq> CHR '':'') (nm @ CHR '':'' # tag) = nm"
      using assms by (intro takeWhile_app_stop) auto
    ultimately show ?thesis using that
      by (simp add: ref_repo_def Let_def nat_add_distrib split1_nth0)
  qed
  have at: "takeWhile (\<lambda>x. x \<noteq> CHR ''@'') (s @ CHR ''@'' # dig) = s" if "CHR ''@'' \<notin> set s" for s
    using that by (intro takeWhile_app_stop) auto
  have no: "takeWhile (\<lambda>x. x \<noteq> CHR ''@'') s = s" if "CHR ''@'' \<notin> set s" for s
    using that by (intro takeWhile_all_app) auto
  show "ref_repo (host @ ''/'' @ nm) = host @ ''/'' @ nm"
    by (rule bare) (use assms in \<open>simp add: split1_nth0 no\<close>)
  show "ref_repo (host @ ''/'' @ nm @ '':'' @ tag) = host @ ''/'' @ nm"
    by (rule tagged) (use assms in \<open>simp add: split1_nth0 no\<close>)
  show "ref_repo (host @ ''/'' @ nm @ ''@'' @ dig) = host @ ''/'' @ nm"
    by (rule bare) (use assms at [of "host @ ''/'' @ nm"] in \<open>simp add: split1_nth0\<close>)
  show "ref_repo (host @ ''/'' @ nm @ '':'' @ tag @ ''@'' @ dig) = host @ ''/'' @ nm"
    by (rule tagged) (use assms at [of "host @ ''/'' @ nm @ '':'' @ tag"] in \<open>simp add: split1_nth0\<close>)
qed

lemma keeps_oci [tr_rules]:
  assumes "tools_keep I e"
  shows "keeps e I (cosign_verify r idre iss sk)" "keeps e I (read_meta p)"
    "keeps e I (registry_auth_header repo)"
  using assms unfolding cosign_verify_def read_meta_def registry_auth_header_def Let_def
  by (auto intro!: tr_rules split: option.split)

context disk_invariant
begin

lemma keeps_source [tr_rules]:
  assumes "tools_keep I e"
  shows "keeps e I (source_from_ref r idre iss sk)" "keeps e I (source_from_local p)" "keeps e I (src_cleanup s)"
  using assms unfolding source_from_ref_def source_from_local_def src_cleanup_def Let_def
  by (auto intro!: tr_rules split: option.split)

end

end
