(* ===== verification/Progress.thy ===== *)
theory Progress
  imports Runtime
begin

text \<open>
  \<open>zerith/progress.py\<close>: the progress bar of object fetches and the status line. Floating
  point numbers are rationals here (divisions by 1024 are exact in both); the clock is
  read through \<open>monotonic\<close>. An entry of \<open>stderr\<close> is one write.
\<close>

section \<open>Number formatting\<close>

text \<open>\<open>:.0f\<close> and \<open>:.1f\<close> round half to even; \<open>int(x)\<close> truncates.\<close>

definition round_even :: "rat \<Rightarrow> int" where
  "round_even x = (let k = \<lfloor>x\<rfloor>; d = x - of_int k in
     if d < 1/2 \<or> (d = 1/2 \<and> even k) then k else k + 1)"

definition sign_str :: "rat \<Rightarrow> string" where
  "sign_str x = (if x < 0 then ''-'' else [])"

definition fixed0 :: "rat \<Rightarrow> string" where
  "fixed0 x = sign_str x @ show_nat (nat (round_even \<bar>x\<bar>))"

definition fixed1 :: "rat \<Rightarrow> string" where
  "fixed1 x = (let k = nat (round_even (10 * \<bar>x\<bar>)) in
     sign_str x @ show_nat (k div 10) @ ''.'' @ show_nat (k mod 10))"

definition trunc :: "rat \<Rightarrow> int" where
  "trunc x = (if x < 0 then \<lceil>x\<rceil> else \<lfloor>x\<rfloor>)"

definition pad_left :: "nat \<Rightarrow> char \<Rightarrow> string \<Rightarrow> string" where
  "pad_left n c s = replicate (n - length s) c @ s"

definition pad_right :: "nat \<Rightarrow> string \<Rightarrow> string" where
  "pad_right n s = s @ replicate (n - length s) (CHR '' '')"

definition UNITS :: "string list" where
  "UNITS = [''B'', ''KiB'', ''MiB'', ''GiB'', ''TiB'']"

function scale_units :: "nat \<Rightarrow> rat \<Rightarrow> rat \<times> nat" where
  "scale_units i n =
     (if 1024 \<le> n \<and> i < length UNITS - 1 then scale_units (Suc i) (n / 1024) else (n, i))"
  by pat_completeness auto
termination by (relation "measure (\<lambda>(i, _). length UNITS - i)") auto

declare scale_units.simps [simp del]

definition human_bytes :: "rat \<Rightarrow> string" where
  "human_bytes n = (case scale_units 0 n of (m, i) \<Rightarrow>
     (if i = 0 then fixed0 m else fixed1 m) @ '' '' @ UNITS ! i)"

definition human_duration :: "rat \<Rightarrow> string" where
  "human_duration secs =
     (let s = trunc (secs + 1/2) in
      if s < 60 then show_int s @ ''s''
      else
        (let m = s div 60; s' = s mod 60 in
         if m < 60 then show_int m @ ''m'' @ pad_left 2 (CHR ''0'') (show_int s') @ ''s''
         else show_int (m div 60) @ ''h'' @ pad_left 2 (CHR ''0'') (show_int (m mod 60)) @ ''m''))"

section \<open>The progress bar\<close>

record progress =
  p_total :: int
  p_label :: string
  p_done :: int
  p_nbytes :: int
  p_start :: rat
  p_tty :: bool
  p_last_draw :: rat
  p_pending :: int
  p_rate :: "rat option"

definition BAR_WIDTH :: int where "BAR_WIDTH = 22"
definition MIN_REDRAW_INTERVAL :: rat where "MIN_REDRAW_INTERVAL = 1/10"
definition RATE_ALPHA :: rat where "RATE_ALPHA = 3/10"

abbreviation CLEAR_LINE :: string where
  "CLEAR_LINE \<equiv> [CR, CHR 0x1B, CHR ''['', CHR ''K'']"

abbreviation FULL_BLOCK :: string where "FULL_BLOCK \<equiv> [CHR 0xE2, CHR 0x96, CHR 0x88]"
abbreviation LIGHT_SHADE :: string where "LIGHT_SHADE \<equiv> [CHR 0xE2, CHR 0x96, CHR 0x91]"

definition progress_new :: "int \<Rightarrow> string \<Rightarrow> progress proc" where
  "progress_new items label =
     bnd monotonic (\<lambda>t. bnd (asks tty) (\<lambda>y.
     ret \<lparr>p_total = max 1 items, p_label = label, p_done = 0, p_nbytes = 0, p_start = t,
          p_tty = y, p_last_draw = t, p_pending = 0, p_rate = None\<rparr>))"

definition elapsed :: "progress \<Rightarrow> rat proc" where
  "elapsed p = bnd monotonic (\<lambda>t. ret (max (t - p_start p) (1 / 10 ^ 6)))"

definition eta :: "progress \<Rightarrow> rat option proc" where
  "eta p =
     (if p_done p \<ge> p_total p then ret None
      else bnd (elapsed p) (\<lambda>t. ret (Some (t * of_int (p_total p - p_done p) / of_int (p_done p)))))"

text \<open>Folding the bytes since the last paint into the moving average.\<close>

definition fold_rate :: "rat \<Rightarrow> progress \<Rightarrow> progress" where
  "fold_rate t p =
     (let window = t - p_last_draw p; inst = of_int (p_pending p) / window in
      (if window > 0 \<and> p_pending p \<noteq> 0
       then p\<lparr>p_rate := Some (case p_rate p of
              None \<Rightarrow> inst | Some r \<Rightarrow> RATE_ALPHA * inst + (1 - RATE_ALPHA) * r)\<rparr>
       else p)\<lparr>p_pending := 0, p_last_draw := t\<rparr>)"

definition bar_fill :: "progress \<Rightarrow> int" where
  "bar_fill p = trunc (of_int (BAR_WIDTH * p_done p) / of_int (p_total p))"

definition bar_str :: "progress \<Rightarrow> string" where
  "bar_str p = concat (replicate (nat (bar_fill p)) FULL_BLOCK)
     @ concat (replicate (nat (BAR_WIDTH - bar_fill p)) LIGHT_SHADE)"

definition bar_line :: "progress \<Rightarrow> rat option \<Rightarrow> string" where
  "bar_line p left =
     CLEAR_LINE @ ''zerithctl: '' @ p_label p @ '' ['' @ bar_str p @ ''] ''
     @ pad_left 3 (CHR '' '') (fixed0 (of_int (100 * p_done p) / of_int (p_total p))) @ ''% ''
     @ show_int (p_done p) @ ''/'' @ show_int (p_total p)
     @ (if p_nbytes p \<noteq> 0 then
          ''  '' @ human_bytes (of_int (p_nbytes p))
          @ (case p_rate p of None \<Rightarrow> [] | Some r \<Rightarrow> ''  '' @ human_bytes r @ ''/s'')
        else [])
     @ (case left of None \<Rightarrow> [] | Some s \<Rightarrow> ''  eta '' @ human_duration s)"

definition progress_draw :: "rat \<Rightarrow> progress \<Rightarrow> progress proc" where
  "progress_draw t p =
     (let p' = fold_rate t p in
      bnd (eta p') (\<lambda>left. bnd (eprint (bar_line p' left)) (\<lambda>_. ret p')))"

definition progress_update :: "int \<Rightarrow> progress \<Rightarrow> progress proc" where
  "progress_update n p =
     (let p' = p\<lparr>p_done := p_done p + 1, p_nbytes := p_nbytes p + n\<rparr> in
      if \<not> p_tty p then ret p'
      else
        (let p'' = p'\<lparr>p_pending := p_pending p + n\<rparr> in
         bnd monotonic (\<lambda>t.
         if p_done p'' < p_total p \<and> t - p_last_draw p < MIN_REDRAW_INTERVAL then ret p''
         else progress_draw t p'')))"

definition progress_finish :: "progress \<Rightarrow> string \<Rightarrow> unit proc" where
  "progress_finish p msg = steps [if_do (p_tty p) (eprint CLEAR_LINE), log msg]"

section \<open>The status line\<close>

definition status_show :: "string \<Rightarrow> unit proc" where
  "status_show msg = bnd (asks tty) (\<lambda>y. if_do y (eprint (CLEAR_LINE @ ''zerithctl: '' @ msg)))"

definition status_done :: "string \<Rightarrow> unit proc" where
  "status_done msg = bnd (asks tty) (\<lambda>y. steps [if_do y (eprint CLEAR_LINE), log msg])"

section \<open>What they do\<close>

lemma tr_progress:
  assumes "\<And>f x. P f \<Longrightarrow> Q x f"
  shows "xtriple e P C X (progress_update n p) Q" "xtriple e P C X (progress_new k l) Q"
  using assms by (auto simp: triple_def progress_update_def progress_draw_def eta_def elapsed_def
      progress_new_def Let_def run_simps)

lemma tr_elapsed: "(\<And>f x. P f \<Longrightarrow> Q x f) \<Longrightarrow> xtriple e P C X (elapsed p) Q"
  by (auto simp: triple_def elapsed_def run_simps)

lemma tr_status:
  assumes "\<And>f. P f \<Longrightarrow> Q () f"
  shows "xtriple e P C X (progress_finish p m) Q" "xtriple e P C X (status_show m) Q" "xtriple e P C X (status_done m) Q"
  using assms by (auto simp: triple_def progress_finish_def status_show_def status_done_def run_simps)

lemma keeps_progress [tr_rules]:
  "keeps e I (progress_update n p)" "keeps e I (progress_new k l)" "keeps e I (elapsed p)"
  "keeps e I (progress_finish p m)" "keeps e I (status_show m)" "keeps e I (status_done m)"
  by (auto intro: tr_progress tr_elapsed tr_status)

text \<open>The scaled value and its unit denote the given size.\<close>

lemma scale_units_value:
  "i \<le> 4 \<Longrightarrow> scale_units i n = (m, j) \<Longrightarrow> m * 1024 ^ j = n * 1024 ^ i \<and> i \<le> j \<and> j \<le> 4"
proof (induction i n rule: scale_units.induct)
  case (1 i n)
  show ?case
  proof (cases "1024 \<le> n \<and> i < 4")
    case True
    then have "scale_units (Suc i) (n / 1024) = (m, j)"
      using 1(3) by (subst (asm) scale_units.simps) (simp add: UNITS_def)
    then show ?thesis using 1(1) True by (simp add: UNITS_def)
  next
    case False
    then show ?thesis using 1(2,3) by (subst (asm) scale_units.simps) (auto simp: UNITS_def)
  qed
qed

lemma scale_units_range:
  "scale_units i n = (m, j) \<Longrightarrow> i \<le> 4 \<Longrightarrow> (j < 4 \<longrightarrow> m < 1024) \<and> (i < j \<longrightarrow> 1 \<le> m)"
proof (induction i n rule: scale_units.induct)
  case (1 i n)
  show ?case
  proof (cases "1024 \<le> n \<and> i < 4")
    case True
    then have s: "scale_units (Suc i) (n / 1024) = (m, j)"
      using 1(2) by (subst (asm) scale_units.simps) (simp add: UNITS_def)
    then have IH: "(j < 4 \<longrightarrow> m < 1024) \<and> (Suc i < j \<longrightarrow> 1 \<le> m)"
      using 1(1) True by (simp add: UNITS_def)
    have "j = Suc i \<Longrightarrow> m = n / 1024"
      using s scale_units_value [of "Suc i" "n / 1024" m j] True by simp
    moreover have "Suc i \<le> j" using scale_units_value [OF _ s] True by simp
    ultimately show ?thesis using IH True by (cases "j = Suc i") auto
  next
    case False
    then show ?thesis using 1(2,3) by (subst (asm) scale_units.simps) (auto simp: UNITS_def)
  qed
qed

lemma fold_rate_simps [simp]:
  "p_done (fold_rate t p) = p_done p" "p_total (fold_rate t p) = p_total p"
  "p_nbytes (fold_rate t p) = p_nbytes p" "p_tty (fold_rate t p) = p_tty p"
  "p_pending (fold_rate t p) = 0" "p_label (fold_rate t p) = p_label p"
  "p_start (fold_rate t p) = p_start p"
  by (simp_all add: fold_rate_def Let_def)

lemma progress_update_run:
  "\<exists>p' w'. progress_update n p e w = (Inr p', w') \<and> p_done p' = p_done p + 1 \<and> p_nbytes p' = p_nbytes p + n
     \<and> p_total p' = p_total p \<and> p_tty p' = p_tty p \<and> fsys w' = fsys w \<and> hist w' = hist w \<and> stdout w' = stdout w
     \<and> (p_tty p \<or> w' = w)"
  by (auto simp: progress_update_def progress_draw_def eta_def elapsed_def Let_def run_simps)

lemma bar_fill_bounds:
  assumes "0 \<le> p_done p" "p_done p \<le> p_total p" "0 < p_total p"
  shows "0 \<le> bar_fill p \<and> bar_fill p \<le> BAR_WIDTH"
proof -
  have "(0::rat) \<le> of_int (BAR_WIDTH * p_done p) / of_int (p_total p)"
    using assms by (simp add: BAR_WIDTH_def)
  moreover have "of_int (BAR_WIDTH * p_done p) / of_int (p_total p) \<le> (of_int BAR_WIDTH :: rat)"
    using assms by (simp add: BAR_WIDTH_def divide_le_eq)
  ultimately show ?thesis by (simp add: bar_fill_def trunc_def floor_le_iff)
qed

text \<open>The bar always has its 22 cells, of three bytes each, while the count of finished items is
  within the total.\<close>

lemma bar_width:
  assumes "0 \<le> p_done p" "p_done p \<le> p_total p" "0 < p_total p"
  shows "length (bar_str p) = 66"
  using bar_fill_bounds [OF assms] by (auto simp: bar_str_def length_concat sum_list_replicate BAR_WIDTH_def)

end
