(* ===== verification/Ranges.thy ===== *)
theory Ranges
  imports Oci Progress "HOL-Library.Product_Lexorder" "HOL-Library.List_Lexorder" "HOL-Library.Char_ord"
begin

text \<open>
  The pure part of \<open>zerith/objects.py\<close>: digests in a composefs dump, store paths, the pack
  index, and the coalescing of wanted objects into HTTP ranges.
\<close>

section \<open>Digests in a dump\<close>

text \<open>\<open>re.findall(r"\b[0-9a-f]{64}\b", s)\<close>: \<open>before\<close> tells whether a word character
  precedes the position.\<close>

definition digest_at :: "bool \<Rightarrow> string \<Rightarrow> bool" where
  "digest_at before s \<longleftrightarrow> \<not> before \<and> is_digest (take 64 s) \<and> (drop 64 s = [] \<or> \<not> is_word (hd (drop 64 s)))"

function find_digests :: "bool \<Rightarrow> string \<Rightarrow> string list" where
  "find_digests before [] = []"
| "find_digests before (c # s) =
     (if digest_at before (c # s) then take 64 (c # s) # find_digests True (drop 64 (c # s))
      else find_digests (is_word c) s)"
  by pat_completeness auto
termination by (relation "measure (\<lambda>(_, s). length s)") auto

definition rel_for_digest :: "string \<Rightarrow> string" where
  "rel_for_digest d = take 2 d @ ''/'' @ drop 2 d"

definition no_slash :: "string \<Rightarrow> string" where
  "no_slash s = filter (\<lambda>c. c \<noteq> CHR ''/'') s"

section \<open>The pack index\<close>

definition parse_index_line :: "string \<Rightarrow> exn + string \<times> int \<times> int" where
  "parse_index_line line = (case split_ws line of
     [digest, offs, len] \<Rightarrow> (case (py_int offs, py_int len) of
         (Some a, Some b) \<Rightarrow> Inr (digest, a, b) | _ \<Rightarrow> Inl ValueErr)
   | _ \<Rightarrow> Inl ValueErr)"

fun parse_index_lines :: "string list \<Rightarrow> (string \<times> int \<times> int) list \<Rightarrow> exn + (string \<times> int \<times> int) list" where
  "parse_index_lines [] index = Inr index"
| "parse_index_lines (line # ls) index =
     (if line = [] then parse_index_lines ls index
      else (case parse_index_line line of
          Inl x \<Rightarrow> Inl x
        | Inr (d, v) \<Rightarrow> parse_index_lines ls (AList.update d v index)))"

definition parse_index :: "string \<Rightarrow> exn + (string \<times> int \<times> int) list" where
  "parse_index text = parse_index_lines (splitlines text) []"

section \<open>Coalescing\<close>

type_synonym want = "int \<times> int \<times> string"
type_synonym http_range = "int \<times> int \<times> want list"

fun coalesce_loop :: "int \<Rightarrow> want list \<Rightarrow> http_range option \<Rightarrow> http_range list \<Rightarrow> http_range list" where
  "coalesce_loop gap [] cur ranges = (case cur of None \<Rightarrow> ranges | Some c \<Rightarrow> ranges @ [c])"
| "coalesce_loop gap ((offs, len, digest) # want) cur ranges =
     (case cur of
        None \<Rightarrow> coalesce_loop gap want (Some (offs, offs + len - 1, [(0, len, digest)])) ranges
      | Some (start, fin, objs) \<Rightarrow>
          if offs - (fin + 1) \<le> gap then
            coalesce_loop gap want
              (Some (start, max fin (offs + len - 1), objs @ [(offs - start, len, digest)])) ranges
          else
            coalesce_loop gap want (Some (offs, offs + len - 1, [(0, len, digest)]))
              (ranges @ [(start, fin, objs)]))"

definition coalesce_ranges :: "want list \<Rightarrow> int \<Rightarrow> http_range list" where
  "coalesce_ranges want gap = coalesce_loop gap want None []"

definition range_span :: "http_range list \<Rightarrow> int" where
  "range_span rs = sum_list (map (\<lambda>(a, b, _). b - a + 1) rs)"

text \<open>\<open>want.sort()\<close>\<close>

definition sort_want :: "want list \<Rightarrow> want list" where
  "sort_want w = sort w"

section \<open>Reading a slice of a buffer\<close>

text \<open>\<open>buf.seek(off)\<close> and \<open>buf.read(n)\<close>\<close>

definition seek_ok :: "int \<Rightarrow> exn + unit" where
  "seek_ok offs = (if offs < 0 then Inl (OSErr EINVAL []) else Inr ())"

definition buf_read :: "string \<Rightarrow> int \<Rightarrow> int \<Rightarrow> exn + string" where
  "buf_read b offs len =
     (if len < - 1 then Inl ValueErr
      else if len = - 1 then Inr (drop (nat offs) b)
      else Inr (take (nat len) (drop (nat offs) b)))"

section \<open>What the digest scanner finds\<close>

text \<open>The reference: split the text into its maximal runs of word characters.\<close>

function word_runs :: "string \<Rightarrow> string list" where
  "word_runs [] = []"
| "word_runs (c # s) =
     (if is_word c then takeWhile is_word (c # s) # word_runs (dropWhile is_word (c # s))
      else word_runs s)"
  by pat_completeness auto
termination by (relation "measure length") (auto simp: length_dropWhile_le le_imp_less_Suc)

lemma hex_is_word: "is_hex c \<Longrightarrow> is_word c"
  by (auto simp: is_hex_def is_word_def is_digit_def)

lemma find_digests_skip: "\<forall>c \<in> set w. is_word c \<Longrightarrow> find_digests True (w @ r) = find_digests True r"
  by (induction w) (auto simp: digest_at_def)

lemma digest_at_word: "digest_at b (c # s) \<Longrightarrow> is_word c"
  by (auto simp: digest_at_def is_digest_def list_all_iff intro: hex_is_word)

lemma find_digests_boundary: "r = [] \<or> \<not> is_word (hd r) \<Longrightarrow> find_digests b r = find_digests False r"
  by (cases r) (auto dest: digest_at_word)

lemma digest_at_run:
  assumes w: "\<forall>c \<in> set w. is_word c" and r: "r = [] \<or> \<not> is_word (hd r)"
  shows "digest_at False (w @ r) \<longleftrightarrow> is_digest w"
proof
  assume d: "digest_at False (w @ r)"
  have len: "length (take 64 (w @ r)) = 64" and hex: "\<And>c. c \<in> set (take 64 (w @ r)) \<Longrightarrow> is_word c"
    and stop: "drop 64 (w @ r) = [] \<or> \<not> is_word (hd (drop 64 (w @ r)))"
    using d by (auto simp: digest_at_def is_digest_def list_all_iff intro: hex_is_word)
  have "length w = 64"
  proof (rule ccontr)
    assume "length w \<noteq> 64"
    then consider "length w < 64" | "64 < length w" by linarith
    then show False
    proof cases
      case 1
      then obtain x xs where x: "r = x # xs" using len by (cases r) auto
      then have "x \<in> set (take 64 (w @ r))" using 1 by (simp add: take_Cons')
      then show False using hex r x by auto
    next
      case 2
      then have "drop 64 (w @ r) \<noteq> []" "hd (drop 64 (w @ r)) \<in> set w"
        by (auto simp: hd_append hd_drop_conv_nth)
      then show False using stop w by auto
    qed
  qed
  then show "is_digest w" using d by (simp add: digest_at_def)
next
  assume "is_digest w"
  then show "digest_at False (w @ r)" using r by (simp add: digest_at_def is_digest_def)
qed

lemma find_digests_runs: "find_digests False s = filter is_digest (word_runs s)"
proof (induction s rule: word_runs.induct)
  case (2 c s)
  show ?case
  proof (cases "is_word c")
    case False
    then show ?thesis using 2(2) digest_at_word [of False c s] by (auto simp del: word_runs.simps(1))
  next
    case True
    define w r where "w = takeWhile is_word (c # s)" and "r = dropWhile is_word (c # s)"
    have s: "c # s = w @ r" and w: "\<forall>x \<in> set w. is_word x" and r: "r = [] \<or> \<not> is_word (hd r)"
      using hd_dropWhile [of is_word "c # s"]
      by (auto simp only: w_def r_def takeWhile_dropWhile_id dest: set_takeWhileD)
    have runs: "word_runs (c # s) = w # word_runs r" using True by (simp add: w_def r_def)
    have IH: "find_digests False r = filter is_digest (word_runs r)" using 2(1) True by (simp add: r_def)
    obtain w' where w': "w = c # w'" using True by (simp add: w_def)
    note d = digest_at_run [OF w r, folded s]
    have "find_digests False (c # s) = (if is_digest w then [w] else []) @ find_digests False r"
    proof (cases "is_digest w")
      case True
      then have "take 64 (c # s) = w" "drop 64 (c # s) = r" by (simp_all add: s is_digest_def del: take_Cons_numeral drop_Cons_numeral)
      then show ?thesis using True d find_digests_boundary [OF r, of True] by (simp del: take_Cons_numeral drop_Cons_numeral)
    next
      case False
      then have "find_digests False (c # s) = find_digests True s" using d \<open>is_word c\<close> by simp
      moreover have "s = w' @ r" using s w' by simp
      moreover have "find_digests True (w' @ r) = find_digests True r"
        by (rule find_digests_skip) (use w w' in auto)
      ultimately show ?thesis using False find_digests_boundary [OF r, of True] by (simp del: find_digests.simps)
    qed
    then show ?thesis using IH runs by simp
  qed
qed simp

text \<open>The names of an object in a store.\<close>

definition object_path :: "string \<Rightarrow> string list" where
  "object_path d = [take 2 d, drop 2 d]"

lemma rel_for_digest_comps:
  assumes "is_digest d"
  shows "comps (rel_for_digest d) = [take 2 d, drop 2 d]" "no_slash (rel_for_digest d) = d"
    "\<not> startswith (rel_for_digest d) ''/''"
proof -
  have ns: "CHR ''/'' \<notin> set d" "CHR ''.'' \<notin> set d"
    using assms by (auto simp: is_digest_def list_all_iff is_hex_def code_def)
  then have p: "CHR ''/'' \<notin> set (take 2 d)" "CHR ''/'' \<notin> set (drop 2 d)" "CHR ''.'' \<notin> set (take 2 d)"
    "CHR ''.'' \<notin> set (drop 2 d)"
    using set_take_subset set_drop_subset by fast+
  have l: "take 2 d \<noteq> []" "drop 2 d \<noteq> []" using assms by (auto simp: is_digest_def)
  have "split_on (CHR ''/'') (rel_for_digest d) = [take 2 d, drop 2 d]"
    using split_on_app [OF p(1), of "drop 2 d"] split_on_id [OF p(2)] by (simp add: rel_for_digest_def)
  then show "comps (rel_for_digest d) = [take 2 d, drop 2 d]"
    using l p by (auto simp: comps_def)
  have "\<And>t. CHR ''/'' \<notin> set t \<Longrightarrow> filter (\<lambda>c. c \<noteq> CHR ''/'') t = t" by (auto simp: filter_id_conv)
  then show "no_slash (rel_for_digest d) = d"
    using p by (simp add: no_slash_def rel_for_digest_def)
  show "\<not> startswith (rel_for_digest d) ''/''"
    using l p(1) by (cases "take 2 d") (auto simp: startswith_def rel_for_digest_def)
qed

section \<open>What coalescing guarantees\<close>

text \<open>The wanted objects a range stands for, at their offsets in the pack.\<close>

definition in_pack :: "http_range \<Rightarrow> want list" where
  "in_pack r = (case r of (start, _, objs) \<Rightarrow> map (\<lambda>(offs, len, d). (start + offs, len, d)) objs)"

definition by_offset :: "want list \<Rightarrow> bool" where
  "by_offset w \<longleftrightarrow> sorted (map fst w)"

text \<open>An object lies inside the range that carries it.\<close>

definition range_ok :: "http_range \<Rightarrow> bool" where
  "range_ok r = (case r of (start, fin, objs) \<Rightarrow>
     objs \<noteq> [] \<and> (\<forall>(offs, len, d) \<in> set objs. 0 \<le> offs \<and> offs + len \<le> fin - start + 1))"

definition apart :: "int \<Rightarrow> http_range \<Rightarrow> http_range \<Rightarrow> bool" where
  "apart gap r r' \<longleftrightarrow> fst (snd r) + 1 + gap < fst r'"

lemma coalesce_loop_covers:
  "concat (map in_pack (coalesce_loop gap w cur rs)) =
     concat (map in_pack rs) @ (case cur of None \<Rightarrow> [] | Some c \<Rightarrow> in_pack c) @ w"
  by (induction gap w cur rs rule: coalesce_loop.induct)
    (auto simp: in_pack_def split: option.splits prod.splits)

lemma coalesce_loop_ok:
  assumes "by_offset w" "\<forall>r \<in> set rs. range_ok r"
    and "\<And>c. cur = Some c \<Longrightarrow> range_ok c \<and> (\<forall>x \<in> set w. fst c \<le> fst x)"
  shows "\<forall>r \<in> set (coalesce_loop gap w cur rs). range_ok r"
  using assms
proof (induction gap w cur rs rule: coalesce_loop.induct)
  case (2 gap offs len d w cur rs)
  have s: "by_offset w" "\<forall>x \<in> set w. offs \<le> fst x" using 2(4) by (auto simp: by_offset_def)
  show ?case
  proof (cases cur)
    case None
    then show ?thesis using 2(1) 2(5) s by (auto simp: range_ok_def)
  next
    case (Some c)
    obtain a b objs where c: "c = (a, b, objs)" by (cases c)
    have a: "a \<le> offs" "range_ok (a, b, objs)" "\<forall>x \<in> set w. a \<le> fst x" using 2(6) [OF Some] c by auto
    show ?thesis
    proof (cases "offs - (b + 1) \<le> gap")
      case True
      have "range_ok (a, max b (offs + len - 1), objs @ [(offs - a, len, d)])"
        using a(1,2) by (fastforce simp: range_ok_def)
      then have "\<forall>r \<in> set (coalesce_loop gap w (Some (a, max b (offs + len - 1), objs @ [(offs - a, len, d)])) rs). range_ok r"
        by (intro 2(2) [OF Some c [symmetric] refl True s(1) 2(5)]) (use a(3) in auto)
      then show ?thesis unfolding Some c using True by simp
    next
      case False
      have "range_ok (offs, offs + len - 1, [(0, len, d)])" by (simp add: range_ok_def)
      then have "\<forall>r \<in> set (coalesce_loop gap w (Some (offs, offs + len - 1, [(0, len, d)])) (rs @ [(a, b, objs)])). range_ok r"
        by (intro 2(3) [OF Some c [symmetric] refl False s(1)]) (use a(2) s(2) 2(5) in auto)
      then show ?thesis unfolding Some c using False by simp
    qed
  qed
qed (auto split: option.splits)

lemma coalesce_loop_apart:
  assumes "by_offset w" "sorted_wrt (apart gap) rs"
    and "\<And>c. cur = Some c \<Longrightarrow> (\<forall>r \<in> set rs. apart gap r c) \<and> (\<forall>x \<in> set w. fst c \<le> fst x)"
    and "cur = None \<Longrightarrow> rs = []"
  shows "sorted_wrt (apart gap) (coalesce_loop gap w cur rs)"
  using assms
proof (induction gap w cur rs rule: coalesce_loop.induct)
  case (2 gap offs len d w cur rs)
  have s: "by_offset w" "\<forall>x \<in> set w. offs \<le> fst x" using 2(4) by (auto simp: by_offset_def)
  show ?case
  proof (cases cur)
    case None
    then show ?thesis using 2(1,5) s 2(7) by auto
  next
    case (Some c)
    obtain a b objs where c: "c = (a, b, objs)" by (cases c)
    have a: "\<forall>r \<in> set rs. apart gap r (a, b, objs)" "a \<le> offs" "\<forall>x \<in> set w. a \<le> fst x"
      using 2(6) [OF Some] c by auto
    show ?thesis
    proof (cases "offs - (b + 1) \<le> gap")
      case True
      then have "sorted_wrt (apart gap) (coalesce_loop gap w (Some (a, max b (offs + len - 1), objs @ [(offs - a, len, d)])) rs)"
        by (intro 2(2) [OF Some c [symmetric] refl True s(1) 2(5)]) (use a in \<open>auto simp: apart_def\<close>)
      then show ?thesis unfolding Some c using True by simp
    next
      case False
      then have "apart gap r (offs, x)" if "r \<in> set (rs @ [(a, b, objs)])" for r x
        using that a(1,2) by (auto simp: apart_def)
      then have "sorted_wrt (apart gap) (coalesce_loop gap w (Some (offs, offs + len - 1, [(0, len, d)])) (rs @ [(a, b, objs)]))"
        by (intro 2(3) [OF Some c [symmetric] refl False s(1)]) (use a s(2) 2(5) in \<open>auto simp: sorted_wrt_append\<close>)
      then show ?thesis unfolding Some c using False by simp
    qed
  qed
qed (auto split: option.splits simp: sorted_wrt_append)

text \<open>Objects that lie one after the other in the pack, from \<open>a\<close> up to \<open>b\<close>.\<close>

fun contiguous :: "int \<Rightarrow> want list \<Rightarrow> int \<Rightarrow> bool" where
  "contiguous a [] b \<longleftrightarrow> a = b"
| "contiguous a ((offs, len, _) # w) b \<longleftrightarrow> offs = a \<and> 0 \<le> len \<and> contiguous (a + len) w b"

lemma coalesce_loop_contiguous:
  "contiguous (fin + 1) w b \<Longrightarrow> 0 \<le> gap \<Longrightarrow> \<exists>objs'. coalesce_loop gap w (Some (a, fin, objs)) rs = rs @ [(a, b - 1, objs')]"
proof (induction w arbitrary: fin objs)
  case (Cons x w)
  obtain offs len d where x: "x = (offs, len, d)" by (cases x)
  have "contiguous (fin + len + 1) w b" using Cons.prems(1) x by (simp add: algebra_simps)
  then show ?case using Cons.IH [of "fin + len"] Cons.prems x by (simp add: algebra_simps)
qed simp

text \<open>A slice of a fetched range is the slice of the pack.\<close>

definition pack_slice :: "string \<Rightarrow> int \<Rightarrow> int \<Rightarrow> string" where
  "pack_slice pack a b = take (nat (b - a + 1)) (drop (nat a) pack)"

lemma slice_of_slice:
  assumes "range_ok (a, b, objs)" "(offs, len, d) \<in> set objs" "0 \<le> a" "0 \<le> len"
  shows "buf_read (pack_slice pack a b) offs len = buf_read pack (a + offs) len"
proof -
  have "0 \<le> offs" "offs + len \<le> b - a + 1" using assms(1,2) by (auto simp: range_ok_def)
  then have "drop (nat offs) (pack_slice pack a b) = take (nat (b - a + 1) - nat offs) (drop (nat (a + offs)) pack)"
    using assms(3) by (simp add: pack_slice_def drop_take nat_add_distrib add.commute)
  moreover have "nat len \<le> nat (b - a + 1) - nat offs" using \<open>offs + len \<le> b - a + 1\<close> \<open>0 \<le> offs\<close> by linarith
  ultimately show ?thesis using assms(4) by (simp add: buf_read_def min_def)
qed

end
