(* ===== verification/JsonRoundtrip.thy ===== *)
theory JsonRoundtrip
  imports Json
begin

text \<open>
  Reading back what \<open>json.dumps(x, indent=2)\<close> wrote gives the value written, for values
  with ASCII strings, distinct keys and no fractional numbers; the fuel of the parser is
  enough for it.
\<close>

definition ascii :: "string \<Rightarrow> bool" where
  "ascii s \<longleftrightarrow> list_all (\<lambda>c. code c < 128) s"

fun wf_json :: "json \<Rightarrow> bool" where
  "wf_json (JFloat s) = False"
| "wf_json (JStr s) = ascii s"
| "wf_json (JArr xs) = list_all wf_json xs"
| "wf_json (JObj kvs) = (distinct (map fst kvs) \<and> list_all (\<lambda>kv. ascii (fst kv) \<and> wf_json (snd kv)) kvs)"
| "wf_json _ = True"

section \<open>Strings\<close>

lemma hex_val_digit: "n < 16 \<Longrightarrow> hex_val (hex_digit n) = Some n"
proof -
  have "\<forall>n \<in> set [0..<16]. hex_val (hex_digit n) = Some n"
    unfolding hex_val_def hex_digit_def code_def by code_simp
  then show "n < 16 \<Longrightarrow> ?thesis" by simp
qed

lemma hex4_digits:
  assumes "n < 65536"
  shows "hex4 (hex_digit (n div 4096 mod 16)) (hex_digit (n div 256 mod 16))
     (hex_digit (n div 16 mod 16)) (hex_digit (n mod 16)) = Some n"
proof -
  have q: "n div 256 = n div 16 div 16" "n div 4096 = n div 16 div 16 div 16"
    by (simp_all only: div_mult2_eq [symmetric]) simp_all
  have "n div 4096 < 16" using assms by simp
  then have "n div 4096 mod 16 = n div 4096" by (rule mod_less)
  then have "n div 4096 mod 16 * 4096 + n div 256 mod 16 * 256 + n div 16 mod 16 * 16 + n mod 16 = n"
    using div_mult_mod_eq [of n 16] div_mult_mod_eq [of "n div 16" 16]
      div_mult_mod_eq [of "n div 16 div 16" 16] unfolding q by linarith
  moreover have "hex4 (hex_digit (n div 4096 mod 16)) (hex_digit (n div 256 mod 16))
     (hex_digit (n div 16 mod 16)) (hex_digit (n mod 16))
     = Some (n div 4096 mod 16 * 4096 + n div 256 mod 16 * 256 + n div 16 mod 16 * 16 + n mod 16)"
    by (simp only: hex4_def hex_val_digit mod_less_divisor zero_less_numeral prod.case option.case)
  ultimately show ?thesis by (simp only:)
qed

lemmas pstr_unfold = pstr.simps(2)
declare pstr.simps(2) [simp del]

lemma pstr_quote [simp]: "pstr (QUOTE # t) = Some ([], t)"
  by (simp add: pstr_unfold)

lemma pstr_plain: "c \<noteq> QUOTE \<Longrightarrow> c \<noteq> BACKSLASH \<Longrightarrow> 32 \<le> code c \<Longrightarrow> pstr (c # t) = prepend [c] (pstr t)"
  by (simp add: pstr_unfold)

lemma pstr_unesc: "d \<noteq> CHR ''u'' \<Longrightarrow> unesc d = Some x \<Longrightarrow> pstr (BACKSLASH # d # t) = prepend [x] (pstr t)"
  by (simp add: pstr_unfold)

lemma pstr_hex:
  "hex4 a b c d = Some n \<Longrightarrow> n < 55296 \<Longrightarrow>
   pstr (BACKSLASH # CHR ''u'' # a # b # c # d # t) = prepend (utf8 n) (pstr t)"
  by (subst pstr_unfold) (auto split: list.split option.split)

lemma pstr_u4: "n < 55296 \<Longrightarrow> pstr (u4 n @ r) = prepend (utf8 n) (pstr r)"
  unfolding u4_def append_Cons append_Nil by (rule pstr_hex [OF hex4_digits]) simp_all

lemma pstr_esc_ascii: 
  assumes "code c < 128"
  shows "pstr (esc_ascii c @ r) = prepend [c] (pstr r)"
proof -
  have "utf8 (code c) = [c]" using assms by (simp add: utf8_def code_def)
  moreover have "pstr (u4 (code c) @ r) = prepend (utf8 (code c)) (pstr r)"
    using assms by (intro pstr_u4) simp
  ultimately show ?thesis
    by (auto simp: esc_ascii_def unesc_def pstr_unesc pstr_plain)
qed

lemma pstr_esc: "ascii s \<Longrightarrow> pstr (esc s @ QUOTE # t) = Some (s, t)"
  by (induction s) (auto simp: ascii_def pstr_esc_ascii prepend_def)

section \<open>Numbers\<close>

lemma digit_char_0: "n < 10 \<Longrightarrow> digit_char n = CHR ''0'' \<longleftrightarrow> n = 0"
  using code_digit_char [of n] by (simp add: code_inject [symmetric]) (simp add: code_def)

lemma hd_show_nat: "hd (show_nat n) = CHR ''0'' \<longleftrightarrow> n = 0"
proof (induction n rule: show_nat.induct)
  case (1 n)
  show ?case
  proof (cases "n < 10")
    case True
    then show ?thesis by (subst show_nat.simps) (simp add: digit_char_0)
  next
    case False
    then show ?thesis using 1 by (subst show_nat.simps) (simp add: div_eq_0_iff)
  qed
qed

lemma show_0: "show_nat 0 = ''0''"
  using digit_char_0 [of 0] by (subst show_nat.simps) simp

definition num_end :: "string \<Rightarrow> bool" where
  "num_end t \<longleftrightarrow> t = [] \<or> (\<not> is_digit (hd t) \<and> hd t \<noteq> CHR ''.'' \<and> hd t \<noteq> CHR ''e'' \<and> hd t \<noteq> CHR ''E'')"

lemma pnum_abs_show:
  assumes "num_end t"
  shows "pnum_abs neg (show_nat n @ t) = Some (JInt (if neg then - int n else int n), t)"
proof -
  have dig: "\<forall>c \<in> set (show_nat n). is_digit c" using show_nat_digits by blast
  have tw: "takeWhile is_digit (show_nat n @ t) = show_nat n"
    using dig assms by (cases t) (auto simp: num_end_def intro: takeWhile_app_stop takeWhile_all_app)
  have z: "(if show_nat n \<noteq> [] \<and> hd (show_nat n) = CHR ''0'' then ''0'' else show_nat n) = show_nat n"
    using hd_show_nat [of n] show_0 by auto
  have fe: "frac_part t = []" "exp_part t = []"
    using assms by (auto simp: frac_part_def exp_part_def num_end_def split: list.split)
  show ?thesis
    by (simp only: pnum_abs_def Let_def tw z) (simp add: fe digits_val_show)
qed

lemma pnum_show_int: "num_end t \<Longrightarrow> pnum (show_int i @ t) = Some (JInt i, t)"
proof -
  assume t: "num_end t"
  have "hd (show_nat n) \<noteq> CHR ''-''" for n
    using show_nat_digits [of "hd (show_nat n)" n] by (auto simp: is_digit_def code_def)
  then show ?thesis using t
    by (auto simp: pnum_def show_int_def pnum_abs_show)
qed

declare pval.simps(2) [simp del] plist.simps(2) [simp del] pitems.simps(2) [simp del]

lemma pval_words:
  "pval (Suc n) (''null'' @ t) = Some (JNull, t)"
  "pval (Suc n) (''true'' @ t) = Some (JBool True, t)"
  "pval (Suc n) (''false'' @ t) = Some (JBool False, t)"
  by (subst pval.simps(2), simp add: startswith_def)+

lemma pval_empty:
  "pval (Suc n) (''[]'' @ t) = Some (JArr [], t)"
  "pval (Suc n) (''{}'' @ t) = Some (JObj [], t)"
  by (subst pval.simps(2), simp add: skip_ws_def is_jws_def code_def)+

section \<open>White space and the first character\<close>

lemma skip_nl [simp]: "skip_ws (nl l @ s) = skip_ws s"
  by (induction l) (auto simp: skip_ws_def nl_def is_jws_def code_def dropWhile_append)

lemma skip_id: "s = [] \<or> \<not> is_jws (hd s) \<Longrightarrow> skip_ws s = s"
  by (auto simp: skip_ws_def intro: dropWhile_hd)

lemma show_nat_head: "\<exists>c r. show_nat n = c # r \<and> is_digit c"
  using show_nat_nonempty [of n] show_nat_digits [of "hd (show_nat n)" n] by (cases "show_nat n") auto

lemma show_int_head: "\<exists>c r. show_int i = c # r \<and> (is_digit c \<or> (c = CHR ''-'' \<and> r \<noteq> [] \<and> is_digit (hd r)))"
  using show_nat_head [of "nat i"] show_nat_head [of "nat (- i)"] by (auto simp: show_int_def)

lemma dump_head: "wf_json j \<Longrightarrow> \<exists>c r. dump l j = c # r \<and> \<not> is_jws c \<and> c \<noteq> CHR '']'' \<and> c \<noteq> CHR ''}''"
proof (cases j)
  case (JInt i)
  then show ?thesis using show_int_head [of i] by (auto simp: is_digit_def is_jws_def code_def)
qed (auto simp: dump_str_def is_jws_def code_def)

lemma skip_dump [simp]: "wf_json j \<Longrightarrow> skip_ws (dump l j @ s) = dump l j @ s"
  using dump_head [of j l] by (auto intro: skip_id)

section \<open>Fuel\<close>

fun need :: "json \<Rightarrow> nat" where
  "need (JArr xs) = Suc (sum_list (map (\<lambda>x. Suc (need x)) xs))"
| "need (JObj kvs) = Suc (sum_list (map (\<lambda>kv. Suc (need (snd kv))) kvs))"
| "need _ = 1"

lemma need_dump:
  "wf_json j \<Longrightarrow> need j \<le> length (dump l j)"
  "list_all wf_json xs \<Longrightarrow> sum_list (map (\<lambda>x. Suc (need x)) xs) \<le> Suc (length (dump_list l xs))"
  "list_all (\<lambda>kv. ascii (fst kv) \<and> wf_json (snd kv)) kvs \<Longrightarrow>
     sum_list (map (\<lambda>kv. Suc (need (snd kv))) kvs) \<le> Suc (length (dump_items l kvs))"
proof (induction l j and l xs and l kvs rule: dump_dump_list_dump_items.induct)
  case (3 l i)
  then show ?case using show_int_head [of i] by auto
qed (auto simp: nl_def dump_str_def)

lemma dict_of_distinct:
  "distinct (map fst (acc @ kvs)) \<Longrightarrow> foldl (\<lambda>d (k, v). AList.update k v d) acc kvs = acc @ kvs"
proof (induction kvs arbitrary: acc)
  case (Cons a kvs)
  obtain k v where a: "a = (k, v)" by fastforce
  have "k \<notin> fst ` set acc" using Cons.prems a by auto
  then have "AList.update k v acc = acc @ [(k, v)]"
    by (induction acc) auto
  with Cons a show ?case by simp
qed simp

section \<open>The round trip\<close>

lemma num_end_sep: "num_end (CHR '','' # t)" "num_end (nl l @ t)" "num_end []"
  by (auto simp: num_end_def is_digit_def code_def nl_def)

lemma num_end_nl: "num_end (nl l)"
  using num_end_sep(2) [of l "[]"] by simp

lemma pval_dump_str: "ascii s \<Longrightarrow> pval (Suc n) (dump_str s @ t) = Some (JStr s, t)"
  by (simp add: dump_str_def pval.simps(2) pstr_esc)

lemma pval_int: "num_end t \<Longrightarrow> pval (Suc n) (show_int i @ t) = Some (JInt i, t)"
proof -
  assume t: "num_end t"
  obtain c r where cr: "show_int i = c # r" "is_digit c \<or> (c = CHR ''-'' \<and> r \<noteq> [] \<and> is_digit (hd r))"
    using show_int_head by blast
  have no: "d \<in> {QUOTE, CHR ''{'', CHR ''['', CHR ''n'', CHR ''t'', CHR ''f'', CHR ''N'', CHR ''I''} \<Longrightarrow> \<not> is_digit d" for d
    by (auto simp: is_digit_def code_def)
  have "pval (Suc n) (show_int i @ t) = pnum (show_int i @ t)"
  proof (cases "c = CHR ''-''")
    case True
    then obtain d r' where r: "r = d # r'" "is_digit d"
      using cr no by (cases r) (auto simp: is_digit_def code_def)
    then have "d \<noteq> CHR ''I''" using no by auto
    with True r cr(1) show ?thesis by (subst pval.simps(2)) (simp add: startswith_def)
  next
    case False
    then have "is_digit c" using cr(2) by blast
    then have "c \<notin> {QUOTE, CHR ''{'', CHR ''['', CHR ''n'', CHR ''t'', CHR ''f'', CHR ''N'', CHR ''I''}"
      using no by blast
    with False cr(1) show ?thesis by (subst pval.simps(2)) (simp add: startswith_def)
  qed
  with t show ?thesis by (simp add: pnum_show_int)
qed

lemma dump_list_head:
  assumes "list_all wf_json xs" "xs \<noteq> []"
  shows "skip_ws (dump_list l xs @ s) = dump_list l xs @ s"
    and "dump_list l xs @ s \<noteq> []" "hd (dump_list l xs @ s) \<noteq> CHR '']''"
proof -
  obtain x ys where xs: "xs = x # ys" using assms(2) by (cases xs) auto
  then obtain c r where "dump l x = c # r" "\<not> is_jws c" "c \<noteq> CHR '']''"
    using assms(1) dump_head [of x l] by auto
  then show "skip_ws (dump_list l xs @ s) = dump_list l xs @ s"
    "dump_list l xs @ s \<noteq> []" "hd (dump_list l xs @ s) \<noteq> CHR '']''"
    by (auto simp: xs intro!: skip_id)
qed

lemma dump_items_head:
  "kvs \<noteq> [] \<Longrightarrow> \<exists>r. dump_items l kvs @ s = QUOTE # r"
  by (cases kvs) (auto simp: dump_str_def)

lemma dump_items_skip:
  "kvs \<noteq> [] \<Longrightarrow> skip_ws (dump_items l kvs @ s) = dump_items l kvs @ s"
  using dump_items_head [of kvs l s] by (auto simp: is_jws_def code_def intro!: skip_id)

lemma skip_nonspace: "\<not> is_jws c \<Longrightarrow> skip_ws (c # s) = c # s"
  by (simp add: skip_id)

lemma jws_chars: "\<not> is_jws (CHR '']'')" "\<not> is_jws (CHR ''}'')" "\<not> is_jws (CHR '','')" "\<not> is_jws (CHR '':'')"
    "is_jws (CHR '' '')"
  by (simp_all add: is_jws_def code_def)

lemma skip_blank: "skip_ws (CHR '' '' # s) = skip_ws s"
  by (simp add: skip_ws_def jws_chars)

lemma pval_dump:
  "wf_json j \<Longrightarrow> need j \<le> n \<Longrightarrow> num_end t \<Longrightarrow> pval n (dump l j @ t) = Some (j, t)"
  "list_all wf_json xs \<Longrightarrow> xs \<noteq> [] \<Longrightarrow> sum_list (map (\<lambda>x. Suc (need x)) xs) \<le> n \<Longrightarrow>
     plist n (dump_list l xs @ nl m @ CHR '']'' # t) = Some (xs, t)"
  "list_all (\<lambda>kv. ascii (fst kv) \<and> wf_json (snd kv)) kvs \<Longrightarrow> kvs \<noteq> [] \<Longrightarrow>
     sum_list (map (\<lambda>kv. Suc (need (snd kv))) kvs) \<le> n \<Longrightarrow>
     pitems n (dump_items l kvs @ nl m @ CHR ''}'' # t) = Some (kvs, t)"
proof (induction l j and l xs and l kvs arbitrary: n t and n t m and n t m
    rule: dump_dump_list_dump_items.induct)
  case (6 l xs)
  show ?case
  proof (cases "xs = []")
    case True
    then show ?thesis using 6 pval_empty(1) by (auto simp: Suc_le_eq gr0_conv_Suc)
  next
    case False
    obtain k where n: "n = Suc k" using 6(3) by (cases n) auto
    let ?r = "dump_list (Suc l) xs @ nl l @ CHR '']'' # t"
    have "plist k ?r = Some (xs, t)"
      using 6 False n by (intro 6(1)) auto
    moreover note dump_list_head [of xs "Suc l" "nl l @ CHR '']'' # t"]
    ultimately show ?thesis using 6(2) False n
      by (simp add: pval.simps(2))
  qed
next
  case (7 l kvs)
  show ?case
  proof (cases "kvs = []")
    case True
    then show ?thesis using 7 pval_empty(2) by (auto simp: Suc_le_eq gr0_conv_Suc)
  next
    case False
    obtain k where n: "n = Suc k" using 7(3) by (cases n) auto
    let ?r = "dump_items (Suc l) kvs @ nl l @ CHR ''}'' # t"
    have "pitems k ?r = Some (kvs, t)"
      using 7 False n by (intro 7(1)) auto
    moreover have "dict_of kvs = kvs"
      using 7(2) dict_of_distinct [of "[]" kvs] by (simp add: dict_of_def)
    moreover obtain r where "?r = QUOTE # r" using dump_items_head [OF False] by blast
    moreover have "skip_ws ?r = ?r" by (rule dump_items_skip [OF False])
    ultimately show ?thesis using False n
      by (simp add: pval.simps(2))
  qed
next
  case (9 l x xs)
  obtain k where n: "n = Suc k" using 9(5) by (cases n) auto
  let ?e = "nl m @ CHR '']'' # t"
  let ?s = "if xs = [] then ?e else CHR '','' # nl l @ dump_list l xs @ ?e"
  have "pval k (dump l x @ ?s) = Some (x, ?s)"
    using 9(3,5) n by (intro 9(1)) (auto simp: num_end_sep)
  moreover have "xs \<noteq> [] \<Longrightarrow> plist k (dump_list l xs @ ?e) = Some (xs, t)"
    using 9(3,5) n by (intro 9(2)) auto
  moreover have "xs \<noteq> [] \<Longrightarrow> skip_ws (dump_list l xs @ ?e) = dump_list l xs @ ?e"
    using 9(3) by (intro dump_list_head) auto
  ultimately show ?case unfolding n
    by (cases "xs = []") (simp_all add: plist.simps(2) skip_nonspace jws_chars)
next
  case (11 l k v kvs)
  obtain j where n: "n = Suc j" using 11(5) by (cases n) auto
  let ?e = "nl m @ CHR ''}'' # t"
  let ?s = "if kvs = [] then ?e else CHR '','' # nl l @ dump_items l kvs @ ?e"
  have "pval j (dump l v @ ?s) = Some (v, ?s)"
    using 11(3,5) n by (intro 11(1)) (auto simp: num_end_sep)
  moreover have "kvs \<noteq> [] \<Longrightarrow> pitems j (dump_items l kvs @ ?e) = Some (kvs, t)"
    using 11(3,5) n by (intro 11(2)) auto
  moreover have "kvs \<noteq> [] \<Longrightarrow> skip_ws (dump_items l kvs @ ?e) = dump_items l kvs @ ?e"
    by (rule dump_items_skip)
  moreover have "pstr (esc k @ QUOTE # '': '' @ dump l v @ ?s) = Some (k, '': '' @ dump l v @ ?s)"
    using 11(3) by (intro pstr_esc) simp
  moreover have "skip_ws (dump l v @ ?s) = dump l v @ ?s"
    using 11(3) by (intro skip_dump) simp
  ultimately show ?case unfolding n
    by (cases "kvs = []") (simp_all add: pitems.simps(2) dump_str_def skip_nonspace skip_blank jws_chars)
qed (auto simp: Suc_le_eq gr0_conv_Suc pval_int pval_dump_str pval_words [simplified])

theorem loads_dumps: "wf_json j \<Longrightarrow> loads (dumps j @ [NL]) = Some j"
proof -
  assume j: "wf_json j"
  let ?s = "dumps j @ [NL]"
  have "pval (2 * length ?s + 1) (dump 0 j @ nl 0) = Some (j, nl 0)"
    using j need_dump(1) [OF j, of 0] by (intro pval_dump) (auto simp: dumps_def num_end_nl)
  moreover have "nl 0 = [NL]" by (simp add: nl_def)
  moreover have "skip_ws ?s = ?s" using j by (simp add: dumps_def)
  moreover have "skip_ws [NL] = []" by (simp add: skip_ws_def is_jws_def code_def)
  ultimately show ?thesis by (simp add: loads_def dumps_def)
qed

end
