(* ===== verification/Layout.thy ===== *)
theory Layout
  imports Oci JsonRoundtrip
begin

text \<open>
  \<open>zerith/layout.py\<close>: deployment directories, the role links, the per-deployment metadata,
  the update channel, and atomic copies onto the ESP.
\<close>

section \<open>Deployment directories and roles\<close>

definition deploy_dir :: "path \<Rightarrow> string \<Rightarrow> path" where
  "deploy_dir deploy did = pjoin deploy did"

definition shared_objects :: "path \<Rightarrow> path" where
  "shared_objects deploy = pjoin (pjoin deploy ''shared'') ''objects''"

definition read_role :: "path \<Rightarrow> string \<Rightarrow> string option proc" where
  "read_role deploy role =
     (let link = pjoin deploy role in
      bnd (gets (\<lambda>f. is_symlink f link)) (\<lambda>s.
      if \<not> s then ret None
      else bnd (reads (readlink1 link)) (\<lambda>t. ret (Some (basename t)))))"

definition role_tmp :: "path \<Rightarrow> string \<Rightarrow> path" where
  "role_tmp deploy role = pjoin deploy (CHR ''.'' # role @ ''.tmp'')"

definition set_role :: "path \<Rightarrow> string \<Rightarrow> string \<Rightarrow> unit proc" where
  "set_role deploy role did =
     (let link = pjoin deploy role; tmp = role_tmp deploy role in
      bnd (asks dry_run) (\<lambda>dry.
      if dry then log (''[dry-run] ln -sfn '' @ did @ '' '' @ path_str link)
      else
        bnd (gets (\<lambda>f. is_symlink f tmp \<or> path_exists f tmp)) (\<lambda>stale. steps
          [if_do stale (os_unlink tmp),
           os_symlink did tmp,
           os_replace tmp link,
           vlog (''role '' @ role @ '' -> '' @ did)])))"

definition clear_role :: "path \<Rightarrow> string \<Rightarrow> unit proc" where
  "clear_role deploy role =
     (let link = pjoin deploy role in
      bnd (asks dry_run) (\<lambda>dry.
      if dry then log (''[dry-run] rm -f '' @ path_str link)
      else
        bnd (gets (\<lambda>f. is_symlink f link \<or> path_exists f link)) (\<lambda>there.
          if_do there (steps [os_unlink link, vlog (''role '' @ role @ '' cleared'')]))))"

section \<open>Metadata\<close>

text \<open>The dictionary \<open>write_meta\<close> builds; the first accessor that fails raises.\<close>

definition opt_str :: "string option \<Rightarrow> json" where
  "opt_str r = (case r of None \<Rightarrow> JNull | Some s \<Rightarrow> JStr s)"

definition build_meta :: "source \<Rightarrow> string \<Rightarrow> exn + json" where
  "build_meta src t =
     (case (src_deploy_id src, src_version src, src_digest src, src_objects_ref src,
            src_objects_pack src, src_objects_index src) of
        (Inl x, _, _, _, _, _) \<Rightarrow> Inl x
      | (_, Inl x, _, _, _, _) \<Rightarrow> Inl x
      | (_, _, Inl x, _, _, _) \<Rightarrow> Inl x
      | (_, _, _, Inl x, _, _) \<Rightarrow> Inl x
      | (_, _, _, _, Inl x, _) \<Rightarrow> Inl x
      | (_, _, _, _, _, Inl x) \<Rightarrow> Inl x
      | (Inr did, Inr ver, Inr dg, Inr oref, Inr opack, Inr oidx) \<Rightarrow>
          Inr (JObj
            [(''schema'', JInt META_SCHEMA),
             (''deploy_id'', JStr did),
             (''version'', ver),
             (''composefs_digest'', dg),
             (''objects_ref'', oref),
             (''objects_pack'', opack),
             (''objects_index'', oidx),
             (''ref'', opt_str (src_ref src)),
             (''deployed_at'', JStr t)]))"

definition write_meta :: "path \<Rightarrow> source \<Rightarrow> unit proc" where
  "write_meta ddir src =
     bnd now (\<lambda>t.
     bnd (lift (build_meta src t)) (\<lambda>m.
     let p = pjoin ddir META_NAME in
     bnd (asks dry_run) (\<lambda>dry.
     if dry then steps [log (''[dry-run] write '' @ path_str p), vlog (dumps m)]
     else steps [write_text p (dumps m @ [NL]), vlog (''wrote '' @ path_str p)])))"

text \<open>\<open>except (OSError, ValueError): return {}\<close>\<close>

definition load_meta :: "path \<Rightarrow> string option \<Rightarrow> json proc" where
  "load_meta deploy did =
     (case did of
        None \<Rightarrow> ret (JObj [])
      | Some i \<Rightarrow>
          if i = [] then ret (JObj [])
          else try_except
            (bnd (read_text (pjoin (deploy_dir deploy i) META_NAME)) (\<lambda>s.
               case loads s of Some j \<Rightarrow> ret j | None \<Rightarrow> raise ValueErr))
            (\<lambda>x. if is_oserror x \<or> x = ValueErr then ret (JObj []) else raise x))"

section \<open>Update channel\<close>

text \<open>The value under \<open>ref\<close>, \<open>None\<close> when the file is absent, unreadable or has no \<open>ref\<close>.\<close>

definition read_source :: "path \<Rightarrow> json option proc" where
  "read_source config_path =
     try_except
       (bnd (read_text config_path) (\<lambda>s.
          case loads s of
            Some j \<Rightarrow> bnd (lift (meta_get j ''ref'')) (\<lambda>v. ret (if v = Some JNull then None else v))
          | None \<Rightarrow> raise ValueErr))
       (\<lambda>x. if is_oserror x \<or> x = ValueErr then ret None else raise x)"

definition write_source :: "path \<Rightarrow> string \<Rightarrow> unit proc" where
  "write_source config_path ref =
     bnd now (\<lambda>t.
     let data = JObj [(''schema'', JInt CONFIG_SCHEMA), (''ref'', JStr ref), (''updated_at'', JStr t)] in
     bnd (asks dry_run) (\<lambda>dry.
     if dry then log (''[dry-run] write '' @ path_str config_path @ '' (ref='' @ ref @ '')'')
     else
       (let tmp = butlast config_path @ [last config_path @ ''.tmp''] in
        steps
          [mkdirs (butlast config_path),
           write_text tmp (dumps data @ [NL]),
           os_replace tmp config_path,
           vlog (''update channel -> '' @ ref)])))"

section \<open>The ESP\<close>

definition esp_uki :: "path \<Rightarrow> string \<Rightarrow> path" where
  "esp_uki esp role = pjoin (pjoin esp ''zerith'') (role @ ''.efi'')"

definition esp_limine :: "path \<Rightarrow> path" where
  "esp_limine esp = pjoin (pjoin (pjoin esp ''EFI'') ''BOOT'') BOOTLOADER_NAME"

definition copy_tmp :: "path \<Rightarrow> path" where
  "copy_tmp dst = butlast dst @ [CHR ''.'' # last dst @ ''.tmp'']"

definition atomic_copy :: "path \<Rightarrow> path \<Rightarrow> unit proc" where
  "atomic_copy src dst =
     bnd (asks dry_run) (\<lambda>dry.
     if dry then log (''[dry-run] cp '' @ path_str src @ '' -> '' @ path_str dst)
     else
       (let tmp = copy_tmp dst in
        steps
          [mkdirs (butlast dst),
           copy2 src tmp,
           os_replace tmp dst,
           vlog (''copied '' @ path_str src @ '' -> '' @ path_str dst)]))"

section \<open>Disk invariants\<close>

context disk_invariant
begin

lemma keeps_layout [tr_rules]:
  "keeps e I (read_role d r)" "keeps e I (set_role d r i)" "keeps e I (clear_role d r)"
  "keeps e I (write_meta d s)" "keeps e I (load_meta d j)" "keeps e I (read_source p)"
  "keeps e I (write_source p ref)" "keeps e I (atomic_copy p q)"
  unfolding read_role_def set_role_def clear_role_def write_meta_def load_meta_def read_source_def
    write_source_def atomic_copy_def Let_def
  by (auto intro!: tr_rules)

end

section \<open>Names\<close>

lemma plain_consts [simp]:
  "plain_name ''shared''" "plain_name ''objects''" "plain_name ''zerith''" "plain_name ''EFI''"
  "plain_name ''BOOT''" "plain_name UKI_NAME" "plain_name CFS_NAME" "plain_name META_NAME"
  "plain_name BOOTLOADER_NAME" "plain_name SOURCE_CONF_NAME" "plain_name LOCK_NAME"
  by (simp_all add: plain_name_def const_names)

lemma plain_roles: "r \<in> set ROLES \<Longrightarrow> plain_name r"
  by (auto simp: ROLES_def plain_name_def)

lemma plain_role_tmp: "r \<in> set ROLES \<Longrightarrow> plain_name (CHR ''.'' # r @ ''.tmp'')"
  by (auto simp: ROLES_def plain_name_def)

lemma role_tmp_path: "r \<in> set ROLES \<Longrightarrow> role_tmp d r = d @ [CHR ''.'' # r @ ''.tmp'']"
  unfolding role_tmp_def by (rule pjoin_plain [OF plain_role_tmp])

lemma shared_objects_path: "shared_objects d = d @ [''shared'', ''objects'']"
  by (simp add: shared_objects_def)

end
