(* ===== verification/Objects.thy ===== *)
theory Objects
  imports Ranges Layout
begin

text \<open>
  \<open>zerith/objects.py\<close>: landing objects in the shared store, linking a deployment's
  objects into its holder directory, and sweeping the objects no holder names. The jobs of
  the thread pool are run in the order the environment completes them, then their results
  are handled in that order: one of the interleavings the code allows, and the one in which
  every download has ended before the first result is looked at.
\<close>

section \<open>Placing one object\<close>

definition place_object :: "path \<Rightarrow> path \<Rightarrow> string \<Rightarrow> bool proc" where
  "place_object tmp shared rel =
     (let dest = pjoin shared rel in
      bnd (gets (\<lambda>f. path_exists f dest)) (\<lambda>there.
      if there then ret False
      else
        bnd (measure_file tmp) (\<lambda>got.
        bnd (steps
          [if_do (got \<noteq> no_slash rel) (die (''object digest mismatch: '' @ rel @ '' (measured '' @ got @ '')'')),
           mkdirs (butlast dest),
           os_replace tmp dest,
           enable_verity dest]) (\<lambda>_.
        ret True))))"

section \<open>The objects a deployment references\<close>

definition referenced_objects :: "path \<Rightarrow> string list proc" where
  "referenced_objects root_cfs =
     bnd (run_out [''composefs-info'', ''dump'', path_str root_cfs]) (\<lambda>dump.
     bnd (asks set_order) (\<lambda>order.
     ret (order (remdups (map rel_for_digest (find_digests False dump))))))"

definition link_one :: "path \<Rightarrow> path \<Rightarrow> string \<Rightarrow> int \<times> progress \<Rightarrow> (int \<times> progress) proc" where
  "link_one shared holder rel st =
     (case st of (linked, prog) \<Rightarrow>
       let src = pjoin shared rel; dst = pjoin holder rel in
       bnd (gets (\<lambda>f. is_file f src)) (\<lambda>there.
       if \<not> there then ret (linked, prog)
       else
         bnd (mkdirs (butlast dst)) (\<lambda>_.
         bnd (try_except (bnd (os_link src dst) (\<lambda>_. ret (linked + 1)))
               (\<lambda>x. if x = OSErr EEXIST dst then ret linked else raise x)) (\<lambda>linked'.
         bnd (progress_update 0 prog) (\<lambda>prog'.
         ret (linked', prog'))))))"

definition link_holder :: "path \<Rightarrow> path \<Rightarrow> path \<Rightarrow> unit proc" where
  "link_holder shared holder root_cfs =
     bnd (require_tool ''composefs-info'') (\<lambda>_.
     bnd (mkdirs holder) (\<lambda>_.
     bnd (referenced_objects root_cfs) (\<lambda>refs.
     bnd (progress_new (int (length refs)) ''linking'') (\<lambda>prog.
     bnd (for_acc (link_one shared holder) refs (0, prog)) (\<lambda>(linked, prog').
     progress_finish prog' (''holder: linked '' @ show_int linked @ '' object(s) for this deployment''))))))"

section \<open>Landing from a local tree\<close>

definition rel_str :: "path \<Rightarrow> path \<Rightarrow> string" where
  "rel_str base p = join ''/'' (drop (length base) p)"

definition dot_tmp :: "string \<Rightarrow> string" where
  "dot_tmp nm = CHR ''.'' # nm @ ''.tmp''"

definition land_file :: "path \<Rightarrow> path \<Rightarrow> path \<Rightarrow> int \<Rightarrow> int proc" where
  "land_file src_objects shared fp count =
     (let rel = rel_str src_objects fp; dest = pjoin shared rel in
      bnd (gets (\<lambda>f. path_exists f dest)) (\<lambda>there.
      if there then ret count
      else
        bnd (asks dry_run) (\<lambda>dry.
        if dry then bnd (log (''[dry-run] place object '' @ rel)) (\<lambda>_. ret count)
        else
          (let tmp = pjoin (butlast dest) (dot_tmp (last fp)) in
           bnd (mkdirs (butlast dest)) (\<lambda>_.
           bnd (copy2 fp tmp) (\<lambda>_.
           bnd (place_object tmp shared rel) (\<lambda>new.
           ret (if new then count + 1 else count))))))))"

definition land_from_dir :: "path \<Rightarrow> path \<Rightarrow> unit proc" where
  "land_from_dir src_objects shared =
     bnd (gets (\<lambda>f. walk_files f src_objects)) (\<lambda>files.
     bnd (for_acc (land_file src_objects shared) files 0) (\<lambda>count.
     vlog (''landed '' @ show_int count @ '' new object(s) from '' @ path_str src_objects)))"

section \<open>Landing from the pack\<close>

definition decoded :: "bool \<Rightarrow> string \<Rightarrow> string proc" where
  "decoded gz raw = bnd (asks gunzip) (\<lambda>unz.
     if gz then (case unz raw of Some b \<Rightarrow> ret b | None \<Rightarrow> raise (OSErr EINVAL [])) else ret raw)"

definition fetch_index :: "string \<Rightarrow> json \<Rightarrow> (string \<times> int \<times> int) list proc" where
  "fetch_index repo idx_meta =
     bnd (lift (meta_item idx_meta ''digest'')) (\<lambda>digest.
     bnd (mkdtemp ''zerith-idx-'') (\<lambda>stg.
     try_finally
       (let out = pjoin stg ''index'' in
        bnd (run_out [''oras'', ''blob'', ''fetch'', repo @ ''@'' @ json_str digest, ''--output'', path_str out]) (\<lambda>_.
        bnd (read_bytes out) (\<lambda>raw.
        bnd (lift (meta_get idx_meta ''encoding'')) (\<lambda>enc.
        bnd (decoded (enc = Some (JStr ''gzip'')) raw) (\<lambda>text.
        if utf8_ok text then lift (parse_index text) else raise ValueErr)))))
       (rmtree_quiet stg)))"

definition range_cmd :: "string \<Rightarrow> string \<Rightarrow> json \<Rightarrow> int \<Rightarrow> int \<Rightarrow> path \<Rightarrow> string option \<Rightarrow> bool \<Rightarrow> string list" where
  "range_cmd registry repo_path blob_digest start fin out_path auth show_progress =
     (let url = ''https://'' @ registry @ ''/v2/'' @ repo_path @ ''/blobs/'' @ json_str blob_digest in
      [''curl'', ''-fL'', ''--retry'', ''3'', ''--retry-delay'', ''1'',
       ''-H'', ''Range: bytes='' @ show_int start @ ''-'' @ show_int fin]
      @ (if show_progress then [''--progress-bar''] else [''-sS''])
      @ (case auth of Some a \<Rightarrow> if a = [] then [] else [''-H'', a] | None \<Rightarrow> [])
      @ [''-o'', path_str out_path, url])"

definition fetch_range ::
  "string \<Rightarrow> string \<Rightarrow> json \<Rightarrow> int \<Rightarrow> int \<Rightarrow> path \<Rightarrow> string option \<Rightarrow> bool \<Rightarrow> path proc" where
  "fetch_range registry repo_path blob_digest start fin out_path auth show_progress =
     bnd (run (range_cmd registry repo_path blob_digest start fin out_path auth show_progress) (\<not> show_progress) True) (\<lambda>_.
     bnd (read_bytes out_path) (\<lambda>b.
     let got = int (length b); wanted = fin - start + 1 in
     bnd (if_do (got \<noteq> wanted) (die (''range fetch returned '' @ show_int got @ '' bytes, expected ''
            @ show_int wanted @ '' (registry may not honor Range on '' @ json_str blob_digest @ '')''))) (\<lambda>_.
     ret out_path)))"

text \<open>The temporary file is opened, hence emptied, before the buffer is read.\<close>

definition copy_slice :: "string \<Rightarrow> int \<Rightarrow> int \<Rightarrow> path \<Rightarrow> unit proc" where
  "copy_slice buf offs len tmp = (case buf_read buf offs len of
     Inr data \<Rightarrow> write_text tmp data
   | Inl x \<Rightarrow> bnd (write_text tmp []) (\<lambda>_. raise x))"

definition place_slice :: "string \<Rightarrow> path \<Rightarrow> want \<Rightarrow> int \<Rightarrow> int proc" where
  "place_slice buf shared obj new =
     (case obj of (rel_off, len, digest) \<Rightarrow>
       let rel = rel_for_digest digest; dest = pjoin shared rel in
       bnd (gets (\<lambda>f. path_exists f dest)) (\<lambda>there.
       if there then ret new
       else
         bnd (lift (seek_ok rel_off)) (\<lambda>_.
         bnd (mkdirs (butlast dest)) (\<lambda>_.
         let tmp = pjoin (butlast dest) (dot_tmp digest) in
         bnd (copy_slice buf rel_off len tmp) (\<lambda>_.
         bnd (place_object tmp shared rel) (\<lambda>placed.
         ret (if placed then new + 1 else new)))))))"

definition place_from_buffer :: "path \<Rightarrow> want list \<Rightarrow> path \<Rightarrow> int proc" where
  "place_from_buffer buf_path objs shared =
     bnd (read_bytes buf_path) (\<lambda>buf. for_acc (place_slice buf shared) objs 0)"

definition missing_step :: "path \<Rightarrow> (string \<times> int \<times> int) list \<Rightarrow> string
    \<Rightarrow> want list \<times> int \<times> int \<Rightarrow> (want list \<times> int \<times> int) proc" where
  "missing_step shared index rel st =
     (case st of (want, inlined, present) \<Rightarrow>
       bnd (gets (\<lambda>f. path_exists f (pjoin shared rel))) (\<lambda>there.
       if there then ret (want, inlined, present + 1)
       else
         (let digest = no_slash rel in
          case map_of index digest of
            None \<Rightarrow> ret (want, inlined + 1, present)
          | Some (offs, len) \<Rightarrow> ret (want @ [(offs, len, digest)], inlined, present))))"

definition missing_objects ::
  "source \<Rightarrow> path \<Rightarrow> (string \<times> int \<times> int) list \<Rightarrow> (want list \<times> int \<times> int) proc" where
  "missing_objects src shared index =
     bnd (referenced_objects (src_root_cfs src)) (\<lambda>refs.
     bnd (for_acc (missing_step shared index) refs ([], 0, 0)) (\<lambda>(want, inlined, present).
     ret (sort_want want, inlined, present)))"

text \<open>A pool job: its exception is kept in the future.\<close>

definition attempt :: "'a proc \<Rightarrow> (exn + 'a) proc" where
  "attempt m e w = (case m e w of (r, w') \<Rightarrow> (Inr r, w'))"

fun collect :: "('a \<Rightarrow> 'b proc) \<Rightarrow> 'a list \<Rightarrow> 'b list proc" where
  "collect m [] = ret []"
| "collect m (x # xs) = bnd (m x) (\<lambda>y. bnd (collect m xs) (\<lambda>ys. ret (y # ys)))"

definition place_range :: "path \<Rightarrow> http_range \<times> (exn + path) \<Rightarrow> int \<times> progress \<Rightarrow> (int \<times> progress) proc" where
  "place_range shared job st =
     (case (job, st) of (((start, fin, objs), res), (new, prog)) \<Rightarrow>
       bnd (lift res) (\<lambda>buf_path.
       bnd (place_from_buffer buf_path objs shared) (\<lambda>k.
       bnd (try_except (os_unlink buf_path)
             (\<lambda>x. if x = OSErr ENOENT buf_path then ret () else raise x)) (\<lambda>_.
       bnd (progress_update (fin - start + 1) prog) (\<lambda>prog'.
       ret (new + k, prog'))))))"

definition summary :: "int \<Rightarrow> int \<Rightarrow> int \<Rightarrow> int \<Rightarrow> progress \<Rightarrow> unit proc" where
  "summary present new nranges jobs prog =
     bnd (elapsed prog) (\<lambda>t1. bnd (elapsed prog) (\<lambda>t2.
     progress_finish prog (''objects: '' @ show_int present @ '' already present, ''
       @ show_int new @ '' fetched ('' @ show_int (present + new) @ '' needed via ''
       @ show_int nranges @ '' range request(s), '' @ show_int jobs @ ''-way); ''
       @ human_bytes (of_int (p_nbytes prog)) @ '' in '' @ fixed1 t1 @ ''s (''
       @ human_bytes (of_int (p_nbytes prog) / t2) @ ''/s)'')))"

text \<open>One job of the pool, and the body of the landing once the ranges are known.\<close>

definition range_job ::
  "string \<Rightarrow> string \<Rightarrow> json \<Rightarrow> http_range list \<Rightarrow> path \<Rightarrow> string option \<Rightarrow> bool \<Rightarrow> nat \<Rightarrow> (http_range \<times> (exn + path)) proc" where
  "range_job registry repo_path pack_digest ranges stg auth show_progress i =
     (case ranges ! i of (start, fin, objs) \<Rightarrow>
       bnd (attempt (fetch_range registry repo_path pack_digest start fin
             (pjoin stg (CHR ''r'' # show_nat i)) auth show_progress)) (\<lambda>res.
       ret ((start, fin, objs), res)))"

definition fetch_and_place ::
  "string \<Rightarrow> string \<Rightarrow> json \<Rightarrow> http_range list \<Rightarrow> path \<Rightarrow> int \<Rightarrow> string option \<Rightarrow> path \<Rightarrow> unit proc" where
  "fetch_and_place registry repo_path pack_digest ranges shared present auth stg =
     bnd (asks FETCH_JOBS) (\<lambda>fetch_jobs.
     let jobs = max 1 (min fetch_jobs (int (length ranges))) in
     bnd (asks (\<lambda>e. length ranges = 1 \<and> tty e)) (\<lambda>show_progress.
     bnd (progress_new (int (length ranges)) ''objects'') (\<lambda>prog.
     bnd (asks (\<lambda>e. done_order e (length ranges))) (\<lambda>order.
     bnd (collect (range_job registry repo_path pack_digest ranges stg auth show_progress) order) (\<lambda>results.
     bnd (for_acc (place_range shared) results (0, prog)) (\<lambda>st.
     summary present (fst st) (int (length ranges)) jobs (snd st)))))))"

definition land_pack_by_range :: "string \<Rightarrow> json \<Rightarrow> want list \<Rightarrow> path \<Rightarrow> int \<Rightarrow> unit proc" where
  "land_pack_by_range repo pack_digest want shared present =
     bnd (require_tool ''curl'') (\<lambda>_.
     bnd (asks COALESCE_GAP) (\<lambda>gap.
     let ranges = coalesce_ranges want gap; span = range_span ranges in
     bnd (asks dry_run) (\<lambda>dry.
     if dry then
       log (''[dry-run] '' @ show_int (int (length want)) @ '' object(s) via '' @ show_int (int (length ranges))
         @ '' range request(s), ~'' @ human_bytes (of_int span) @ '' from '' @ json_str pack_digest)
     else
       bnd (registry_auth_header repo) (\<lambda>auth.
       case split1 (CHR ''/'') repo of
         [registry, repo_path] \<Rightarrow>
           bnd (mkdtemp ''zerith-pack-'') (\<lambda>stg.
           try_finally (fetch_and_place registry repo_path pack_digest ranges shared present auth stg)
             (rmtree_quiet stg))
       | _ \<Rightarrow> raise ValueErr))))"

definition land_from_pack :: "source \<Rightarrow> path \<Rightarrow> unit proc" where
  "land_from_pack src shared =
     bnd (steps [require_tool ''oras'', require_tool ''composefs-info'', require_tool ''curl'']) (\<lambda>_.
     bnd (lift (src_objects_ref src)) (\<lambda>oref.
     bnd (if_do (\<not> truthy oref) (die ''deployment metadata has no objects_ref'')) (\<lambda>_.
     bnd (lift (case oref of JStr s \<Rightarrow> Inr (ref_repo s) | _ \<Rightarrow> Inl AttributeErr)) (\<lambda>repo.
     bnd (lift (src_objects_pack src)) (\<lambda>pack.
     bnd (lift (meta_item pack ''digest'')) (\<lambda>pack_digest.
     bnd (lift (src_objects_index src)) (\<lambda>idx.
     bnd (fetch_index repo idx) (\<lambda>index.
     bnd (missing_objects src shared index) (\<lambda>(want, inlined, present).
     bnd (if_do (inlined \<noteq> 0) (vlog (''objects: '' @ show_int inlined
            @ '' referenced object(s) inlined in image, nothing to fetch for them''))) (\<lambda>_.
     if want = [] then log (''objects: all '' @ show_int present @ '' present, nothing to fetch'')
     else land_pack_by_range repo pack_digest want shared present))))))))))"

section \<open>Sweeping orphans\<close>

definition try_os :: "unit proc \<Rightarrow> unit proc" where
  "try_os m = try_except m (\<lambda>x. if is_oserror x then ret () else raise x)"

definition is_orphan :: "fs \<Rightarrow> path \<Rightarrow> bool" where
  "is_orphan f p = (case stat f p of Some (File i) \<Rightarrow> nlink f i = 1 | _ \<Rightarrow> False)"

definition sweep_file :: "path \<Rightarrow> int \<Rightarrow> int proc" where
  "sweep_file fp swept =
     bnd (gets (\<lambda>f. is_orphan f fp)) (\<lambda>orphan.
     if orphan then bnd (try_os (os_unlink fp)) (\<lambda>_. ret (swept + 1)) else ret swept)"

definition sweep_orphans :: "path \<Rightarrow> int proc" where
  "sweep_orphans shared =
     bnd (gets (\<lambda>f. is_dir f shared)) (\<lambda>d.
     if \<not> d then ret 0
     else
       bnd (gets (\<lambda>f. walk_files f shared)) (\<lambda>files.
       bnd (for_acc sweep_file files 0) (\<lambda>swept.
       bnd (gets (\<lambda>f. deepest_first (walk_dirs f shared))) (\<lambda>dirs.
       bnd (for_each (\<lambda>d. try_os (os_rmdir d)) dirs) (\<lambda>_.
       ret swept)))))"

section \<open>Disk invariants\<close>

lemma tr_attempt: "keeps e I m \<Longrightarrow> keeps e I (attempt m)"
  by (fastforce simp: triple_def attempt_def split: prod.splits sum.splits)

lemma tr_collect:
  assumes "\<And>x. keeps e I (m x)"
  shows "keeps e I (collect m xs)"
  by (induction xs) (auto intro!: tr_rules assms)

text \<open>These read the disk, and run external commands.\<close>

lemma keeps_reading_objects:
  assumes t: "tools_keep I e"
  shows "keeps e I (referenced_objects r)" "keeps e I (fetch_range a b c u v p q l)"
    "keeps e I (missing_objects src s idx)" "keeps e I (summary x y z j pr)"
proof -
  note defs = Let_def case_prod_unfold
  show refs: "keeps e I (referenced_objects r)" for r
    unfolding referenced_objects_def by (intro tr_rules t)
  show "keeps e I (fetch_range a b c u v p q l)"
    unfolding fetch_range_def defs by (intro tr_rules t)
  have "keeps e I (missing_step a b c st)" for a b c st
    unfolding missing_step_def defs by (intro tr_rules)
  then show "keeps e I (missing_objects src s idx)"
    unfolding missing_objects_def defs by (intro tr_rules refs)
  show "keeps e I (summary x y z j pr)"
    unfolding summary_def by (intro tr_rules)
qed

context disk_invariant
begin

lemma keeps_place_object [tr_rules]: "tools_keep I e \<Longrightarrow> keeps e I (place_object t s r)"
  unfolding place_object_def Let_def by (intro tr_rules keeps_steps) (auto intro!: tr_rules)

lemma keeps_objects [tr_rules]:
  assumes t: "tools_keep I e"
  shows "keeps e I (link_holder s h r)" "keeps e I (land_from_dir d s)" "keeps e I (land_from_pack src s)"
    "keeps e I (sweep_orphans s)"
proof -
  note defs = Let_def case_prod_unfold
  note R = keeps_reading_objects [OF t]
  have "keeps e I (link_one a b c st)" for a b c st
    unfolding link_one_def defs by (intro tr_rules)
  then show "keeps e I (link_holder s h r)"
    unfolding link_holder_def defs by (intro tr_rules R)
  have "keeps e I (land_file a b c k)" for a b c k
    unfolding land_file_def defs by (intro tr_rules t)
  then show "keeps e I (land_from_dir d s)"
    unfolding land_from_dir_def by (intro tr_rules)
  have idx: "keeps e I (fetch_index a b)" for a b
    unfolding fetch_index_def decoded_def defs by (intro tr_rules t)
  have cs: "keeps e I (copy_slice a b c p)" for a b c p
    unfolding copy_slice_def by (auto split: sum.split intro!: tr_rules)
  have "keeps e I (place_slice a b c k)" for a b c k
    unfolding place_slice_def defs by (intro tr_rules t cs)
  then have pr: "keeps e I (place_range a b st)" for a b st
    unfolding place_range_def place_from_buffer_def defs by (intro tr_rules)
  have "keeps e I (land_pack_by_range a b c p k)" for a b c p k
    unfolding land_pack_by_range_def fetch_and_place_def range_job_def defs
    by (intro tr_rules t keeps_steps tr_collect tr_attempt R pr) auto
  then show "keeps e I (land_from_pack src s)"
    unfolding land_from_pack_def defs
    by (intro tr_rules t keeps_steps idx R) (auto intro: tr_rules)
  show "keeps e I (sweep_orphans s)"
    unfolding sweep_orphans_def sweep_file_def try_os_def by (intro tr_rules) auto
qed

end

end
