(* ===== verification/Roles.thy ===== *)
theory Roles
  imports Layout
begin

text \<open>
  The role table: what the three links of \<open>@deploy\<close> promise to the code that flips them.
  The locale \<open>role_table\<close> is the contract (reads see the last write, a write is atomic, other
  roles are untouched, at every crash point); its clients are the two flips of the
  lifecycle. It is interpreted on \<open>read_role\<close>, \<open>set_role\<close> and \<open>clear_role\<close>.
\<close>

section \<open>The contract and its clients\<close>

text \<open>The role map after a promotion: the old current is the fallback, the new deployment
  current, and nothing is staged.\<close>

definition promoted :: "(string \<Rightarrow> string option) \<Rightarrow> string \<Rightarrow> string \<Rightarrow> string option" where
  "promoted v new =
     ((case v ''current'' of None \<Rightarrow> v | Some i \<Rightarrow> v(''fallback'' \<mapsto> i))(''current'' \<mapsto> new))(''staging'' := None)"

text \<open>No deployment is lost while the roles flip: current is the old or the new one, and once
  it is the new one the old one is the fallback.\<close>

definition flip_safe :: "(string \<Rightarrow> string option) \<Rightarrow> string \<Rightarrow> (string \<Rightarrow> string option) \<Rightarrow> bool" where
  "flip_safe v new u \<longleftrightarrow> u ''current'' \<in> {v ''current'', Some new} \<and>
     (v ''current'' \<noteq> None \<and> u ''current'' \<noteq> v ''current'' \<longrightarrow> u ''fallback'' = v ''current'')"

locale role_table =
  fixes live :: "env \<Rightarrow> bool"
    and roles :: "string set"
    and ids :: "string set"
    and view :: "fs \<Rightarrow> string \<Rightarrow> string option"
    and good :: "fs \<Rightarrow> bool"
    and get :: "string \<Rightarrow> string option proc"
    and put :: "string \<Rightarrow> string \<Rightarrow> unit proc"
    and del :: "string \<Rightarrow> unit proc"
  assumes get_view: "r \<in> roles \<Longrightarrow> get r e w = (Inr (view (fsys w) r), w)"
    and put_view: "live e \<Longrightarrow> r \<in> roles \<Longrightarrow> i \<in> ids \<Longrightarrow>
      tot e (\<lambda>f. good f \<and> view f = v) (\<lambda>f. good f \<and> (view f = v \<or> view f = v(r \<mapsto> i)))
        (put r i) (\<lambda>_ f. good f \<and> view f = v(r \<mapsto> i))"
    and del_view: "live e \<Longrightarrow> r \<in> roles \<Longrightarrow>
      tot e (\<lambda>f. good f \<and> view f = v) (\<lambda>f. good f \<and> (view f = v \<or> view f = v(r := None)))
        (del r) (\<lambda>_ f. good f \<and> view f = v(r := None))"
begin

lemma put_then:
  assumes "live e" "r \<in> roles" "i \<in> ids" "\<And>f. good f \<Longrightarrow> view f = v \<or> view f = v(r \<mapsto> i) \<Longrightarrow> C f"
  shows "tot e (\<lambda>f. good f \<and> view f = v) C (put r i) (\<lambda>_ f. good f \<and> view f = v(r \<mapsto> i))"
  by (rule tr_total [OF put_view [OF assms(1-3)]]) (use assms(4) in auto)

lemma del_then:
  assumes "live e" "r \<in> roles" "\<And>f. good f \<Longrightarrow> view f = v \<or> view f = v(r := None) \<Longrightarrow> C f"
  shows "tot e (\<lambda>f. good f \<and> view f = v) C (del r) (\<lambda>_ f. good f \<and> view f = v(r := None))"
  by (rule tr_total [OF del_view [OF assms(1,2)]]) (use assms(3) in auto)

lemma promote_flip:
  assumes l: "live e" and r: "{''current'', ''fallback'', ''staging''} \<subseteq> roles" and n: "new \<in> ids"
    and o: "\<And>i. v ''current'' = Some i \<Longrightarrow> i \<in> ids"
  shows "tot e (\<lambda>f. good f \<and> view f = v) (\<lambda>f. good f \<and> flip_safe v new (view f))
     (bnd (case v ''current'' of None \<Rightarrow> ret () | Some i \<Rightarrow> put ''fallback'' i) (\<lambda>_.
      bnd (put ''current'' new) (\<lambda>_. del ''staging''))) (\<lambda>_ f. good f \<and> view f = promoted v new)"
proof -
  let ?v1 = "case v ''current'' of None \<Rightarrow> v | Some i \<Rightarrow> v(''fallback'' \<mapsto> i)"
  let ?C = "\<lambda>f. good f \<and> flip_safe v new (view f)"
  have 1: "tot e (\<lambda>f. good f \<and> view f = v) ?C
      (case v ''current'' of None \<Rightarrow> ret () | Some i \<Rightarrow> put ''fallback'' i) (\<lambda>_ f. good f \<and> view f = ?v1)"
    by (cases "v ''current''") (use l r o in \<open>auto simp: flip_safe_def intro!: tr_ret put_then\<close>)
  have 2: "tot e (\<lambda>f. good f \<and> view f = ?v1) ?C (put ''current'' new)
      (\<lambda>_ f. good f \<and> view f = ?v1(''current'' \<mapsto> new))"
    by (rule put_then) (use l r n in \<open>auto simp: flip_safe_def split: option.splits\<close>)
  have 3: "tot e (\<lambda>f. good f \<and> view f = ?v1(''current'' \<mapsto> new)) ?C (del ''staging'')
      (\<lambda>_ f. good f \<and> view f = (?v1(''current'' \<mapsto> new))(''staging'' := None))"
    by (rule del_then) (use l r in \<open>auto simp: flip_safe_def split: option.splits\<close>)
  show ?thesis unfolding promoted_def
    by (rule tr_bnd [OF 1 tr_bnd [OF 2 3]])
qed

lemma rollback_flip:
  assumes l: "live e" and r: "{''current'', ''fallback''} \<subseteq> roles" and c: "c \<in> ids" and b: "b \<in> ids"
    and v: "v ''current'' = Some c" "v ''fallback'' = Some b"
  shows "tot e (\<lambda>f. good f \<and> view f = v)
     (\<lambda>f. good f \<and> view f ''current'' \<in> {Some c, Some b} \<and> view f ''fallback'' \<in> {Some c, Some b}
        \<and> view f ''staging'' = v ''staging'')
     (bnd (put ''current'' b) (\<lambda>_. put ''fallback'' c))
     (\<lambda>_ f. good f \<and> view f = v(''current'' \<mapsto> b, ''fallback'' \<mapsto> c))"
  by (rule tr_bnd [OF put_then put_then]) (use l r c b v in auto)

end

section \<open>The links of the model\<close>

definition role_view :: "path \<Rightarrow> fs \<Rightarrow> string \<Rightarrow> string option" where
  "role_view d f r = (case lookup f (d @ [r]) of Some (Symlink t) \<Rightarrow> Some (basename t) | _ \<Rightarrow> None)"

text \<open>No directory stands where a role link or its temporary name goes.\<close>

definition roles_free :: "path \<Rightarrow> fs \<Rightarrow> bool" where
  "roles_free d f \<longleftrightarrow> wf_fs f \<and> lookup f d = Some Dir \<and>
     (\<forall>r \<in> set ROLES. lookup f (d @ [r]) \<noteq> Some Dir \<and> lookup f (role_tmp d r) \<noteq> Some Dir)"

text \<open>The temporary link is made aside and renamed over the role: nothing else changes.\<close>

definition set_role_mid :: "path \<Rightarrow> string \<Rightarrow> fs \<Rightarrow> fs \<Rightarrow> bool" where
  "set_role_mid d r f g \<longleftrightarrow> wf_fs g \<and> inodes g = inodes f \<and> lookup g (role_tmp d r) \<noteq> Some Dir \<and>
     (\<forall>q. q \<noteq> role_tmp d r \<longrightarrow> lookup g q = lookup f q)"

definition set_role_end :: "path \<Rightarrow> string \<Rightarrow> string \<Rightarrow> fs \<Rightarrow> fs \<Rightarrow> bool" where
  "set_role_end d r i f g \<longleftrightarrow> wf_fs g \<and> inodes g = inodes f \<and> lookup g (role_tmp d r) = None \<and>
     lookup g (d @ [r]) = Some (Symlink i) \<and>
     (\<forall>q. q \<noteq> role_tmp d r \<longrightarrow> q \<noteq> d @ [r] \<longrightarrow> lookup g q = lookup f q)"

lemma role_paths:
  assumes "r \<in> set ROLES"
  shows "pjoin d r = d @ [r]" "butlast (role_tmp d r) = d" "role_tmp d r \<noteq> d @ [r]" "role_tmp d r \<noteq> []"
  using assms plain_roles [OF assms] by (auto simp: role_tmp_path)

lemma roles_free_dirs:
  "roles_free d f \<Longrightarrow> wf_fs f" "roles_free d f \<Longrightarrow> lookup f d = Some Dir"
  "roles_free d f \<Longrightarrow> r \<in> set ROLES \<Longrightarrow> lookup f (d @ [r]) \<noteq> Some Dir"
  "roles_free d f \<Longrightarrow> r \<in> set ROLES \<Longrightarrow> lookup f (role_tmp d r) \<noteq> Some Dir"
  by (auto simp: roles_free_def)

text \<open>The three system calls of \<open>set_role\<close>, from a disk on which it can work.\<close>

lemma set_role_run:
  assumes free: "roles_free d (fsys w)" and r: "r \<in> set ROLES" and i: "i \<noteq> []" and dry: "\<not> dry_run e"
  defines "f \<equiv> fsys w" and "t \<equiv> role_tmp d r"
  defines "f1 \<equiv> if lookup f t = None then f else del_entry t f"
  defines "f2 \<equiv> set_entry t (Symlink i) f1"
  defines "f3 \<equiv> set_entry (d @ [r]) (Symlink i) (del_entry t f2)"
  shows "fst (set_role d r i e w) = Inr ()" "fsys (snd (set_role d r i e w)) = f3"
    "\<exists>new. hist (snd (set_role d r i e w)) = new @ hist w \<and> hd (new @ [fsys w]) = f3 \<and> set new \<subseteq> {f1, f2, f3}"
    "stderr (snd (set_role d r i e w)) = stderr w"
proof -
  note P = role_paths [OF r, of d] and F = roles_free_dirs [OF free]
  have stale: "(is_symlink f t \<or> path_exists f t) \<longleftrightarrow> lookup f t \<noteq> None"
  proof (cases "lookup f t")
    case (Some n)
    then show ?thesis using F(4) [OF r] by (cases n) (auto simp: t_def f_def is_symlink_def)
  qed simp
  have u: "lookup f t \<noteq> None \<Longrightarrow> unlink1 t f = Inr f1"
    using F(4) [OF r] by (auto simp: unlink1_def f1_def t_def f_def split: node.splits)
  have l1: "lookup f1 t = None" "lookup f1 q = (if q = t then None else lookup f q)" for q
    using P(4) by (auto simp: f1_def fs_simps t_def)
  have dt: "d \<noteq> t" using P(2,4) by (metis append_butlast_last_id not_Cons_self2 self_append_conv t_def)
  have s: "symlink1 i t f1 = Inr f2"
    using l1 i F(2) dt P(2) by (simp add: symlink1_def f2_def parent_err_def t_def f_def)
  have l2: "lookup f2 q = (if q = t then Some (Symlink i) else lookup f q)" for q
    using l1 P(4) by (simp add: f2_def fs_simps t_def)
  have c: "replace1 t (d @ [r]) f2 = Inr f3"
    using l2 F(2,3) r dt P(3) by (auto simp: replace1_def f3_def parent_err_def t_def f_def)
  have "set_role d r i e w = (let w1 = (if lookup f t = None then w else w\<lparr>fsys := f1, hist := f1 # hist w\<rparr>)
     in (Inr (), snd (vlog (''role '' @ r @ '' -> '' @ i) e
          (w1\<lparr>fsys := f3, hist := f3 # f2 # hist w1\<rparr>))))"
    using dry stale u s c
    by (auto simp: set_role_def Let_def P(1) t_def [symmetric] f_def [symmetric] f1_def run_simps
        os_unlink_def os_symlink_def os_replace_def)
  then show "fst (set_role d r i e w) = Inr ()" "fsys (snd (set_role d r i e w)) = f3"
    "\<exists>new. hist (snd (set_role d r i e w)) = new @ hist w \<and> hd (new @ [fsys w]) = f3 \<and> set new \<subseteq> {f1, f2, f3}"
    "stderr (snd (set_role d r i e w)) = stderr w"
    by (auto simp: Let_def run_simps)
qed

lemma set_role_spec:
  assumes free: "roles_free d f" and r: "r \<in> set ROLES" and i: "i \<noteq> []" and dry: "\<not> dry_run e"
  shows "tot e ((=) f) (\<lambda>g. set_role_mid d r f g \<or> set_role_end d r i f g) (set_role d r i)
     (\<lambda>_. set_role_end d r i f)"
proof -
  note P = role_paths [OF r, of d] and F = roles_free_dirs [OF free]
  let ?t = "role_tmp d r"
  let ?f1 = "if lookup f ?t = None then f else del_entry ?t f"
  let ?f2 = "set_entry ?t (Symlink i) ?f1"
  let ?f3 = "set_entry (d @ [r]) (Symlink i) (del_entry ?t ?f2)"
  have w1: "wf_fs ?f1" using F(1,4) P(4) r by (auto intro: wf_del_nondir)
  have dt: "d \<noteq> ?t" using P(2,4) by (metis append_butlast_last_id not_Cons_self2 self_append_conv)
  have w2: "wf_fs ?f2"
    by (rule wf_set_entry [OF w1]) (use P F(2) dt in \<open>auto simp: fs_simps\<close>)
  have w2': "wf_fs (del_entry ?t ?f2)"
    by (rule wf_del_nondir [OF w2]) (use P in \<open>auto simp: fs_simps\<close>)
  have w3: "wf_fs ?f3"
    by (rule wf_set_entry [OF w2']) (use P F r dt in \<open>auto simp: fs_simps\<close>)
  have m1: "set_role_mid d r f ?f1" using w1 P F(4) [OF r] by (auto simp: set_role_mid_def fs_simps)
  have m2: "set_role_mid d r f ?f2" using w2 P by (auto simp: set_role_mid_def fs_simps)
  have m3: "set_role_end d r i f ?f3" using w3 P by (auto simp: set_role_end_def fs_simps)
  show ?thesis
  proof (rule tripleI)
    fix w :: world assume "f = fsys w"
    note R = set_role_run [OF _ r i dry, of d w, folded \<open>f = fsys w\<close>, OF free]
    show "\<exists>new. hist (snd (set_role d r i e w)) = new @ hist w \<and> fsys (snd (set_role d r i e w)) = hd (new @ [fsys w]) \<and>
        (\<forall>g\<in>set new. set_role_mid d r f g \<or> set_role_end d r i f g)"
    proof -
      obtain new where n: "hist (snd (set_role d r i e w)) = new @ hist w" "hd (new @ [f]) = ?f3" "set new \<subseteq> {?f1, ?f2, ?f3}"
        using R(3) by blast
      then show ?thesis using R(2) m1 m2 m3 \<open>f = fsys w\<close> by (intro exI [of _ new]) auto
    qed
    show "fst (set_role d r i e w) = Inl x \<Longrightarrow> False"
      "set_role_end d r i f (fsys (snd (set_role d r i e w)))" for x
      using R(1,2) m3 by auto
  qed
qed

lemma clear_role_spec:
  assumes free: "roles_free d f" and r: "r \<in> set ROLES" and dry: "\<not> dry_run e"
  shows "tot e ((=) f) (\<lambda>g. g = f \<or> g = del_entry (d @ [r]) f) (clear_role d r)
       (\<lambda>_ g. lookup g (d @ [r]) = None \<and> (g = f \<or> g = del_entry (d @ [r]) f))"
proof -
  note P = role_paths [OF r, of d] and F = roles_free_dirs [OF free]
  let ?l = "d @ [r]"
  have there: "(is_symlink f ?l \<or> path_exists f ?l) \<longleftrightarrow> lookup f ?l \<noteq> None"
  proof (cases "lookup f ?l")
    case (Some n)
    then show ?thesis using F(3) [OF r] by (cases n) (auto simp: is_symlink_def)
  qed simp
  have u: "lookup f ?l \<noteq> None \<Longrightarrow> unlink1 ?l f = Inr (del_entry ?l f)"
    using F(3) [OF r] by (auto simp: unlink1_def split: node.splits)
  have run: "clear_role d r e w = (if lookup f ?l = None then (Inr (), w)
      else (Inr (), snd (vlog (''role '' @ r @ '' cleared'') e (w\<lparr>fsys := del_entry ?l f, hist := del_entry ?l f # hist w\<rparr>))))"
    if "f = fsys w" for w
    using that dry there u by (auto simp: clear_role_def Let_def P(1) run_simps os_unlink_def)
  show "tot e ((=) f) (\<lambda>g. g = f \<or> g = del_entry ?l f) (clear_role d r)
       (\<lambda>_ g. lookup g ?l = None \<and> (g = f \<or> g = del_entry ?l f))"
    by (rule tripleI) (auto simp: run run_simps fs_simps split: if_splits)
qed

lemma read_role_run:
  "r \<in> set ROLES \<Longrightarrow> read_role d r e w = (Inr (role_view d (fsys w) r), w)"
  by (auto simp: read_role_def role_paths Let_def run_simps is_symlink_def role_view_def readlink1_def
      split: option.splits node.splits)

section \<open>The contract holds\<close>

definition roles_of :: "path \<Rightarrow> fs \<Rightarrow> string \<Rightarrow> string option" where
  "roles_of d f r = (if r \<in> set ROLES then role_view d f r else None)"

definition deploy_ids :: "string set" where
  "deploy_ids = {i. plain_name i}"

lemma role_tmp_inj: "r \<in> set ROLES \<Longrightarrow> s \<in> set ROLES \<Longrightarrow> role_tmp d r \<noteq> d @ [s]"
  "r \<in> set ROLES \<Longrightarrow> s \<in> set ROLES \<Longrightarrow> role_tmp d r = role_tmp d s \<longleftrightarrow> r = s"
  by (auto simp: role_tmp_path ROLES_def)

lemma role_tmp_not_dir: "r \<in> set ROLES \<Longrightarrow> role_tmp d r \<noteq> d"
  by (simp add: role_tmp_path)

lemma set_role_mid_view:
  assumes "set_role_mid d r f g" "r \<in> set ROLES"
  shows "roles_of d g = roles_of d f"
proof
  fix s
  have "s \<in> set ROLES \<Longrightarrow> d @ [s] \<noteq> role_tmp d r" using role_tmp_inj(1) [of r s d] assms(2) by auto
  then show "roles_of d g s = roles_of d f s"
    using assms(1) by (simp add: roles_of_def role_view_def set_role_mid_def)
qed

lemma set_role_end_view:
  assumes "set_role_end d r i f g" "r \<in> set ROLES" "i \<in> deploy_ids"
  shows "roles_of d g = (roles_of d f)(r \<mapsto> i)"
proof
  fix s show "roles_of d g s = ((roles_of d f)(r \<mapsto> i)) s"
  proof (cases "s = r")
    case True
    then show ?thesis using assms
      by (simp add: roles_of_def role_view_def set_role_end_def basename_plain deploy_ids_def plain_name_def)
  next
    case False
    then show ?thesis using assms role_tmp_inj(1) [of r s d]
      by (auto simp: roles_of_def role_view_def set_role_end_def)
  qed
qed

lemma roles_free_mid: "roles_free d f \<Longrightarrow> set_role_mid d r f g \<Longrightarrow> r \<in> set ROLES \<Longrightarrow> roles_free d g"
  unfolding roles_free_def set_role_mid_def
  using role_tmp_inj role_tmp_not_dir by (metis option.distinct(1))

lemma roles_free_end: "roles_free d f \<Longrightarrow> set_role_end d r i f g \<Longrightarrow> r \<in> set ROLES \<Longrightarrow> roles_free d g"
  unfolding roles_free_def set_role_end_def
  by (metis append_self_conv list.distinct(1) node.distinct(3) option.distinct(1) option.inject
      role_tmp_inj role_tmp_not_dir)

lemma del_link_free:
  assumes "roles_free d f" "r \<in> set ROLES"
  shows "roles_free d (del_entry (d @ [r]) f)" "roles_of d (del_entry (d @ [r]) f) = (roles_of d f)(r := None)"
  using assms role_tmp_inj(1) [of _ r d]
  by (auto simp: roles_free_def fs_simps roles_of_def role_view_def intro!: wf_del_nondir ext)

interpretation role_links: role_table "\<lambda>e. \<not> dry_run e" "set ROLES" deploy_ids "roles_of d" "roles_free d"
    "read_role d" "set_role d" "clear_role d" for d
proof unfold_locales
  fix r :: string and i :: string and w :: world and v and e :: env
  assume r: "r \<in> set ROLES"
  show "read_role d r e w = (Inr (roles_of d (fsys w) r), w)"
    using r by (simp add: read_role_run roles_of_def)
  assume dry: "\<not> dry_run e"
  show "tot e (\<lambda>f. roles_free d f \<and> roles_of d f = v)
      (\<lambda>f. roles_free d f \<and> (roles_of d f = v \<or> roles_of d f = v(r := None)))
      (clear_role d r) (\<lambda>_ f. roles_free d f \<and> roles_of d f = v(r := None))"
    by (rule tr_exact, rule tr_total [OF clear_role_spec [OF _ r dry]])
      (auto simp: del_link_free r roles_of_def role_view_def)
  assume i: "i \<in> deploy_ids"
  then have "i \<noteq> []" by (simp add: deploy_ids_def plain_name_def)
  show "tot e (\<lambda>f. roles_free d f \<and> roles_of d f = v)
      (\<lambda>f. roles_free d f \<and> (roles_of d f = v \<or> roles_of d f = v(r \<mapsto> i)))
      (set_role d r i) (\<lambda>_ f. roles_free d f \<and> roles_of d f = v(r \<mapsto> i))"
  proof (rule tr_exact)
    fix f assume f: "roles_free d f \<and> roles_of d f = v"
    then have free: "roles_free d f" and v: "v = roles_of d f" by auto
    have m: "roles_free d g \<and> roles_of d g = v" if "set_role_mid d r f g" for g
      using roles_free_mid [OF free that r] set_role_mid_view [OF that r] v by simp
    have n: "roles_free d g \<and> roles_of d g = v(r \<mapsto> i)" if "set_role_end d r i f g" for g
      using roles_free_end [OF free that r] set_role_end_view [OF that r i] v by simp
    show "tot e ((=) f)
      (\<lambda>f. roles_free d f \<and> (roles_of d f = v \<or> roles_of d f = v(r \<mapsto> i)))
      (set_role d r i) (\<lambda>_ f. roles_free d f \<and> roles_of d f = v(r \<mapsto> i))"
      by (rule tr_total [OF set_role_spec [OF free r \<open>i \<noteq> []\<close> dry]]) (use m n in blast)+
  qed
qed

end
