(* ===== verification/Lifecycle.thy ===== *)
theory Lifecycle
  imports Objects Roles
begin

text \<open>
  \<open>zerith/lifecycle.py\<close>: materializing, staging and promoting a deployment, rolling back,
  collecting garbage, and reporting status.
\<close>

abbreviation ELLIPSIS :: string where "ELLIPSIS \<equiv> [CHR 0xE2, CHR 0x80, CHR 0xA6]"
abbreviation EM_DASH :: string where "EM_DASH \<equiv> [CHR 0xE2, CHR 0x80, CHR 0x94]"

section \<open>The lock\<close>

text \<open>\<open>os.open(p, O_CREAT | O_RDWR)\<close>\<close>

definition open_rw1 :: "path \<Rightarrow> unit sys" where
  "open_rw1 p f = (case realpath f p of
     None \<Rightarrow> (Inl (OSErr ELOOP p), [])
   | Some q \<Rightarrow> (case lookup f q of
         Some (File i) \<Rightarrow> (case inodes f i of
             None \<Rightarrow> (Inl (OSErr EINVAL p), [])
           | Some nd \<Rightarrow> if verity nd then (Inl (OSErr EPERM p), []) else (Inr (), []))
       | None \<Rightarrow> (case parent_err f q of
             Some e \<Rightarrow> (Inl (OSErr e p), []) | None \<Rightarrow> (Inr (), create q [] f))
       | Some _ \<Rightarrow> (Inl (OSErr EISDIR p), [])))"

text \<open>\<open>flock\<close>: when another process holds the lock, its remaining work comes first.\<close>

definition flock :: "unit proc" where
  "flock = bnd (asks lock_holder) (\<lambda>h. case h of
     None \<Rightarrow> ret ()
   | Some work \<Rightarrow> bnd (log (''another zerithctl holds the lock; waiting'' @ ELLIPSIS)) (\<lambda>_.
       syscall (\<lambda>f. (Inr (), work f))))"

definition deploy_lock :: "path \<Rightarrow> 'a proc \<Rightarrow> 'a proc" where
  "deploy_lock deploy body =
     bnd (asks dry_run) (\<lambda>dry.
     if dry then body
     else bnd (syscall (open_rw1 (pjoin deploy LOCK_NAME))) (\<lambda>_.
       try_finally (bnd flock (\<lambda>_. body)) (ret ())))"

section \<open>Materializing\<close>

definition land_objects :: "source \<Rightarrow> path \<Rightarrow> unit proc" where
  "land_objects src shared = (case local_objects src of
     Some d \<Rightarrow> land_from_dir d shared
   | None \<Rightarrow> bnd (lift (src_objects_pack src)) (\<lambda>pack.
       if truthy pack then land_from_pack src shared
       else die ''no object source (expected a local objects/ tree or a pack artifact)''))"

definition place_root_cfs :: "source \<Rightarrow> path \<Rightarrow> unit proc" where
  "place_root_cfs src root_cfs =
     bnd (asks dry_run) (\<lambda>dry.
     if dry then
       bnd (lift (src_digest src)) (\<lambda>dg.
       log (''[dry-run] cp '' @ path_str (src_root_cfs src) @ '' -> '' @ path_str root_cfs @ ''; verify '' @ json_str dg))
     else
       bnd (copy2 (src_root_cfs src) root_cfs) (\<lambda>_.
       bnd (enable_verity root_cfs) (\<lambda>_.
       bnd (measure_file root_cfs) (\<lambda>got.
       bnd (lift (src_digest src)) (\<lambda>dg.
       bnd (if_do (dg \<noteq> JStr got) (die (''root.cfs digest mismatch: expected '' @ json_str dg @ '', got '' @ got))) (\<lambda>_.
       vlog ''root.cfs digest verified against signed metadata''))))))"

definition copy_boot_files :: "source \<Rightarrow> path \<Rightarrow> unit proc" where
  "copy_boot_files src ddir =
     (let deploy_uki = pjoin ddir UKI_NAME; loader = pjoin ddir BOOTLOADER_NAME in
      bnd (status_show ''copying boot files...'') (\<lambda>_.
      bnd (asks dry_run) (\<lambda>dry.
      if dry then steps
        [log (''[dry-run] cp '' @ path_str (src_uki src) @ '' -> '' @ path_str deploy_uki),
         log (''[dry-run] cp '' @ path_str (src_bootloader src) @ '' -> '' @ path_str loader)]
      else
        bnd (copy2 (src_uki src) deploy_uki) (\<lambda>_.
        bnd (gets (\<lambda>f. is_file f (src_bootloader src))) (\<lambda>l.
        if_do l (copy2 (src_bootloader src) loader))))))"

definition materialize :: "path \<Rightarrow> source \<Rightarrow> unit proc" where
  "materialize deploy src =
     bnd (lift (src_deploy_id src)) (\<lambda>did.
     let shared = shared_objects deploy; ddir = deploy_dir deploy did;
         holder = pjoin ddir ''objects''; root_cfs = pjoin ddir CFS_NAME in
     bnd (asks dry_run) (\<lambda>dry.
     bnd (gets (\<lambda>f. is_file f (src_uki src))) (\<lambda>has_uki.
     steps
       [if_do (\<not> dry \<and> \<not> has_uki) (die (''deployment artifact has no '' @ UKI_NAME)),
        if dry then log (''[dry-run] mkdir -p '' @ path_str ddir) else mkdirs ddir,
        land_objects src shared,
        status_show ''verifying root.cfs...'',
        place_root_cfs src root_cfs,
        if dry then log (''[dry-run] hardlink referenced objects into '' @ path_str holder)
        else steps [status_show ''linking objects...'', link_holder shared holder root_cfs],
        copy_boot_files src ddir,
        status_done (''deployment '' @ did @ '' materialized''),
        write_meta ddir src])))"

definition stage :: "path \<Rightarrow> source \<Rightarrow> unit proc" where
  "stage deploy src =
     bnd (lift (src_deploy_id src)) (\<lambda>did.
     bnd (asks dry_run) (\<lambda>dry.
     bnd (gets (\<lambda>f. path_exists f (pjoin (deploy_dir deploy did) CFS_NAME))) (\<lambda>there. steps
       [if \<not> dry \<and> there then log (''deployment '' @ did @ '' already on disk, reusing'')
        else materialize deploy src,
        set_role deploy ''staging'' did])))"

section \<open>Garbage collection\<close>

definition collect_stale :: "path \<Rightarrow> path list proc" where
  "collect_stale deploy =
     bnd (collect (read_role deploy) ROLES) (\<lambda>protected.
     bnd (reads (listdir1 deploy)) (\<lambda>names.
     gets (\<lambda>f. map (\<lambda>n. deploy @ [n])
       (filter (\<lambda>n. \<not> (is_symlink f (deploy @ [n]) \<or> \<not> is_dir f (deploy @ [n])) \<and>
          \<not> (n = ''shared'' \<or> startswith n ''.'' \<or> Some n \<in> set protected)) (sort names)))))"

definition gc :: "path \<Rightarrow> unit proc" where
  "gc deploy =
     (let shared = shared_objects deploy in
      bnd (collect_stale deploy) (\<lambda>stale.
      bnd (asks dry_run) (\<lambda>dry.
      bnd (for_each (\<lambda>p.
             if dry then log (''[dry-run] rm -rf '' @ path_str p)
             else steps [rmtree p, vlog (''removed deployment '' @ last p)]) stale) (\<lambda>_.
      if dry then log (''[dry-run] sweep orphaned objects in '' @ path_str shared @ '' (link count == 1)'')
      else
        bnd (sweep_orphans shared) (\<lambda>swept.
        if stale \<noteq> [] then
          log (''gc: removed '' @ show_int (int (length stale)) @ '' deployment(s): '' @ join '', '' (map last stale)
            @ (if swept \<noteq> 0 then ''; '' @ show_int swept @ '' orphan object(s)'' else []))
        else vlog ''gc: nothing to remove'')))))"

section \<open>Promotion and rollback\<close>

definition promote :: "path \<Rightarrow> path \<Rightarrow> string \<Rightarrow> unit proc" where
  "promote deploy esp new_id =
     bnd (read_role deploy ''current'') (\<lambda>old_current.
     if old_current = Some new_id then steps
       [log (new_id @ '' is already current; nothing to promote''),
        clear_role deploy ''staging'']
     else
       (let new_uki = pjoin (deploy_dir deploy new_id) UKI_NAME;
            new_loader = pjoin (deploy_dir deploy new_id) BOOTLOADER_NAME;
            cur_efi = esp_uki esp ''current'' in
        bnd (asks dry_run) (\<lambda>dry.
        bnd (gets (\<lambda>f. is_file f new_uki)) (\<lambda>staged.
        bnd (if_do (\<not> dry \<and> \<not> staged) (die (''staged UKI missing: '' @ path_str new_uki))) (\<lambda>_.
        bnd (gets (\<lambda>f. is_file f cur_efi)) (\<lambda>has_cur.
        bnd (if_do (old_current \<noteq> None \<and> (dry \<or> has_cur)) (atomic_copy cur_efi (esp_uki esp ''fallback''))) (\<lambda>_.
        bnd (atomic_copy new_uki cur_efi) (\<lambda>_.
        bnd (gets (\<lambda>f. is_file f new_loader)) (\<lambda>has_loader.
        bnd (if_do (dry \<or> has_loader) (atomic_copy new_loader (esp_limine esp))) (\<lambda>_.
        bnd (bnd (case old_current of None \<Rightarrow> ret () | Some old \<Rightarrow> set_role deploy ''fallback'' old) (\<lambda>_.
             bnd (set_role deploy ''current'' new_id) (\<lambda>_.
             clear_role deploy ''staging''))) (\<lambda>_. steps
          [gc deploy,
           log (''promoted '' @ new_id @ (case old_current of
               Some old \<Rightarrow> if old \<noteq> [] then '' (previous current '' @ old @ '' -> fallback)'' else []
             | None \<Rightarrow> []))]))))))))))) "

definition swap_tmp :: "path \<Rightarrow> path" where
  "swap_tmp cur_efi = butlast cur_efi @ [''.swap.efi.tmp'']"

definition rollback :: "path \<Rightarrow> path \<Rightarrow> unit proc" where
  "rollback deploy esp =
     bnd (read_role deploy ''current'') (\<lambda>cur.
     bnd (read_role deploy ''fallback'') (\<lambda>fb. case fb of
       None \<Rightarrow> die ''no fallback deployment to roll back to''
     | Some back \<Rightarrow>
         (let cur_efi = esp_uki esp ''current''; fb_efi = esp_uki esp ''fallback'' in
          bnd (asks dry_run) (\<lambda>dry.
          bnd (gets (\<lambda>f. is_file f fb_efi)) (\<lambda>there.
          bnd (if_do (\<not> dry \<and> \<not> there) (die (''fallback UKI missing on ESP: '' @ path_str fb_efi))) (\<lambda>_.
          bnd (if dry then log (''[dry-run] swap '' @ path_str cur_efi @ '' <-> '' @ path_str fb_efi)
               else steps
                 [copy2 cur_efi (swap_tmp cur_efi),
                  os_replace fb_efi cur_efi,
                  os_replace (swap_tmp cur_efi) fb_efi,
                  vlog ''swapped ESP UKIs'']) (\<lambda>_.
          bnd (bnd (set_role deploy ''current'' back) (\<lambda>_.
               case cur of None \<Rightarrow> ret () | Some c \<Rightarrow> set_role deploy ''fallback'' c)) (\<lambda>_.
          log (''rolled back: current is now '' @ back @ '' (was ''
            @ (case cur of Some c \<Rightarrow> c | None \<Rightarrow> ''None'') @ '')'')))))))))"

section \<open>Reporting and entry points\<close>

definition status_role :: "path \<Rightarrow> string \<Rightarrow> unit proc" where
  "status_role deploy role =
     bnd (read_role deploy role) (\<lambda>rid. case rid of
       None \<Rightarrow> print (pad_right 8 role @ ''  -'')
     | Some i \<Rightarrow>
         bnd (load_meta deploy rid) (\<lambda>m.
         bnd (lift (meta_get m ''version'')) (\<lambda>ver.
         bnd (lift (meta_get m ''ref'')) (\<lambda>ref.
         print (pad_right 8 role @ ''  '' @ i @ ''  version=''
           @ json_str (case ver of Some v \<Rightarrow> v | None \<Rightarrow> JStr ''?'')
           @ ''  ref='' @ json_str (case ref of Some v \<Rightarrow> if truthy v then v else JStr ''-'' | None \<Rightarrow> JStr ''-''))))))"

definition status :: "path \<Rightarrow> path \<Rightarrow> unit proc" where
  "status deploy config_path =
     bnd (read_source config_path) (\<lambda>channel.
     bnd (print (''channel   '' @ json_str (case channel of
            Some c \<Rightarrow> if truthy c then c else JStr (''(unset '' @ EM_DASH @ '' run deploy REF)'')
          | None \<Rightarrow> JStr (''(unset '' @ EM_DASH @ '' run deploy REF)'')))) (\<lambda>_.
     for_each (status_role deploy) ROLES))"

definition check_layout :: "path \<Rightarrow> path \<Rightarrow> unit proc" where
  "check_layout deploy esp =
     bnd (asks dry_run) (\<lambda>dry.
     if dry then ret ()
     else
       bnd (gets (\<lambda>f. is_dir f (shared_objects deploy))) (\<lambda>a.
       bnd (if_do (\<not> a) (die (path_str deploy @ '' doesn'' @ CHR 0x27 # ''t look like a Zerith @deploy mount (no shared/objects) ''
          @ EM_DASH @ '' point --deploy at it''))) (\<lambda>_.
       bnd (gets (\<lambda>f. is_dir f (pjoin esp ''zerith''))) (\<lambda>b.
       if_do (\<not> b) (die (path_str esp @ '' doesn'' @ CHR 0x27 # ''t look like the Zerith ESP (no zerith/) ''
          @ EM_DASH @ '' point --esp at it''))))))"

definition deploy_source :: "path \<Rightarrow> path \<Rightarrow> source \<Rightarrow> unit proc" where
  "deploy_source deploy esp src =
     bnd (lift (src_deploy_id src)) (\<lambda>did.
     bnd (read_role deploy ''current'') (\<lambda>cur.
     if cur = Some did then
       bnd (lift (src_version src)) (\<lambda>ver.
       log (''already on '' @ did @ '' (version '' @ json_str ver @ ''); up to date''))
     else steps
       [stage deploy src,
        promote deploy esp did,
        bnd (lift (src_version src)) (\<lambda>ver.
        log (''now current: '' @ did @ '' (version '' @ json_str ver @ '')''))]))"

definition do_deploy ::
  "path \<Rightarrow> path \<Rightarrow> string \<Rightarrow> string option \<Rightarrow> string \<Rightarrow> bool \<Rightarrow> unit proc" where
  "do_deploy deploy esp ref cos_id cos_issuer skip_verify =
     bnd (source_from_ref ref cos_id cos_issuer skip_verify) (\<lambda>src.
     try_finally (deploy_source deploy esp src) (src_cleanup src))"

section \<open>Disk invariants\<close>

definition others_keep :: "(fs \<Rightarrow> bool) \<Rightarrow> env \<Rightarrow> bool" where
  "others_keep I e \<longleftrightarrow> (\<forall>work f g. lock_holder e = Some work \<longrightarrow> I f \<longrightarrow> g \<in> set (work f) \<longrightarrow> I g)"

lemma open_rw1_write1: "g \<in> set (snd (open_rw1 p f)) \<Longrightarrow> g \<in> set (snd (write1 p [] f))"
  by (auto simp: open_rw1_def write1_def split: option.splits node.splits if_splits)

context disk_invariant
begin

lemma keeps_gc [tr_rules]: "tools_keep I e \<Longrightarrow> keeps e I (gc d)"
proof -
  assume t: "tools_keep I e"
  have "keeps e I (collect_stale d)"
    unfolding collect_stale_def by (intro tr_rules tr_collect)
  then show ?thesis
    unfolding gc_def Let_def by (intro tr_rules keeps_steps t) (auto intro: tr_rules)
qed

lemma keeps_materialize [tr_rules]: "tools_keep I e \<Longrightarrow> keeps e I (materialize d s)"
proof -
  assume t: "tools_keep I e"
  have land: "keeps e I (land_objects a b)" for a b
    unfolding land_objects_def by (auto intro!: tr_rules t split: option.split)
  have cfs: "keeps e I (place_root_cfs a b)" for a b
    unfolding place_root_cfs_def by (intro tr_rules t)
  have boot: "keeps e I (copy_boot_files a b)" for a b
    unfolding copy_boot_files_def Let_def by (intro tr_rules keeps_steps) (auto intro: tr_rules)
  have hold: "keeps e I (steps [status_show m, link_holder a b c])" for m a b c
    by (rule keeps_steps) (auto intro: tr_rules t)
  show ?thesis unfolding materialize_def Let_def
    by (intro tr_rules keeps_steps) (auto intro!: tr_rules t land cfs boot hold)
qed

lemma keeps_lifecycle [tr_rules]:
  assumes t: "tools_keep I e"
  shows "keeps e I (stage d s)" "keeps e I (promote d b n)" "keeps e I (rollback d b)"
    "keeps e I (do_deploy d b r ci iss sk)" "keeps e I (status d c)" "keeps e I (check_layout d b)"
proof -
  show st: "keeps e I (stage d s)" for s
    unfolding stage_def by (intro tr_rules keeps_steps) (auto intro!: tr_rules t)
  show pr: "keeps e I (promote d b n)" for n
    unfolding promote_def Let_def by (intro tr_rules keeps_steps t) (auto intro!: tr_rules t)
  show "keeps e I (rollback d b)"
    unfolding rollback_def Let_def by (intro tr_rules keeps_steps t) (auto intro!: tr_rules t)
  show "keeps e I (do_deploy d b r ci iss sk)"
    unfolding do_deploy_def deploy_source_def by (intro tr_rules keeps_steps t) (auto intro!: tr_rules t st pr)
  show "keeps e I (status d c)"
    unfolding status_def status_role_def by (intro tr_rules)
  show "keeps e I (check_layout d b)"
    unfolding check_layout_def by (intro tr_rules)
qed

lemma keeps_lock [tr_rules]:
  assumes "others_keep I e" "keeps e I m"
  shows "keeps e I (deploy_lock d m)"
proof -
  have o: "keeps e I (syscall (open_rw1 p))" for p
    by (rule keeps_syscall) (auto intro: inv_write dest: open_rw1_write1)
  have "keeps e I flock"
    unfolding flock_def using assms(1)
    by (intro tr_asks_bnd keeps_cases keeps_bnd tr_rules keeps_syscall) (auto simp: others_keep_def)
  then show ?thesis unfolding deploy_lock_def
    by (intro tr_rules o assms(2))
qed

end

end
