(* ===== verification/GcSpec.thy ===== *)
theory GcSpec
  imports Lifecycle
begin

text \<open>
  Garbage collection: what \<open>gc\<close> and \<open>sweep_orphans\<close> may remove, what they must leave, and
  that the sweep removes exactly the objects whose last name is in the store.
\<close>

section \<open>Removing names\<close>

text \<open>Only names of \<open>A\<close> disappear, nothing else changes.\<close>

definition shrinks :: "path set \<Rightarrow> fs \<Rightarrow> fs \<Rightarrow> bool" where
  "shrinks A f g \<longleftrightarrow> wf_fs g \<and> inodes g = inodes f \<and> next_ino g = next_ino f \<and>
     (\<forall>q. lookup g q = lookup f q \<or> (q \<in> A \<and> lookup g q = None))"

lemma shrinks_refl: "wf_fs f \<Longrightarrow> shrinks A f f"
  by (simp add: shrinks_def)

lemma shrinks_wf: "shrinks A f g \<Longrightarrow> wf_fs g"
  by (simp add: shrinks_def)

lemma shrinks_trans: "shrinks A f g \<Longrightarrow> shrinks B g h \<Longrightarrow> B \<subseteq> A \<Longrightarrow> shrinks A f h"
  unfolding shrinks_def by (metis subsetD)

lemma shrinks_del:
  assumes "shrinks A f g" "p \<in> A" "p \<noteq> []" "wf_fs (del_entry p g)"
  shows "shrinks A f (del_entry p g)"
proof -
  have "lookup (del_entry p g) q = lookup f q \<or> (q \<in> A \<and> lookup (del_entry p g) q = None)" for q
    using assms by (cases "q = p") (auto simp: shrinks_def lookup_del_entry)
  then show ?thesis using assms by (simp add: shrinks_def fs_simps)
qed

lemma shrinks_unlink: "shrinks A f g \<Longrightarrow> p \<in> A \<Longrightarrow> unlink1 p g = Inr h \<Longrightarrow> shrinks A f h"
  using wf_unlink1 [of g p h] shrinks_wf [of A f g]
  by (cases "p = []") (auto simp: unlink1_def intro: shrinks_del split: option.splits node.splits)

lemma shrinks_rmdir: "shrinks A f g \<Longrightarrow> p \<in> A \<Longrightarrow> rmdir1 p g = Inr h \<Longrightarrow> shrinks A f h"
  using wf_rmdir1 [of g p h] shrinks_wf [of A f g]
  by (cases "p = []") (auto simp: rmdir1_def intro: shrinks_del split: option.splits node.splits if_splits)

lemma shrinks_rmtree:
  assumes "shrinks A f g" "{q. prefix p q} \<subseteq> A" "h \<in> set (snd (rmtree1 p g))"
  shows "shrinks A f h"
proof -
  have wf: "wf_fs g" using assms(1) by (rule shrinks_wf)
  have ne: "p \<noteq> []" and h: "h \<in> set (del_all (deepest_first (below g p) @ [p]) g)"
    using assms(3) by (auto simp: rmtree1_def split: option.splits node.splits if_splits)
  have "lookup h q = lookup g q \<or> (q \<in> {q. prefix p q} \<and> lookup h q = None)" for q
    using del_all_shrinks [OF rmtree1_dels(3) [OF wf ne] h, of q] rmtree1_only [OF wf assms(3)]
    by (auto simp: only_def)
  then have "shrinks {q. prefix p q} g h"
    using wf_rmtree1 [OF wf assms(3)] rmtree_keeps_inodes [OF assms(3)] by (simp add: shrinks_def)
  then show ?thesis by (rule shrinks_trans [OF assms(1) _ assms(2)])
qed

lemma tr_try_os:
  assumes "triple e P C m (\<lambda>_. C)"
  shows "triple e P C (try_os m) (\<lambda>_. C)"
  unfolding try_os_def by (rule tr_try [OF assms]) (auto intro: tr_ret tr_raise)

lemma keeps_shrinks:
  "p \<in> A \<Longrightarrow> keeps e (shrinks A f) (try_os (os_unlink p))"
  "p \<in> A \<Longrightarrow> keeps e (shrinks A f) (try_os (os_rmdir p))"
  "{q. prefix p q} \<subseteq> A \<Longrightarrow> keeps e (shrinks A f) (rmtree p)"
  unfolding os_unlink_def os_rmdir_def rmtree_def
    apply (intro tr_try_os tr_atomic; auto intro: shrinks_unlink)
   apply (intro tr_try_os tr_atomic; auto intro: shrinks_rmdir)
  apply (rule tr_syscall; auto intro: shrinks_rmtree last_in_set)
  done

section \<open>The sweep\<close>

lemma walk_files_below: "q \<in> set (walk_files f p) \<Longrightarrow> strict_prefix p q"
  by (simp add: walk_files_def below_def)

lemma walk_dirs_below: "q \<in> set (walk_dirs f p) \<Longrightarrow> strict_prefix p q"
  by (simp add: walk_dirs_def below_def)

lemma keeps_sweep:
  assumes "{q. strict_prefix s q} \<subseteq> A"
  shows "keeps e (shrinks A f) (sweep_orphans s)"
proof -
  have one: "keeps e (shrinks A f) (sweep_file p k)" if "strict_prefix s p" for p k
    unfolding sweep_file_def using assms that by (intro tr_rules keeps_shrinks) auto
  have files: "triple e (\<lambda>g. shrinks A f g \<and> ps = walk_files g s) (shrinks A f) (for_acc sweep_file ps b)
      (\<lambda>_. shrinks A f)" for ps b
    by (rule tr_exact, rule tr_pre [where P' = "shrinks A f"], rule tr_for_acc)
      (auto intro!: one dest: walk_files_below)
  have dirs: "triple e (\<lambda>g. shrinks A f g \<and> ps = deepest_first (walk_dirs g s)) (shrinks A f)
      (for_each (\<lambda>d. try_os (os_rmdir d)) ps) (\<lambda>_. shrinks A f)" for ps
    by (rule tr_exact, rule tr_pre [where P' = "shrinks A f"], rule tr_for_each)
      (use assms in \<open>auto intro!: keeps_shrinks dest: walk_dirs_below\<close>)
  have all: "keeps e (shrinks A f) (bnd (gets (\<lambda>f. walk_files f s)) (\<lambda>files.
       bnd (for_acc sweep_file files 0) (\<lambda>swept.
       bnd (gets (\<lambda>f. deepest_first (walk_dirs f s))) (\<lambda>dirs.
       bnd (for_each (\<lambda>d. try_os (os_rmdir d)) dirs) (\<lambda>_.
       ret swept)))))"
    by (intro tr_gets_bnd tr_bnd [OF files] tr_bnd [OF dirs] tr_ret)
  show ?thesis unfolding sweep_orphans_def
    by (rule keeps_bnd) (auto intro: tr_rules all)
qed

section \<open>What the collector may remove\<close>

definition stale_name :: "path \<Rightarrow> fs \<Rightarrow> string \<Rightarrow> bool" where
  "stale_name d f n \<longleftrightarrow> lookup f (d @ [n]) = Some Dir \<and> n \<noteq> ''shared'' \<and> \<not> startswith n ''.'' \<and>
     (\<forall>r \<in> set ROLES. role_view d f r \<noteq> Some n)"

definition stale_paths :: "path \<Rightarrow> fs \<Rightarrow> path set" where
  "stale_paths d f = {q. \<exists>n. stale_name d f n \<and> prefix (d @ [n]) q}"

definition removable :: "path \<Rightarrow> fs \<Rightarrow> path set" where
  "removable d f = stale_paths d f \<union> {q. strict_prefix (shared_objects d) q}"

lemma collect_roles_run: "collect (read_role d) ROLES e w = (Inr (map (role_view d (fsys w)) ROLES), w)"
  by (simp add: ROLES_def read_role_run run_simps)

lemma real_dir: "\<not> (is_symlink f p \<or> \<not> is_dir f p) \<longleftrightarrow> lookup f p = Some Dir"
  by (cases "is_symlink f p") (auto simp: is_dir_def stat_no_link is_symlink_def)

definition stale_list :: "path \<Rightarrow> fs \<Rightarrow> path list" where
  "stale_list d f = map (\<lambda>n. d @ [n]) (filter (stale_name d f) (sort (children f d)))"

lemma collect_stale_run:
  "collect_stale d e w = (case listdir1 d (fsys w) of Inl x \<Rightarrow> (Inl x, w) | Inr _ \<Rightarrow> (Inr (stale_list d (fsys w)), w))"
proof -
  have "filter (\<lambda>n. \<not> (is_symlink f (d @ [n]) \<or> \<not> is_dir f (d @ [n])) \<and>
          \<not> (n = ''shared'' \<or> startswith n ''.'' \<or> Some n \<in> set (map (role_view d f) ROLES))) xs
      = filter (stale_name d f) xs" for f xs
    unfolding stale_name_def real_dir set_map by (rule filter_cong [OF refl]) (auto simp: image_iff dest: sym)
  then show ?thesis
    by (auto simp: collect_stale_def bnd_def collect_roles_run reads_def gets_def listdir1_def stale_list_def
        split: sum.splits option.splits node.splits)
qed

lemma set_stale_list: "wf_fs f \<Longrightarrow> set (stale_list d f) = {d @ [n] | n. stale_name d f n}"
  by (auto simp: stale_list_def wf_children stale_name_def)

lemma stale_list_sub: "p \<in> set (stale_list d f) \<Longrightarrow> \<exists>n. p = d @ [n] \<and> stale_name d f n"
  by (auto simp: stale_list_def)

lemma tr_collect_stale:
  "triple e ((=) f) ((=) f) (collect_stale d) (\<lambda>ps g. g = f \<and> ps = stale_list d f)"
  by (auto simp: triple_def collect_stale_run split: sum.splits)

lemma gc_frame:
  assumes wf: "wf_fs f"
  shows "triple e ((=) f) (shrinks (removable d f) f) (gc d) (\<lambda>_. shrinks (removable d f) f)"
proof -
  let ?I = "shrinks (removable d f) f"
  have del: "keeps e ?I (for_each (\<lambda>p. if dry then log (''[dry-run] rm -rf '' @ path_str p)
             else steps [rmtree p, vlog (''removed deployment '' @ last p)]) (stale_list d f))" for dry
  proof (rule tr_for_each)
    fix p assume "p \<in> set (stale_list d f)"
    then obtain n where "p = d @ [n]" "stale_name d f n" using stale_list_sub by blast
    then have "{q. prefix p q} \<subseteq> removable d f" by (auto simp: removable_def stale_paths_def)
    then show "keeps e ?I (if dry then log (''[dry-run] rm -rf '' @ path_str p)
             else steps [rmtree p, vlog (''removed deployment '' @ last p)])"
      by (intro keeps_if keeps_steps) (auto intro: tr_rules keeps_shrinks)
  qed
  have sweep: "keeps e ?I (sweep_orphans (shared_objects d))"
    by (rule keeps_sweep) (auto simp: removable_def)
  have rest: "keeps e ?I (bnd (asks dry_run) (\<lambda>dry.
      bnd (for_each (\<lambda>p. if dry then log (''[dry-run] rm -rf '' @ path_str p)
             else steps [rmtree p, vlog (''removed deployment '' @ last p)]) (stale_list d f)) (\<lambda>_.
      if dry then log (''[dry-run] sweep orphaned objects in '' @ path_str (shared_objects d) @ '' (link count == 1)'')
      else bnd (sweep_orphans (shared_objects d)) (\<lambda>swept.
        if stale_list d f \<noteq> [] then
          log (''gc: removed '' @ show_int (int (length (stale_list d f))) @ '' deployment(s): '' @ join '', '' (map last (stale_list d f))
            @ (if swept \<noteq> 0 then ''; '' @ show_int swept @ '' orphan object(s)'' else []))
        else vlog ''gc: nothing to remove''))))"
    by (intro tr_rules del sweep)
  have first: "triple e ((=) f) ?I (collect_stale d) (\<lambda>ps g. g = f \<and> ps = stale_list d f)"
    by (rule tr_conseq [OF tr_collect_stale]) (use wf in \<open>auto intro: shrinks_refl\<close>)
  show ?thesis unfolding gc_def Let_def
    by (rule tr_bnd [OF first], rule tr_pure, rule tr_pre [where P' = ?I])
      (use rest wf in \<open>auto intro: shrinks_refl\<close>)
qed

section \<open>What the sweep removes\<close>

definition plain_store :: "path \<Rightarrow> fs \<Rightarrow> bool" where
  "plain_store s f \<longleftrightarrow> wf_fs f \<and> lookup f s = Some Dir \<and> (\<forall>p. strict_prefix s p \<longrightarrow> \<not> is_symlink f p)"

text \<open>The disk after the orphans among \<open>ps\<close> are gone.\<close>

definition without :: "fs \<Rightarrow> path list \<Rightarrow> fs" where
  "without f ps = f\<lparr>entries := filter (\<lambda>e. \<not> (fst e \<in> set ps \<and> is_orphan f (fst e))) (entries f)\<rparr>"

lemma without_obs [simp]: "inodes (without f ps) = inodes f" "next_ino (without f ps) = next_ino f"
  by (simp_all add: without_def)

lemma without_Nil [simp]: "without f [] = f"
  by (simp add: without_def)

lemma walk_file_ino:
  assumes "plain_store s f" "p \<in> set (walk_files f s)"
  shows "\<exists>i. lookup f p = Some (File i)"
proof -
  have p: "strict_prefix s p" "lookup f p \<noteq> None" "\<not> is_dir f p" "\<not> is_symlink f p"
    using assms wf_below [of f p s] by (auto simp: plain_store_def walk_files_def)
  then show ?thesis by (cases "lookup f p") (auto simp: is_symlink_def split: node.splits elim: node.exhaust)
qed

lemma is_orphan_file: "lookup f p = Some (File i) \<Longrightarrow> is_orphan f p \<longleftrightarrow> nlink f i = 1"
  by (simp add: is_orphan_def)

lemma entry_lookup: "wf_fs f \<Longrightarrow> e \<in> set (entries f) \<Longrightarrow> lookup f (fst e) = Some (snd e)"
  by (cases e) (auto simp: lookup_def wf_fs_def keys_ok_def image_iff)

lemma lookup_without:
  assumes wf: "wf_fs f" and ne: "[] \<notin> set ps"
  shows "lookup (without f ps) q = (if q \<in> set ps \<and> is_orphan f q then None else lookup f q)"
proof (cases "q = []")
  case False
  have "filter (\<lambda>e. \<not> (fst e \<in> set ps \<and> is_orphan f (fst e))) (entries f)
      = filter (\<lambda>(k, v). \<not> (k \<in> set ps \<and> is_orphan f k)) (entries f)"
    by (rule filter_cong) auto
  then have "map_of (filter (\<lambda>e. \<not> (fst e \<in> set ps \<and> is_orphan f (fst e))) (entries f)) q
      = (if \<not> (q \<in> set ps \<and> is_orphan f q) then map_of (entries f) q else None)"
    using map_of_filter_key [of "\<lambda>k. \<not> (k \<in> set ps \<and> is_orphan f k)" "entries f" q] by simp
  then show ?thesis using False by (simp add: lookup_def without_def del: de_Morgan_conj)
qed (use ne in auto)

lemma nlink_unique:
  assumes wf: "wf_fs f" and i: "lookup f p = Some (File i)" "nlink f i = 1" and e: "e \<in> set (entries f)" "snd e = File i"
  shows "fst e = p"
proof -
  have p: "(p, File i) \<in> set (entries f)" using i(1) wf
    by (auto simp: lookup_def split: if_splits dest: map_of_SomeD)
  obtain x where "filter (\<lambda>e. snd e = File i) (entries f) = [x]"
    using i(2) by (auto simp: nlink_def length_Suc_conv)
  then have "{e \<in> set (entries f). snd e = File i} = {x}" by (metis list.simps(15) set_empty2 set_filter list.set(1))
  then show ?thesis using p e by (metis (mono_tags, lifting) fst_conv mem_Collect_eq singletonD snd_conv)
qed

lemma nlink_without:
  assumes wf: "wf_fs f" and ps: "\<And>q. q \<in> set ps \<Longrightarrow> \<exists>i. lookup f q = Some (File i)"
    and p: "p \<notin> set ps" "lookup f p = Some (File i)"
  shows "nlink (without f ps) i = nlink f i"
proof -
  have "\<not> (fst x \<in> set ps \<and> is_orphan f (fst x))" if x: "x \<in> set (entries f)" "snd x = File i" for x
  proof
    assume o: "fst x \<in> set ps \<and> is_orphan f (fst x)"
    then have "nlink f i = 1" using entry_lookup [OF wf x(1)] x(2) by (simp add: is_orphan_file)
    then show False using nlink_unique [OF wf p(2) _ x] o p(1) by simp
  qed
  then have "filter (\<lambda>e. snd e = File i) (filter (\<lambda>e. \<not> (fst e \<in> set ps \<and> is_orphan f (fst e))) (entries f))
      = filter (\<lambda>e. snd e = File i) (entries f)"
    by (auto simp: filter_filter intro!: filter_cong)
  then show ?thesis by (simp add: nlink_def without_def)
qed

lemma without_snoc:
  "without f (ps @ [p]) = (if is_orphan f p then del_entry p (without f ps) else without f ps)"
proof -
  have "filter (\<lambda>e. \<not> (fst e \<in> set (ps @ [p]) \<and> is_orphan f (fst e))) al =
      (if is_orphan f p then filter (\<lambda>e. p \<noteq> fst e) (filter (\<lambda>e. \<not> (fst e \<in> set ps \<and> is_orphan f (fst e))) al)
       else filter (\<lambda>e. \<not> (fst e \<in> set ps \<and> is_orphan f (fst e))) al)" for al :: "(path \<times> node) list"
    by (induction al) auto
  then show ?thesis by (simp add: without_def del_entry_def AList.delete_eq case_prod_beta)
qed

lemma sweep_files:
  assumes s: "plain_store s f" and d: "distinct (walk_files f s)"
  shows "tot e ((=) f) (\<lambda>_. True) (for_acc sweep_file (walk_files f s) 0)
     (\<lambda>k g. g = without f (walk_files f s) \<and> k = int (length (filter (is_orphan f) (walk_files f s))))"
proof -
  let ?J = "\<lambda>ys k g. g = without f ys \<and> k = int (length (filter (is_orphan f) ys))"
  have wf: "wf_fs f" using s by (simp add: plain_store_def)
  have step: "tot e (?J ys b) (\<lambda>_. True) (sweep_file x b) (?J (ys @ [x]))"
    if w: "walk_files f s = ys @ x # zs" for ys x zs b
  proof -
    have files: "\<exists>i. lookup f q = Some (File i)" if "q \<in> set ys \<or> q = x" for q
      using walk_file_ino [OF s, of q] that w by auto
    then obtain i where i: "lookup f x = Some (File i)" by blast
    have ne: "[] \<notin> set ys" "x \<noteq> []" using files [of "[]"] i by auto
    have x: "x \<notin> set ys" using d w by simp
    have lk: "lookup (without f ys) x = Some (File i)"
      using i x by (simp add: lookup_without [OF wf ne(1)])
    have orph: "is_orphan (without f ys) x = is_orphan f x"
      using nlink_without [OF wf _ x i] files by (simp add: is_orphan_file [OF lk] is_orphan_file [OF i])
    have un: "unlink1 x (without f ys) = Inr (del_entry x (without f ys))"
      using lk by (simp add: unlink1_def)
    show ?thesis
      by (auto simp: without_snoc triple_def sweep_file_def try_os_def os_unlink_def run_simps orph un)
  qed
  show ?thesis
    by (rule tr_total [OF tr_for_acc_inv [where J = ?J and b = 0, OF step]]) auto
qed

lemma distinct_walk: "wf_fs f \<Longrightarrow> distinct (walk_files f s)" "wf_fs f \<Longrightarrow> distinct (below f s)"
  by (auto simp: walk_files_def below_def wf_fs_def keys_ok_def)

lemma set_walk_files:
  "plain_store s f \<Longrightarrow> q \<in> set (walk_files f s) \<longleftrightarrow> strict_prefix s q \<and> (\<exists>i. lookup f q = Some (File i))"
  using walk_file_ino [of s f q] wf_below [of f q s]
  by (auto simp: plain_store_def walk_files_def is_dir_def)

text \<open>Every name but the directories below \<open>s\<close> is as expected once the orphans are gone.\<close>

definition swept :: "path \<Rightarrow> fs \<Rightarrow> fs \<Rightarrow> bool" where
  "swept s f g \<longleftrightarrow> wf_fs g \<and> inodes g = inodes f \<and>
     (\<forall>q. lookup f q \<noteq> Some Dir \<longrightarrow> lookup g q = (if strict_prefix s q \<and> is_orphan f q then None else lookup f q)) \<and>
     (\<forall>q. \<not> strict_prefix s q \<longrightarrow> lookup g q = lookup f q)"

lemma wf_without:
  assumes "plain_store s f"
  shows "wf_fs (without f (walk_files f s))"
proof -
  have wf: "wf_fs f" using assms by (simp add: plain_store_def)
  have ne: "[] \<notin> set (walk_files f s)" by (auto dest: walk_files_below)
  note lk = lookup_without [OF wf ne]
  have "keys_ok (without f (walk_files f s))"
    using wf_keys [OF wf] by (auto simp: keys_ok_def without_def intro: distinct_fst_filter)
  moreover have dirs: "lookup (without f (walk_files f s)) q = Some Dir" if "lookup f q = Some Dir" for q
    using that set_walk_files [OF assms, of q] by (simp add: lk)
  have "lookup (without f (walk_files f s)) (butlast q) = Some Dir"
    if "lookup (without f (walk_files f s)) q = Some n" "q \<noteq> []" for q n
    using that wf_parent [OF wf, of q n] by (intro dirs) (auto simp: lk split: if_splits)
  ultimately show ?thesis
    using wf_file [OF wf] by (auto simp: wf_fs_def lk split: if_splits)
qed

lemma swept_files: "plain_store s f \<Longrightarrow> swept s f (without f (walk_files f s))"
proof -
  assume s: "plain_store s f"
  then have wf: "wf_fs f" by (simp add: plain_store_def)
  have ne: "[] \<notin> set (walk_files f s)" by (auto dest: walk_files_below)
  have "is_orphan f q \<Longrightarrow> strict_prefix s q \<Longrightarrow> lookup f q \<noteq> Some Dir \<Longrightarrow> \<exists>i. lookup f q = Some (File i)" for q
    using s by (cases "lookup f q")
      (auto simp: plain_store_def is_orphan_def is_symlink_def split: node.splits elim: node.exhaust)
  then show ?thesis
    using wf_without [OF s] set_walk_files [OF s]
    by (auto simp: swept_def lookup_without [OF wf ne])
qed

lemma swept_rmdir:
  assumes g: "swept s f g" and p: "strict_prefix s p" and r: "rmdir1 p g = Inr h"
  shows "swept s f h"
proof -
  have d: "lookup g p = Some Dir" and ne: "p \<noteq> []" and h: "h = del_entry p g"
    using r by (auto simp: rmdir1_def split: option.splits node.splits if_splits)
  then have "lookup f p = Some Dir" using g by (auto simp: swept_def split: if_splits)
  moreover have "wf_fs h" using wf_rmdir1 [OF _ r] g by (simp add: swept_def)
  ultimately show ?thesis using g p unfolding h swept_def by (auto simp: lookup_del_entry [OF ne] fs_simps)
qed

lemma tot_try_os:
  assumes "xtriple e P C (\<lambda>x f. is_oserror x \<and> J f) m (\<lambda>_. J)"
  shows "tot e P C (try_os m) (\<lambda>_. J)"
  unfolding try_os_def by (rule tr_try [OF assms]) (auto intro!: tr_ret tr_raise)

lemma sweep_dirs:
  assumes "\<forall>p \<in> set ps. strict_prefix s p"
  shows "tot e (swept s f) (\<lambda>_. True) (for_each (\<lambda>d. try_os (os_rmdir d)) ps) (\<lambda>_. swept s f)"
proof (rule tr_for_each_inv [where J = "\<lambda>_. swept s f"])
  fix ys x zs assume "ps = ys @ x # zs"
  then have "strict_prefix s x" using assms by auto
  then show "tot e (swept s f) (\<lambda>_. True) (try_os (os_rmdir x)) (\<lambda>_. swept s f)"
    unfolding os_rmdir_def
    by (intro tot_try_os tr_atomic) (auto intro: swept_rmdir simp: rmdir1_def split: option.splits node.splits if_splits)
qed

lemma sweep_total:
  assumes s: "plain_store s f"
  shows "tot e ((=) f) (\<lambda>_. True) (sweep_orphans s)
     (\<lambda>k g. swept s f g \<and> k = int (length (filter (is_orphan f) (walk_files f s))))"
proof -
  have wf: "wf_fs f" and d: "is_dir f s" using s by (auto simp: plain_store_def)
  let ?ps = "walk_files f s" and ?k = "int (length (filter (is_orphan f) (walk_files f s)))"
  have files: "tot e ((=) f) (\<lambda>_. True) (for_acc sweep_file ?ps 0) (\<lambda>k g. swept s f g \<and> k = ?k)"
    by (rule tr_total [OF sweep_files [OF s distinct_walk(1) [OF wf]]]) (use swept_files [OF s] in auto)
  have dirs: "tot e (\<lambda>g. (swept s f g \<and> k = ?k) \<and> ps = deepest_first (walk_dirs g s)) (\<lambda>_. True)
      (for_each (\<lambda>d. try_os (os_rmdir d)) ps) (\<lambda>_ g. swept s f g \<and> k = ?k)" for ps k
    by (rule tr_exact, rule tr_total [OF sweep_dirs [where s = s and f = f]]) (auto dest: walk_dirs_below)
  have "tot e ((=) f) (\<lambda>_. True) (bnd (gets (\<lambda>f. walk_files f s)) (\<lambda>files.
       bnd (for_acc sweep_file files 0) (\<lambda>swept.
       bnd (gets (\<lambda>f. deepest_first (walk_dirs f s))) (\<lambda>dirs.
       bnd (for_each (\<lambda>d. try_os (os_rmdir d)) dirs) (\<lambda>_.
       ret swept))))) (\<lambda>k g. swept s f g \<and> k = ?k)"
  proof (rule tr_gets_bnd, rule tr_exact)
    fix ps g assume "f = g \<and> ps = walk_files g s"
    then have [simp]: "g = f" "ps = ?ps" by auto
    show "tot e ((=) g) (\<lambda>_. True) (bnd (for_acc sweep_file ps 0) (\<lambda>swept.
       bnd (gets (\<lambda>f. deepest_first (walk_dirs f s))) (\<lambda>dirs.
       bnd (for_each (\<lambda>d. try_os (os_rmdir d)) dirs) (\<lambda>_.
       ret swept)))) (\<lambda>k g. swept s f g \<and> k = ?k)"
      unfolding \<open>g = f\<close> \<open>ps = ?ps\<close>
      by (intro tr_bnd [OF files] tr_gets_bnd tr_bnd [OF dirs] tr_ret) simp
  qed
  then show ?thesis
    unfolding sweep_orphans_def using d by (auto simp: triple_def gets_def bnd_def [of "gets _"])
qed

section \<open>What the collector leaves\<close>

definition pruned :: "fs \<Rightarrow> path list \<Rightarrow> fs" where
  "pruned f ps = f\<lparr>entries := filter (\<lambda>e. \<not> list_ex (\<lambda>p. prefix p (fst e)) ps) (entries f)\<rparr>"

lemma pruned_obs [simp]:
  "inodes (pruned f ps) = inodes f" "next_ino (pruned f ps) = next_ino f" "pruned f [] = f"
  by (simp_all add: pruned_def)

lemma pruned_snoc: "pruned f (ps @ [p]) = pruned (pruned f ps) [p]"
proof -
  have "filter (\<lambda>e. \<not> list_ex (\<lambda>p. prefix p (fst e)) (ps @ [p])) al =
      filter (\<lambda>e. \<not> list_ex (\<lambda>p. prefix p (fst e)) [p]) (filter (\<lambda>e. \<not> list_ex (\<lambda>p. prefix p (fst e)) ps) al)"
    for al :: "(path \<times> node) list"
    by (induction al) auto
  then show ?thesis by (simp only: pruned_def) simp
qed

lemma lookup_pruned:
  assumes "[] \<notin> set ps"
  shows "lookup (pruned f ps) q = (if \<exists>p \<in> set ps. prefix p q then None else lookup f q)"
proof (cases "q = []")
  case False
  have "filter (\<lambda>e. \<not> list_ex (\<lambda>p. prefix p (fst e)) ps) (entries f)
      = filter (\<lambda>(k, v). \<not> list_ex (\<lambda>p. prefix p k) ps) (entries f)"
    by (rule filter_cong) auto
  then show ?thesis
    using False map_of_filter_key [of "\<lambda>k. \<not> list_ex (\<lambda>p. prefix p k) ps" "entries f" q]
    by (simp add: lookup_def pruned_def list_ex_iff)
qed (use assms in auto)

lemma wf_pruned: 
  assumes wf: "wf_fs f" and ne: "[] \<notin> set ps"
  shows "wf_fs (pruned f ps)"
proof -
  note lk = lookup_pruned [OF ne]
  have "keys_ok (pruned f ps)"
    using wf_keys [OF wf] by (auto simp: keys_ok_def pruned_def intro: distinct_fst_filter)
  moreover have "prefix p q" if "prefix p (butlast q)" for p q :: path
    using that by (metis prefix_order.trans prefixeq_butlast)
  ultimately show ?thesis
    using wf_parent [OF wf] wf_file [OF wf] by (auto simp: wf_fs_def lk split: if_splits)
qed

lemma del_all_disk:
  "last (f # del_all ps f) = f\<lparr>entries := filter (\<lambda>e. fst e \<notin> set ps) (entries f)\<rparr>"
proof (induction ps arbitrary: f)
  case (Cons p ps)
  have "filter (\<lambda>e. fst e \<notin> set (p # ps)) al = filter (\<lambda>e. fst e \<notin> set ps) (AList.delete p al)"
    for al :: "(path \<times> node) list"
    by (induction al) auto
  then show ?case using Cons.IH [of "del_entry p f"] by (simp add: Let_def del_entry_def)
qed simp

lemma rmtree1_disk:
  assumes wf: "wf_fs f" and d: "lookup f p = Some Dir" and ne: "p \<noteq> []"
  shows "last (f # snd (rmtree1 p f)) = pruned f [p]"
proof -
  have "filter (\<lambda>e. fst e \<notin> set (deepest_first (below f p) @ [p])) (entries f)
      = filter (\<lambda>e. \<not> list_ex (\<lambda>p. prefix p (fst e)) [p]) (entries f)"
    using entry_lookup [OF wf] unfolding rmtree1_dels(1) [OF wf ne]
    by (intro filter_cong) auto
  then show ?thesis using d ne unfolding pruned_def by (simp add: rmtree1_def del_all_disk del: last.simps set_append)
qed

lemma stale_list_distinct: "wf_fs f \<Longrightarrow> distinct (children f d) \<Longrightarrow> distinct (stale_list d f)"
  by (auto simp: stale_list_def distinct_map inj_on_def)

lemma distinct_children: "wf_fs f \<Longrightarrow> distinct (children f d)"
proof -
  assume "wf_fs f"
  then have "distinct (filter (\<lambda>q. q \<noteq> [] \<and> butlast q = d) (map fst (entries f)))"
    by (simp add: wf_fs_def keys_ok_def)
  then show ?thesis unfolding children_def
    by (auto simp: distinct_map inj_on_def butlast_eq_iff)
qed

lemma remove_stale:
  assumes wf: "wf_fs f"
  shows "tot e ((=) f) (\<lambda>_. True)
    (for_each (\<lambda>p. steps [rmtree p, vlog (''removed deployment '' @ last p)]) (stale_list d f))
    (\<lambda>_. (=) (pruned f (stale_list d f)))"
proof -
  have ne: "[] \<notin> set (stale_list d f)" by (auto simp: stale_list_def)
  have step: "tot e ((=) (pruned f ys)) (\<lambda>_. True) (steps [rmtree x, vlog (''removed deployment '' @ last x)])
      (\<lambda>_. (=) (pruned f (ys @ [x])))"
    if w: "stale_list d f = ys @ x # zs" for ys x zs
  proof -
    obtain n where n: "x = d @ [n]" "stale_name d f n" using stale_list_sub [of x d f] w by auto
    have ys: "[] \<notin> set ys" "x \<notin> set ys"
      using ne w stale_list_distinct [OF wf distinct_children [OF wf], of d] by auto
    have "\<not> prefix p x" if p: "p \<in> set ys" for p
    proof -
      obtain m where "p = d @ [m]" using stale_list_sub [of p d f] p w by auto
      then show ?thesis using n p ys by auto
    qed
    then have dir: "lookup (pruned f ys) x = Some Dir"
      using n by (auto simp: lookup_pruned [OF ys(1)] stale_name_def)
    have r: "fst (rmtree1 x (pruned f ys)) = Inr ()"
      "last (pruned f ys # snd (rmtree1 x (pruned f ys))) = pruned f (ys @ [x])"
      using rmtree1_dir(1) [OF wf_pruned [OF wf ys(1)] dir] rmtree1_disk [OF wf_pruned [OF wf ys(1)] dir] n
      by (auto simp: pruned_snoc)
    have "tot e ((=) (pruned f ys)) (\<lambda>_. True) (rmtree x) (\<lambda>_. (=) (pruned f (ys @ [x])))"
      unfolding rmtree_def by (rule tr_syscall) (use r in auto)
    then show ?thesis unfolding steps.simps by (intro tr_bnd [OF _ tr_bnd [OF tr_vlog tr_ret]]) auto
  qed
  show ?thesis
    using tr_for_each_inv [where J = "\<lambda>ys. (=) (pruned f ys)", OF step] by simp
qed

lemma gc_total:
  assumes wf: "wf_fs f" and d: "lookup f d = Some Dir" and s: "plain_store (shared_objects d) f" and dry: "\<not> dry_run e"
  shows "tot e ((=) f) (\<lambda>_. True) (gc d) (\<lambda>_. swept (shared_objects d) (pruned f (stale_list d f)))"
proof -
  let ?s = "shared_objects d" and ?ps = "stale_list d f" let ?f = "pruned f ?ps"
  have ne: "[] \<notin> set ?ps" by (auto simp: stale_list_def)
  have no: "\<not> prefix p ?s" if "p \<in> set ?ps" for p
    using that stale_list_sub [of p d f] by (auto simp: shared_objects_path stale_name_def)
  have store: "plain_store ?s ?f"
    using s wf_pruned [OF wf ne] no by (auto simp: plain_store_def lookup_pruned [OF ne] is_symlink_def)
  have sweep: "tot e ((=) ?f) (\<lambda>_. True) (sweep_orphans ?s) (\<lambda>_. swept ?s ?f)"
    by (rule tr_total [OF sweep_total [OF store]]) auto
  have msg: "tot e (swept ?s ?f) (\<lambda>_. True) (if b then log x else vlog y) (\<lambda>_. swept ?s ?f)" for b x y
    by (cases b) (auto intro: tr_log tr_vlog)
  have first: "tot e ((=) f) (\<lambda>_. True) (collect_stale d) (\<lambda>ps g. f = g \<and> ps = ?ps)"
    using d by (auto simp: triple_def collect_stale_run listdir1_def)
  show ?thesis unfolding gc_def Let_def
    by (rule tr_bnd [OF first], rule tr_pure, rule tr_asks_bnd)
      (simp only: dry if_False, rule tr_bnd [OF remove_stale [OF wf] tr_bnd [OF sweep msg]])
qed

end
