(* ===== verification/EspSpec.thy ===== *)
theory EspSpec
  imports GcSpec
begin

text \<open>
  What happens on the EFI system partition: an atomic copy is old or new at every crash
  point, and the programs that work under \<open>@deploy\<close> leave the partition alone.
\<close>

section \<open>The partition\<close>

text \<open>A FAT volume mounted at \<open>b\<close>: no symbolic links, and no two of its names are one file.
  Temporary files on it are nobody else's and not sealed.\<close>

definition esp_fat :: "path \<Rightarrow> fs \<Rightarrow> bool" where
  "esp_fat b f \<longleftrightarrow> wf_fs f \<and> (\<forall>p. prefix b p \<longrightarrow> \<not> is_symlink f p) \<and>
     (\<forall>p q i. prefix b p \<longrightarrow> prefix b q \<longrightarrow> lookup f p = Some (File i) \<longrightarrow> lookup f q = Some (File i) \<longrightarrow> q = p) \<and>
     (\<forall>p i. prefix b p \<longrightarrow> dotted (last p) \<longrightarrow> lookup f p = Some (File i) \<longrightarrow>
        (\<forall>q. lookup f q = Some (File i) \<longrightarrow> q = p) \<and> (\<forall>nd. inodes f i = Some nd \<longrightarrow> \<not> verity nd))"

definition same_but :: "path set \<Rightarrow> fs \<Rightarrow> fs \<Rightarrow> bool" where
  "same_but A f g \<longleftrightarrow> (\<forall>q. q \<notin> A \<longrightarrow> lookup g q = lookup f q \<and> cat g q = cat f q)"

lemma same_but_refl [simp]: "same_but A f f"
  by (simp add: same_but_def)

lemma same_but_trans: "same_but A f g \<Longrightarrow> same_but B g h \<Longrightarrow> A \<subseteq> C \<Longrightarrow> B \<subseteq> C \<Longrightarrow> same_but C f h"
  by (fastforce simp: same_but_def)

text \<open>No temporary file of \<open>g\<close> is new.\<close>

definition no_temps :: "path \<Rightarrow> fs \<Rightarrow> fs \<Rightarrow> bool" where
  "no_temps b f g \<longleftrightarrow> (\<forall>p. prefix b p \<longrightarrow> dotted (last p) \<longrightarrow> lookup f p = None \<longrightarrow> lookup g p = None)"

lemma no_temps_refl [simp]: "no_temps b f f"
  by (simp add: no_temps_def)

lemma no_temps_trans: "no_temps b f g \<Longrightarrow> no_temps b g h \<Longrightarrow> no_temps b f h"
  by (simp add: no_temps_def)

lemma no_temps_same:
  "same_but A g h \<Longrightarrow> (\<And>q. q \<in> A \<Longrightarrow> dotted (last q) \<Longrightarrow> lookup h q = None) \<Longrightarrow> no_temps b g h"
  unfolding no_temps_def same_but_def by metis

lemma esp_fat_wf: "esp_fat b f \<Longrightarrow> wf_fs f"
  by (simp add: esp_fat_def)

lemma esp_unique: "esp_fat b f \<Longrightarrow> prefix b p \<Longrightarrow> prefix b q \<Longrightarrow> lookup f p = Some (File i) \<Longrightarrow> lookup f q = Some (File i) \<Longrightarrow> q = p"
  unfolding esp_fat_def by blast

lemma esp_tmp_unique:
  "esp_fat b f \<Longrightarrow> prefix b p \<Longrightarrow> dotted (last p) \<Longrightarrow> lookup f p = Some (File i) \<Longrightarrow> lookup f q = Some (File i) \<Longrightarrow> q = p"
  unfolding esp_fat_def by blast

section \<open>Writing a temporary file on it\<close>

lemma esp_writable:
  assumes "esp_fat b f" "prefix b p" "dotted (last p)" "lookup f p \<noteq> Some Dir" "lookup f (butlast p) = Some Dir"
  shows "writable f p"
proof (cases "lookup f p")
  case (Some n)
  then show ?thesis using assms wf_file [OF esp_fat_wf [OF assms(1)], of p]
    by (cases n) (auto simp: writable_def esp_fat_def is_symlink_def)
qed (use assms in \<open>simp add: writable_def\<close>)

lemma written_same:
  assumes "esp_fat b f" "prefix b p" "dotted (last p)" "written f p x g"
  shows "same_but {p} f g"
  using written_frame [OF assms(4) _ esp_fat_wf [OF assms(1)]] esp_tmp_unique [OF assms(1-3)]
  by (auto simp: same_but_def)

lemma written_fat:
  assumes f: "esp_fat b f" "prefix b p" "dotted (last p)" and g: "written f p x g" "wf_fs g"
  shows "esp_fat b g"
proof -
  have lk: "lookup g q = (if q = p then Some (File (ino_for f p)) else lookup f q)" for q
    using g(1) by (simp add: written_def)
  have fresh: "lookup f q \<noteq> Some (File (ino_for f p))" if "q \<noteq> p" for q
  proof
    assume q: "lookup f q = Some (File (ino_for f p))"
    then have "ino_for f p < next_ino f" using wf_file [OF esp_fat_wf [OF f(1)]] by blast
    then have "lookup f p = Some (File (ino_for f p))"
      by (auto simp: ino_for_def split: option.splits node.splits)
    then show False using esp_tmp_unique [OF f _ q] that by simp
  qed
  have "\<not> is_symlink g q" if "prefix b q" for q
    using f(1) that lk [of q] by (auto simp: esp_fat_def is_symlink_def split: option.splits)
  moreover have "q' = q" if "prefix b q" "prefix b q'" "lookup g q = Some (File i)" "lookup g q' = Some (File i)" for q q' i
    using that fresh [of q] fresh [of q'] esp_unique [OF f(1) that(1,2)] by (auto simp: lk split: if_splits)
  moreover have "q' = q \<and> (\<forall>nd. inodes g i = Some nd \<longrightarrow> \<not> verity nd)"
    if "prefix b q" "dotted (last q)" "lookup g q = Some (File i)" "lookup g q' = Some (File i)" for q q' i
    using that f fresh [of q] fresh [of q'] g(1)
    by (auto simp: lk esp_fat_def written_def split: if_splits)
  ultimately show ?thesis using g(2) unfolding esp_fat_def by blast
qed

text \<open>Renaming one file of the volume over another.\<close>

lemma esp_replace:
  assumes g: "esp_fat b g" "prefix b s" "prefix b d" "s \<noteq> d" "\<not> dotted (last d)" and s: "cat g s = Some x"
    and d: "lookup g d \<noteq> Some Dir" "lookup g (butlast d) = Some Dir" "d \<noteq> []"
  shows "\<exists>h. replace1 s d g = Inr h \<and> esp_fat b h \<and> same_but {s, d} g h \<and> cat h d = Some x \<and> lookup h s = None"
proof -
  obtain i where i: "lookup g s = Some (File i)" using cat_Some_lookup [OF s] by blast
  have ne: "s \<noteq> []" using i by auto
  have nd: "lookup g d \<noteq> Some (File i)" using esp_unique [OF g(1,2,3) i] g(4) by blast
  let ?h = "set_entry d (File i) (del_entry s g)"
  have r: "replace1 s d g = Inr ?h"
    using i d g(4) nd by (simp add: replace1_def parent_err_def)
  have wf: "wf_fs ?h" using wf_replace1 [OF esp_fat_wf [OF g(1)] r] .
  have lk: "lookup ?h q = (if q = d then Some (File i) else if q = s then None else lookup g q)" for q
    using ne d(3) by (simp add: fs_simps)
  have ct: "cat ?h q = cat g q" if "q \<notin> {s, d}" for q
    using that lk [of q] by (simp add: cat_def fs_simps split: option.splits node.splits)
  have "\<not> is_symlink ?h q" if "prefix b q" for q
    using g(1) that lk [of q] by (auto simp: esp_fat_def is_symlink_def split: option.splits)
  moreover
  let ?m = "\<lambda>q. if q = d then s else q"
  have m: "lookup g (?m q) = Some (File j)" "q \<noteq> s" if "lookup ?h q = Some (File j)" for q j
    using that i g(4) by (auto simp: lk split: if_splits)
  have "q' = q" if "prefix b q" "prefix b q'" "lookup ?h q = Some (File j)" "lookup ?h q' = Some (File j)" for q q' j
  proof -
    have "?m q' = ?m q" by (rule esp_unique [OF g(1) _ _ m(1) [OF that(3)] m(1) [OF that(4)]]) (use that g(2) in auto)
    then show ?thesis using m(2) [OF that(3)] m(2) [OF that(4)] by (auto split: if_splits)
  qed
  moreover have "q' = q \<and> (\<forall>nd. inodes ?h j = Some nd \<longrightarrow> \<not> verity nd)"
    if "prefix b q" "dotted (last q)" "lookup ?h q = Some (File j)" "lookup ?h q' = Some (File j)" for q q' j
  proof -
    have q: "?m q = q" using that(2) g(5) by auto
    have "?m q' = q" using esp_tmp_unique [OF g(1) that(1,2) _ m(1) [OF that(4)]] m(1) [OF that(3)] q by simp
    moreover have "\<forall>nd. inodes g j = Some nd \<longrightarrow> \<not> verity nd"
      using g(1) that(1,2) m(1) [OF that(3)] q unfolding esp_fat_def by auto
    ultimately show ?thesis using m(2) [OF that(3)] m(2) [OF that(4)] by (auto simp: fs_simps split: if_splits)
  qed
  ultimately have "esp_fat b ?h" using wf unfolding esp_fat_def by blast
  moreover have "cat ?h d = Some x" using s i by (simp add: cat_def lk fs_simps)
  moreover have "same_but {s, d} g ?h" using lk ct by (auto simp: same_but_def)
  ultimately show ?thesis using r lk [of s] g(4) by auto
qed

section \<open>Atomic copies\<close>

lemma mkdirs_existing: "lookup (fsys w) p = Some Dir \<Longrightarrow> mkdirs p e w = (Inr (), w)"
  by (cases "rev p") (auto simp: mkdirs_def Let_def os_mkdir_def mkdir1_def run_simps)

lemma tot_mkdirs_existing:
  "(\<And>f. P f \<Longrightarrow> lookup f p = Some Dir) \<Longrightarrow> xtriple e P C X (mkdirs p) (\<lambda>_. P)"
  by (auto simp: triple_def mkdirs_existing)

definition copy_ready :: "path \<Rightarrow> path \<Rightarrow> fs \<Rightarrow> bool" where
  "copy_ready b dst f \<longleftrightarrow> esp_fat b f \<and> prefix b (butlast dst) \<and> dst \<noteq> [] \<and> \<not> dotted (last dst) \<and> lookup f (butlast dst) = Some Dir \<and>
     lookup f dst \<noteq> Some Dir \<and> lookup f (copy_tmp dst) \<noteq> Some Dir"

lemma copy_tmp_path:
  "butlast (copy_tmp dst) = butlast dst" "copy_tmp dst \<noteq> []" "dotted (last (copy_tmp dst))" "dst \<noteq> [] \<Longrightarrow> copy_tmp dst \<noteq> dst"
proof -
  show "butlast (copy_tmp dst) = butlast dst" "copy_tmp dst \<noteq> []" "dotted (last (copy_tmp dst))"
    by (auto simp: copy_tmp_def dotted_def startswith_def)
  assume "dst \<noteq> []"
  moreover have "CHR ''.'' # last dst @ ''.tmp'' \<noteq> last dst"
    by (metis append_Cons length_append length_Cons add_Suc_right not_add_less1 lessI)
  ultimately show "copy_tmp dst \<noteq> dst" by (metis copy_tmp_def last_snoc)
qed

lemma copy_ready_paths:
  assumes "copy_ready b dst f"
  shows "prefix b dst" "prefix b (copy_tmp dst)" "writable f (copy_tmp dst)" "esp_fat b f"
proof -
  have d: "esp_fat b f" "prefix b (butlast dst)" "lookup f (butlast dst) = Some Dir" "lookup f (copy_tmp dst) \<noteq> Some Dir"
    using assms by (auto simp: copy_ready_def)
  show "prefix b dst" using d(2) by (metis prefix_order.trans prefixeq_butlast)
  show t: "prefix b (copy_tmp dst)" using d(2) by (simp add: copy_tmp_def)
  show "writable f (copy_tmp dst)" by (rule esp_writable [OF d(1) t copy_tmp_path(3) d(4)]) (simp add: copy_tmp_path d)
  show "esp_fat b f" by (rule d)
qed

lemma copy1_plain:
  assumes w: "writable f t" and s: "cat f s = Some x" and ne: "s \<noteq> t"
    and u: "\<And>i. lookup f t = Some (File i) \<Longrightarrow> lookup f s \<noteq> Some (File i)"
  shows "copy1 s t f = write1 t x f"
proof -
  obtain i where i: "lookup f s = Some (File i)" using cat_Some_lookup [OF s] by blast
  have r: "read1 s f = Inr x" using s i by (auto simp: read1_def cat_def split: option.splits)
  have l: "\<not> is_dir f t \<and> stat f t = lookup f t"
    using w by (cases "lookup f t") (auto simp: writable_def is_dir_def split: node.splits)
  then show ?thesis using r i u by (auto simp: copy1_def)
qed

lemma copy2_spec:
  assumes f: "esp_fat b f" "prefix b t" "dotted (last t)" "lookup f t \<noteq> Some Dir" "lookup f (butlast t) = Some Dir"
    and s: "cat f src = Some x" "src \<noteq> t"
  shows "tot e ((=) f) (\<lambda>g. esp_fat b g \<and> same_but {t} f g) (copy2 src t)
    (\<lambda>_ g. esp_fat b g \<and> same_but {t} f g \<and> cat g t = Some x)"
proof -
  have w: "writable f t" by (rule esp_writable [OF f])
  have cp: "copy1 src t f = write1 t x f"
  proof (rule copy1_plain [OF w s])
    show "lookup f t = Some (File j) \<Longrightarrow> lookup f src \<noteq> Some (File j)" for j
      using esp_tmp_unique [OF f(1,2,3), of j src] s(2) by blast
  qed
  have mid: "esp_fat b g \<and> same_but {t} f g" if "g \<in> set (snd (write1 t x f))" for g
  proof -
    have "\<exists>k. written f t (take k x) g" by (rule writable_write1(2) [OF w that])
    then obtain k where "written f t (take k x) g" by blast
    then show ?thesis using written_same [OF f(1,2,3)] written_fat [OF f(1,2,3)] wf_write1 [OF esp_fat_wf [OF f(1)] that] by blast
  qed
  let ?g = "last (f # snd (write1 t x f))"
  have "written f t x ?g" by (rule writable_write1(3) [OF w])
  then have g: "cat ?g t = Some x" and wr: "written f t x ?g" by (auto dest: written_cat)
  have "?g = f \<or> ?g \<in> set (snd (write1 t x f))" by (simp add: last_in_set)
  then have gm: "esp_fat b ?g" "same_but {t} f ?g" using mid f(1) by (auto intro: written_same)
  show ?thesis
    unfolding copy2_def using mid gm g
    by (intro tr_syscall) (auto simp: cp writable_write1(1) [OF w] simp del: last.simps)
qed

lemma replace_spec:
  assumes "prefix b s" "prefix b d" "s \<noteq> d" "d \<noteq> []" "\<not> dotted (last d)"
    and P: "\<And>g. P g \<Longrightarrow> esp_fat b g \<and> cat g s = Some x \<and> lookup g d \<noteq> Some Dir \<and> lookup g (butlast d) = Some Dir"
    and Q: "\<And>g h. P g \<Longrightarrow> esp_fat b h \<Longrightarrow> same_but {s, d} g h \<Longrightarrow> cat h d = Some x \<Longrightarrow> lookup h s = None \<Longrightarrow> C h \<and> Q () h"
  shows "tot e P C (os_replace s d) Q"
  unfolding os_replace_def
proof (rule tr_atomic)
  fix g assume g: "P g"
  obtain h where h: "replace1 s d g = Inr h" "esp_fat b h" "same_but {s, d} g h" "cat h d = Some x" "lookup h s = None"
    using esp_replace [of b g s d x] P [OF g] assms(1-5) by blast
  show "replace1 s d g = Inr h' \<Longrightarrow> C h' \<and> Q () h'" "replace1 s d g = Inl y \<Longrightarrow> False" for h' y
    using h Q [OF g h(2-5)] by auto
qed

lemma atomic_copy_spec:
  assumes c: "copy_ready b dst f" and s: "cat f src = Some x" "src \<noteq> copy_tmp dst" and dry: "\<not> dry_run e"
  defines "t \<equiv> copy_tmp dst"
  shows "tot e ((=) f)
     (\<lambda>g. esp_fat b g \<and> (same_but {t} f g \<or> same_but {t, dst} f g \<and> cat g dst = Some x))
     (atomic_copy src dst)
     (\<lambda>_ g. esp_fat b g \<and> same_but {t, dst} f g \<and> cat g dst = Some x \<and> lookup g t = None)"
    (is "tot e _ ?C _ ?Q")
proof -
  note P = copy_ready_paths [OF c, folded t_def] and D = copy_tmp_path [of dst, folded t_def]
  have dir: "lookup f (butlast dst) = Some Dir" and dst: "dst \<noteq> []" "\<not> dotted (last dst)" "lookup f dst \<noteq> Some Dir" "lookup f t \<noteq> Some Dir"
    using c by (auto simp: copy_ready_def t_def)
  let ?P = "\<lambda>g. esp_fat b g \<and> same_but {t} f g \<and> cat g t = Some x"
  have copy: "tot e ((=) f) ?C (copy2 src t) (\<lambda>_. ?P)"
    by (rule tr_total [OF copy2_spec [OF P(4,2) D(3) dst(4) _ s(1)]]) (use dir D s(2) in \<open>auto simp: t_def\<close>)
  have repl: "tot e ?P ?C (os_replace t dst) ?Q"
  proof (rule replace_spec [OF P(2,1) D(4) [OF dst(1)] dst(1,2)])
    fix g assume g: "?P g"
    have "lookup g dst = lookup f dst" "lookup g (butlast dst) = lookup f (butlast dst)"
      using g D dst(1) dir by (auto simp: same_but_def) (metis append_butlast_last_id append_self_conv not_Cons_self2)
    then show "esp_fat b g \<and> cat g t = Some x \<and> lookup g dst \<noteq> Some Dir \<and> lookup g (butlast dst) = Some Dir"
      using g dst dir by simp
    show "?C h \<and> ?Q () h" if "esp_fat b h" "same_but {t, dst} g h" "cat h dst = Some x" "lookup h t = None" for h
      using that g by (auto intro: same_but_trans)
  qed
  have body: "tot e ((=) f) ?C (steps [mkdirs (butlast dst), copy2 src t, os_replace t dst, vlog m]) ?Q" for m
    unfolding steps.simps
    by (rule tr_bnd [OF tot_mkdirs_existing tr_bnd [OF copy tr_bnd [OF repl tr_bnd [OF tr_vlog tr_ret]]]])
      (use dir in auto)
  show ?thesis unfolding atomic_copy_def t_def [symmetric]
    by (rule tr_asks_bnd) (simp only: dry if_False Let_def, rule body)
qed

end
