(* ===== verification/PromoteSpec.thy ===== *)
theory PromoteSpec
  imports EspSpec
begin

text \<open>
  Promotion and rollback: what the ESP and the role links hold at every crash point, and
  what they hold in the end.
\<close>

section \<open>Two mounts\<close>

definition separate :: "path \<Rightarrow> path \<Rightarrow> bool" where
  "separate d b \<longleftrightarrow> \<not> prefix d b \<and> \<not> prefix b d"

lemma separate_disjoint: "separate d b \<Longrightarrow> prefix d q \<Longrightarrow> \<not> prefix b q"
  unfolding separate_def using prefix_same_cases by blast

definition cur_efi :: "path \<Rightarrow> path" where "cur_efi b = esp_uki b ''current''"
definition fb_efi :: "path \<Rightarrow> path" where "fb_efi b = esp_uki b ''fallback''"

lemma esp_paths:
  "cur_efi b = b @ [''zerith'', ''current.efi'']"
  "fb_efi b = b @ [''zerith'', ''fallback.efi'']"
  "esp_limine b = b @ [''EFI'', ''BOOT'', ''BOOTX64.EFI'']"
proof -
  have "plain_name ''current.efi''" "plain_name ''fallback.efi''" "plain_name ''BOOTX64.EFI''"
    by (simp_all add: plain_name_def)
  then show "cur_efi b = b @ [''zerith'', ''current.efi'']" "fb_efi b = b @ [''zerith'', ''fallback.efi'']"
    "esp_limine b = b @ [''EFI'', ''BOOT'', ''BOOTX64.EFI'']"
    by (simp_all add: cur_efi_def fb_efi_def esp_uki_def esp_limine_def BOOTLOADER_NAME_def)
qed

lemma tmp_paths:
  "copy_tmp (cur_efi b) = b @ [''zerith'', ''.current.efi.tmp'']"
  "copy_tmp (fb_efi b) = b @ [''zerith'', ''.fallback.efi.tmp'']"
  "copy_tmp (esp_limine b) = b @ [''EFI'', ''BOOT'', ''.BOOTX64.EFI.tmp'']"
  by (simp_all add: esp_paths copy_tmp_def butlast_append)

lemmas all_paths = esp_paths tmp_paths [unfolded esp_paths]

definition esp_ready :: "path \<Rightarrow> fs \<Rightarrow> bool" where
  "esp_ready b f \<longleftrightarrow> copy_ready b (cur_efi b) f \<and> copy_ready b (fb_efi b) f \<and> copy_ready b (esp_limine b) f"

lemma esp_ready_copy:
  assumes g: "esp_ready b g" and d: "d \<in> {cur_efi b, fb_efi b, esp_limine b}"
    and h: "esp_fat b h" "same_but {copy_tmp d, d} g h" "cat h d = Some x" "lookup h (copy_tmp d) = None"
  shows "esp_ready b h"
proof -
  have hd: "lookup h d \<noteq> Some Dir" using cat_Some_lookup [OF h(3)] by auto
  show ?thesis
    using g d h hd unfolding esp_ready_def copy_ready_def same_but_def
    by (auto simp: all_paths butlast_append)
qed

text \<open>Everything outside the partition is as it was.\<close>

definition outside :: "path \<Rightarrow> fs \<Rightarrow> fs \<Rightarrow> bool" where
  "outside b f g \<longleftrightarrow> (\<forall>q. \<not> prefix b q \<longrightarrow> lookup g q = lookup f q \<and> cat g q = cat f q)"

lemma outside_refl [simp]: "outside b f f"
  by (simp add: outside_def)

lemma outside_same: "outside b f g \<Longrightarrow> same_but A g h \<Longrightarrow> (\<And>q. q \<in> A \<Longrightarrow> prefix b q) \<Longrightarrow> outside b f h"
  by (fastforce simp: outside_def same_but_def)

lemma copy_paths_inside: "d \<in> {cur_efi b, fb_efi b, esp_limine b} \<Longrightarrow> q \<in> {copy_tmp d, d} \<Longrightarrow> prefix b q"
  by (auto simp: all_paths)

text \<open>A state of the partition with the two images given.\<close>

definition esp_state :: "path \<Rightarrow> fs \<Rightarrow> string option \<Rightarrow> string option \<Rightarrow> fs \<Rightarrow> bool" where
  "esp_state b f c k g \<longleftrightarrow> esp_ready b g \<and> outside b f g \<and> no_temps b f g \<and> cat g (cur_efi b) = c \<and> cat g (fb_efi b) = k"

definition esp_mid :: "path \<Rightarrow> fs \<Rightarrow> (string option \<times> string option) set \<Rightarrow> fs \<Rightarrow> bool" where
  "esp_mid b f S g \<longleftrightarrow> esp_fat b g \<and> outside b f g \<and> (cat g (cur_efi b), cat g (fb_efi b)) \<in> S"

lemma esp_state_mid: "esp_state b f c k g \<Longrightarrow> (c, k) \<in> S \<Longrightarrow> esp_mid b f S g"
  by (auto simp: esp_state_def esp_mid_def esp_ready_def copy_ready_def)

lemma copy_on_esp:
  assumes d: "d \<in> {cur_efi b, fb_efi b, esp_limine b}" and dry: "\<not> dry_run e"
    and src: "\<And>g. esp_state b f c k g \<Longrightarrow> cat g src = Some x" and ns: "src \<noteq> copy_tmp d"
  defines "c' \<equiv> if d = cur_efi b then Some x else c" and "k' \<equiv> if d = fb_efi b then Some x else k"
  shows "tot e (esp_state b f c k) (esp_mid b f {(c, k), (c', k')}) (atomic_copy src d) (\<lambda>_. esp_state b f c' k')"
proof (rule tr_exact)
  fix g assume g: "esp_state b f c k g"
  then have ready: "esp_ready b g" and out: "outside b f g" and nt: "no_temps b f g" and ck: "cat g (cur_efi b) = c" "cat g (fb_efi b) = k"
    by (auto simp: esp_state_def)
  have cr: "copy_ready b d g" using ready d by (auto simp: esp_ready_def)
  note ins = copy_paths_inside [OF d]
  have ne: "cur_efi b \<noteq> fb_efi b" "cur_efi b \<noteq> copy_tmp d" "fb_efi b \<noteq> copy_tmp d" "esp_limine b \<noteq> cur_efi b" "esp_limine b \<noteq> fb_efi b"
    using d by (auto simp: all_paths)
  have mid1: "esp_mid b f {(c, k), (c', k')} h" if "esp_fat b h" "same_but {copy_tmp d} g h" for h
    using that ck ne outside_same [OF out that(2)] ins by (auto simp: esp_mid_def same_but_def)
  have ctk: "cat h (cur_efi b) = c' \<and> cat h (fb_efi b) = k'"
    if "same_but {copy_tmp d, d} g h" "cat h d = Some x" for h
    using that ck ne by (auto simp: same_but_def c'_def k'_def)
  have mid2: "esp_mid b f {(c, k), (c', k')} h"
    if "esp_fat b h" "same_but {copy_tmp d, d} g h" "cat h d = Some x" for h
    using that ctk [OF that(2,3)] outside_same [OF out that(2)] ins by (auto simp: esp_mid_def)
  have nd: "\<not> dotted (last d)" using cr by (simp add: copy_ready_def)
  have fin: "esp_state b f c' k' h"
    if "esp_fat b h" "same_but {copy_tmp d, d} g h" "cat h d = Some x" "lookup h (copy_tmp d) = None" for h
  proof -
    have "no_temps b g h" by (rule no_temps_same [OF that(2)]) (use that(4) nd in auto)
    then show ?thesis
      using esp_ready_copy [OF ready d that] ctk [OF that(2,3)] outside_same [OF out that(2)] ins no_temps_trans [OF nt]
      by (auto simp: esp_state_def)
  qed
  show "tot e ((=) g) (esp_mid b f {(c, k), (c', k')}) (atomic_copy src d) (\<lambda>_. esp_state b f c' k')"
    by (rule tr_total [OF atomic_copy_spec [OF cr src [OF g] ns dry]]) (use mid1 mid2 fin in blast)+
qed

section \<open>What the role flip and the collector leave alone\<close>

definition hold :: "path set \<Rightarrow> fs \<Rightarrow> fs \<Rightarrow> bool" where
  "hold A f g \<longleftrightarrow> (\<forall>q \<in> A. lookup g q = lookup f q \<and> cat g q = cat f q)"

lemma hold_refl [simp]: "hold A f f"
  by (simp add: hold_def)

lemma hold_trans: "hold A f g \<Longrightarrow> hold A g h \<Longrightarrow> hold A f h"
  by (simp add: hold_def)

lemma hold_names:
  "inodes h = inodes g \<Longrightarrow> (\<And>q. q \<in> A \<Longrightarrow> lookup h q = lookup g q) \<Longrightarrow> hold A g h"
  by (auto simp: hold_def cat_def split: option.splits node.splits)

definition role_names :: "path \<Rightarrow> path set" where
  "role_names d = {d @ [r] | r. r \<in> set ROLES} \<union> {role_tmp d r | r. r \<in> set ROLES}"

lemma hold_set_role:
  assumes "A \<inter> role_names d = {}" "r \<in> set ROLES" "set_role_mid d r f g \<or> set_role_end d r i f g"
  shows "hold A f g"
  using assms by (intro hold_names) (auto simp: set_role_mid_def set_role_end_def role_names_def)

lemma keeps_hold_roles:
  assumes A: "A \<inter> role_names d = {}" and r: "r \<in> set ROLES" and dry: "\<not> dry_run e"
  shows "i \<in> deploy_ids \<Longrightarrow> tot e (\<lambda>g. roles_free d g \<and> hold A f g) (hold A f) (set_role d r i) (\<lambda>_ g. roles_free d g \<and> hold A f g)"
    "tot e (\<lambda>g. roles_free d g \<and> hold A f g) (hold A f) (clear_role d r) (\<lambda>_ g. roles_free d g \<and> hold A f g)"
proof -
  show "tot e (\<lambda>g. roles_free d g \<and> hold A f g) (hold A f) (set_role d r i) (\<lambda>_ g. roles_free d g \<and> hold A f g)"
    if i: "i \<in> deploy_ids"
  proof (rule tr_exact)
    fix g assume g: "roles_free d g \<and> hold A f g"
    have i: "i \<noteq> []" using i by (simp add: deploy_ids_def plain_name_def)
    show "tot e ((=) g) (hold A f) (set_role d r i) (\<lambda>_ g. roles_free d g \<and> hold A f g)"
      by (rule tr_total [OF set_role_spec [OF _ r i dry]])
        (use g hold_set_role [OF A r] hold_trans roles_free_end [OF _ _ r] in blast)+
  qed
  show "tot e (\<lambda>g. roles_free d g \<and> hold A f g) (hold A f) (clear_role d r) (\<lambda>_ g. roles_free d g \<and> hold A f g)"
  proof (rule tr_exact)
    fix g assume g: "roles_free d g \<and> hold A f g"
    have "hold A g (del_entry (d @ [r]) g)"
      using A r by (intro hold_names) (auto simp: fs_simps role_names_def)
    then have h: "hold A f (del_entry (d @ [r]) g)" using g hold_trans by blast
    show "tot e ((=) g) (hold A f) (clear_role d r) (\<lambda>_ g. roles_free d g \<and> hold A f g)"
      by (rule tr_total [OF clear_role_spec [OF _ r dry]]) (use g h del_link_free [OF _ r] in auto)
  qed
qed

lemma shrinks_hold: "shrinks B f g \<Longrightarrow> A \<inter> B = {} \<Longrightarrow> hold A f g"
  by (intro hold_names) (auto simp: shrinks_def)

lemma removable_not_role:
  assumes "roles_free d f"
  shows "role_names d \<inter> removable d f = {}" "d \<notin> removable d f"
proof -
  have nd: "lookup f q \<noteq> Some Dir" if "q \<in> role_names d" for q
    using that roles_free_dirs [OF assms] by (auto simp: role_names_def)
  have 1: "\<exists>n. q = d @ [n]" if "q \<in> role_names d" for q
    using that by (auto simp: role_names_def role_tmp_path)
  show "role_names d \<inter> removable d f = {}"
    using nd 1 by (fastforce simp: removable_def stale_paths_def stale_name_def shared_objects_path strict_prefix_def)
  show "d \<notin> removable d f"
    by (auto simp: removable_def stale_paths_def shared_objects_path strict_prefix_def)
qed

lemma gc_roles:
  assumes f: "roles_free d f" and s: "shrinks (removable d f) f g"
  shows "roles_free d g" "roles_of d g = roles_of d f"
proof -
  have same: "lookup g q = lookup f q" if "q \<in> role_names d \<or> q = d" for q
    using s removable_not_role [OF f] that by (auto simp: shrinks_def)
  have "d @ [r] \<in> role_names d" "role_tmp d r \<in> role_names d" if "r \<in> set ROLES" for r
    using that by (auto simp: role_names_def)
  then show "roles_free d g" "roles_of d g = roles_of d f"
    using f shrinks_wf [OF s] same by (auto simp: roles_free_def roles_of_def role_view_def)
qed

text \<open>The trees of the deployments in \<open>ids\<close>.\<close>

definition trees :: "path \<Rightarrow> string set \<Rightarrow> fs \<Rightarrow> path set" where
  "trees d ids f = {q. \<exists>i \<in> ids. lookup f (d @ [i]) = Some Dir \<and> prefix (d @ [i]) q}"

lemma trees_role_names: "roles_free d f \<Longrightarrow> trees d ids f \<inter> role_names d = {}"
proof -
  assume f: "roles_free d f"
  have "False" if q: "q \<in> trees d ids f" "q \<in> role_names d" for q
  proof -
    obtain n where n: "q = d @ [n]" using q(2) by (auto simp: role_names_def role_tmp_path)
    then have "lookup f q = Some Dir" using q(1) by (auto simp: trees_def)
    then show False using q(2) roles_free_dirs [OF f] by (auto simp: role_names_def)
  qed
  then show ?thesis by blast
qed

lemma role_tree_kept:
  assumes i: "role_view d g r = Some i" "r \<in> set ROLES" "i \<noteq> ''shared''" "prefix (d @ [i]) q"
  shows "q \<notin> removable d g"
proof
  assume q: "q \<in> removable d g"
  have "\<not> strict_prefix (shared_objects d) q"
  proof
    assume "strict_prefix (shared_objects d) q"
    then have "prefix (d @ [''shared'', ''objects'']) q" by (simp add: shared_objects_path)
    then have "prefix (d @ [''shared'']) q"
      using append_prefixD [of "d @ [''shared'']" "[''objects'']" q] by simp
    then have "d @ [i] = d @ [''shared'']" using i(4) prefix_same_cases by fastforce
    then show False using i(3) by simp
  qed
  then obtain n where "stale_name d g n" "prefix (d @ [n]) q"
    using q by (auto simp: removable_def stale_paths_def)
  moreover from this have "d @ [n] = d @ [i]" using i(4) prefix_same_cases by fastforce
  ultimately show False using i by (auto simp: stale_name_def)
qed

lemma trees_kept:
  assumes "\<And>i. i \<in> ids \<Longrightarrow> (\<exists>r \<in> set ROLES. role_view d g r = Some i) \<and> i \<noteq> ''shared''"
  shows "trees d ids f \<inter> removable d g = {}"
  using assms role_tree_kept by (fastforce simp: trees_def)

lemma esp_not_removable: "separate d b \<Longrightarrow> {q. prefix b q} \<inter> removable d g = {}"
proof -
  assume s: "separate d b"
  have "prefix d q" if "q \<in> removable d g" for q
  proof -
    from that consider n where "prefix (d @ [n]) q" | "prefix (d @ [''shared'', ''objects'']) q"
      by (auto simp: removable_def stale_paths_def shared_objects_path strict_prefix_def)
    then show ?thesis by cases (auto intro: append_prefixD)
  qed
  then show ?thesis using separate_disjoint [OF s] by blast
qed

section \<open>Promotion\<close>

definition uki_of :: "path \<Rightarrow> string \<Rightarrow> path" where
  "uki_of d i = d @ [i, UKI_NAME]"

definition promote_ready :: "path \<Rightarrow> path \<Rightarrow> string \<Rightarrow> fs \<Rightarrow> bool" where
  "promote_ready d b new f \<longleftrightarrow> separate d b \<and> esp_ready b f \<and> roles_free d f \<and> plain_store (shared_objects d) f \<and>
     plain_name new \<and> new \<noteq> ''shared'' \<and> cat f (uki_of d new) \<noteq> None \<and> cat f (cur_efi b) \<noteq> None \<and>
     \<not> is_symlink f (d @ [new, BOOTLOADER_NAME]) \<and>
     (case roles_of d f ''current'' of None \<Rightarrow> False | Some old \<Rightarrow> plain_name old \<and> old \<noteq> ''shared'' \<and> old \<noteq> new)"

text \<open>The machine boots the old or the new image, and once it boots the new one the fallback
  is the old one.\<close>

definition boot_ok :: "path \<Rightarrow> fs \<Rightarrow> string option \<Rightarrow> fs \<Rightarrow> bool" where
  "boot_ok b f new g \<longleftrightarrow>
     (cat g (cur_efi b) = cat f (cur_efi b) \<and> cat g (fb_efi b) \<in> {cat f (fb_efi b), cat f (cur_efi b)}) \<or>
     (cat g (cur_efi b) = new \<and> cat g (fb_efi b) = cat f (cur_efi b))"

text \<open>The role links never run ahead of the ESP.\<close>

definition promote_safe :: "path \<Rightarrow> path \<Rightarrow> fs \<Rightarrow> string \<Rightarrow> fs \<Rightarrow> bool" where
  "promote_safe d b f new g \<longleftrightarrow> boot_ok b f (cat f (uki_of d new)) g \<and> flip_safe (roles_of d f) new (roles_of d g) \<and>
     (roles_of d g \<noteq> roles_of d f \<longrightarrow> cat g (cur_efi b) = cat f (uki_of d new) \<and> cat g (fb_efi b) = cat f (cur_efi b))"

lemma flip_safe_refl [simp]: "flip_safe v new v"
  by (simp add: flip_safe_def)

lemma outside_roles:
  assumes s: "separate d b" and o: "outside b f g"
  shows "roles_of d g = roles_of d f" "roles_free d f \<Longrightarrow> wf_fs g \<Longrightarrow> roles_free d g"
proof -
  have "\<not> prefix b (d @ x)" for x using separate_disjoint [OF s, of "d @ x"] by auto
  then have same: "lookup g (d @ x) = lookup f (d @ x)" for x using o by (auto simp: outside_def)
  have t: "r \<in> set ROLES \<Longrightarrow> lookup g (role_tmp d r) = lookup f (role_tmp d r)" for r
    using same by (simp add: role_tmp_path)
  show "roles_of d g = roles_of d f" using same by (auto simp: roles_of_def role_view_def)
  show "roles_free d f \<Longrightarrow> wf_fs g \<Longrightarrow> roles_free d g"
    using same [of "[]"] same t by (simp add: roles_free_def)
qed

lemma esp_mid_safe:
  assumes "separate d b" "esp_mid b f S g"
    "S \<subseteq> {(cat f (cur_efi b), cat f (fb_efi b)), (cat f (cur_efi b), cat f (cur_efi b)), (cat f (uki_of d new), cat f (cur_efi b))}"
  shows "promote_safe d b f new g"
  using assms outside_roles(1) [OF assms(1)] by (auto simp: esp_mid_def promote_safe_def boot_ok_def)

lemma tr_read_role_bnd:
  "r \<in> set ROLES \<Longrightarrow> xtriple e ((=) f) C X (k (roles_of d f r)) Q \<Longrightarrow> xtriple e ((=) f) C X (bnd (read_role d r) k) Q"
  by (simp add: triple_def bnd_def read_role_run roles_of_def)

end
