(* ===== verification/Promotion.thy ===== *)
theory Promotion
  imports PromoteSpec
begin

text \<open>
  The promotion of a staged deployment, from reading the roles to the last log line: it
  returns, and every state on the way can boot the old or the new deployment.
\<close>

definition role_flip :: "path \<Rightarrow> string \<Rightarrow> string option \<Rightarrow> unit proc" where
  "role_flip d new old = bnd (case old of None \<Rightarrow> ret () | Some i \<Rightarrow> set_role d ''fallback'' i) (\<lambda>_.
     bnd (set_role d ''current'' new) (\<lambda>_. clear_role d ''staging''))"

definition promote_copies :: "path \<Rightarrow> path \<Rightarrow> string \<Rightarrow> unit proc" where
  "promote_copies d b new = bnd (atomic_copy (cur_efi b) (fb_efi b)) (\<lambda>_.
     bnd (atomic_copy (uki_of d new) (cur_efi b)) (\<lambda>_.
     bnd (gets (\<lambda>f. is_file f (d @ [new, BOOTLOADER_NAME]))) (\<lambda>l.
     if_do l (atomic_copy (d @ [new, BOOTLOADER_NAME]) (esp_limine b)))))"

lemma roles_in: "''current'' \<in> set ROLES" "''fallback'' \<in> set ROLES" "''staging'' \<in> set ROLES"
  by (auto simp: ROLES_def)

lemma deploy_paths:
  "plain_name i \<Longrightarrow> pjoin (deploy_dir d i) UKI_NAME = uki_of d i"
  "plain_name i \<Longrightarrow> pjoin (deploy_dir d i) BOOTLOADER_NAME = d @ [i, BOOTLOADER_NAME]"
  by (simp_all add: deploy_dir_def uki_of_def)

lemma not_inside: "separate d b \<Longrightarrow> \<not> prefix b (d @ x)"
  using separate_disjoint [of d b "d @ x"] by auto

lemma copies_tot:
  assumes s: "separate d b" and dry: "\<not> dry_run e" and r: "esp_ready b f" and o: "cat f (cur_efi b) = Some o'"
    and n: "cat f (uki_of d new) = Some n'"
    and l: "\<not> is_symlink f (d @ [new, BOOTLOADER_NAME])"
  shows "tot e ((=) f) (promote_safe d b f new) (promote_copies d b new)
     (\<lambda>_. esp_state b f (Some n') (Some o'))"
proof -
  let ?C = "promote_safe d b f new" and ?k = "cat f (fb_efi b)"
  have out: "cat g (d @ x) = cat f (d @ x)" if "esp_state b f c k g" for g c k x
    using that not_inside [OF s] by (auto simp: esp_state_def outside_def)
  have far: "d @ x \<noteq> copy_tmp (cur_efi b)" "d @ x \<noteq> copy_tmp (esp_limine b)" for x
    using not_inside [OF s, of x] by (auto simp: tmp_paths)
  have 1: "tot e ((=) f) ?C (atomic_copy (cur_efi b) (fb_efi b)) (\<lambda>_. esp_state b f (Some o') (Some o'))"
    by (rule tr_total [OF copy_on_esp [OF _ dry, of "fb_efi b" b f "Some o'" ?k]])
      (use r o in \<open>auto simp: esp_state_def all_paths intro: esp_mid_safe [OF s]\<close>)
  have 2: "tot e (esp_state b f (Some o') (Some o')) ?C (atomic_copy (uki_of d new) (cur_efi b))
      (\<lambda>_. esp_state b f (Some n') (Some o'))"
    by (rule tr_total [OF copy_on_esp [OF _ dry, of "cur_efi b" b f "Some o'" "Some o'" _ n']])
      (use out far n o in \<open>auto simp: uki_of_def all_paths intro: esp_mid_safe [OF s]\<close>)
  let ?l = "d @ [new, BOOTLOADER_NAME]"
  have wf: "wf_fs f" using r by (auto simp: esp_ready_def copy_ready_def esp_fat_wf)
  have same: "is_file g ?l = is_file f ?l" if "esp_state b f c k g" for g c k
  proof -
    have "lookup g ?l = lookup f ?l" using that not_inside [OF s] by (auto simp: esp_state_def outside_def)
    then show ?thesis using l by (auto simp: is_file_def stat_no_link is_symlink_def)
  qed
  have 3: "tot e (esp_state b f (Some n') (Some o')) ?C (if_do (is_file f ?l) (atomic_copy ?l (esp_limine b)))
      (\<lambda>_. esp_state b f (Some n') (Some o'))"
  proof (rule tr_if_do)
    assume "is_file f ?l"
    then obtain i where "lookup f ?l = Some (File i)"
      using l by (auto simp: is_file_def stat_no_link split: option.splits node.splits)
    then obtain x where x: "cat f ?l = Some x" using wf_file_cat [OF wf] by blast
    show "tot e (esp_state b f (Some n') (Some o')) ?C (atomic_copy ?l (esp_limine b))
      (\<lambda>_. esp_state b f (Some n') (Some o'))"
      by (rule tr_total [OF copy_on_esp [OF _ dry, of "esp_limine b" b f "Some n'" "Some o'" _ x]])
        (use out far n o x in \<open>auto simp: uki_of_def all_paths intro: esp_mid_safe [OF s]\<close>)
  qed
  have 4: "tot e (esp_state b f (Some n') (Some o')) ?C (bnd (gets (\<lambda>f. is_file f ?l)) (\<lambda>l. if_do l (atomic_copy ?l (esp_limine b))))
      (\<lambda>_. esp_state b f (Some n') (Some o'))"
    by (rule tr_gets_const [where v = "is_file f ?l"]) (use same 3 in auto)
  show ?thesis unfolding promote_copies_def by (rule tr_bnd [OF 1 tr_bnd [OF 2 4]])
qed

text \<open>The role flip, next to paths it does not touch.\<close>

lemma flip_tot:
  assumes A: "A \<inter> role_names d = {}" and dry: "\<not> dry_run e" and n: "plain_name new"
    and v: "v ''current'' = Some old" "plain_name old"
  shows "tot e (\<lambda>g. (roles_free d g \<and> roles_of d g = v) \<and> hold A f g)
      (\<lambda>g. (roles_free d g \<and> flip_safe v new (roles_of d g)) \<and> hold A f g) (role_flip d new (Some old))
      (\<lambda>_ g. (roles_free d g \<and> roles_of d g = promoted v new) \<and> hold A f g)"
proof -
  have ids: "new \<in> deploy_ids" "old \<in> deploy_ids" using n v by (auto simp: deploy_ids_def)
  have a: "tot e (\<lambda>g. roles_free d g \<and> roles_of d g = v) (\<lambda>g. roles_free d g \<and> flip_safe v new (roles_of d g))
      (role_flip d new (Some old)) (\<lambda>_ g. roles_free d g \<and> roles_of d g = promoted v new)"
    using role_links.promote_flip [OF dry _ ids(1), of v d] v ids by (simp add: role_flip_def roles_in)
  note K = keeps_hold_roles [OF A _ dry]
  have b: "tot e (\<lambda>g. roles_free d g \<and> hold A f g) (hold A f) (role_flip d new (Some old))
      (\<lambda>_ g. roles_free d g \<and> hold A f g)"
    unfolding role_flip_def option.case
    by (rule tr_bnd [OF K(1) tr_bnd [OF K(1) K(2)]]) (use roles_in ids in auto)
  show ?thesis by (rule tr_conseq_x [OF tr_conj [OF a b]]) auto
qed

lemma promote_unfold:
  assumes p: "promote_ready d b new f" and dry: "\<not> dry_run e" and old: "roles_of d f ''current'' = Some old"
    and step: "\<And>m. xtriple e ((=) f) C X (bnd (promote_copies d b new) (\<lambda>_. bnd (role_flip d new (Some old)) (\<lambda>_. steps [gc d, log m]))) Q"
  shows "xtriple e ((=) f) C X (promote d b new) Q"
proof -
  have n: "plain_name new" "old \<noteq> new" using p old by (auto simp: promote_ready_def)
  obtain n' o' where cats: "cat f (uki_of d new) = Some n'" "cat f (cur_efi b) = Some o'"
    using p by (auto simp: promote_ready_def)
  have files: "is_file f (uki_of d new)" "is_file f (cur_efi b)"
    using cats cat_is_file by auto
  note step' = step [unfolded promote_copies_def role_flip_def bnd_assoc option.case if_do_def]
  have ne: "(Some old = Some new) = False" "(Some old = None) = False" using n(2) by auto
  show ?thesis
    unfolding promote_def Let_def deploy_paths [OF n(1)] cur_efi_def [symmetric] fb_efi_def [symmetric]
    apply (rule tr_read_role_bnd [OF roles_in(1)])
    apply (simp only: old ne if_False)
    apply (rule tr_asks_bnd, rule tr_gets_exact)
    apply (simp only: dry files simp_thms if_do_def if_False bnd_ret)
    apply (rule tr_gets_exact)
    apply (simp only: files simp_thms if_True bnd_assoc option.case ne)
    apply (rule step')
    done
qed

section \<open>The end of the promotion\<close>

lemma promoted_flip_safe: "v ''current'' = Some old \<Longrightarrow> flip_safe v new (promoted v new)"
  by (simp add: flip_safe_def promoted_def)

lemma outside_hold: "outside b f g \<Longrightarrow> (\<And>q. q \<in> A \<Longrightarrow> \<not> prefix b q) \<Longrightarrow> hold A f g"
  by (auto simp: outside_def hold_def)

lemma hold_mono: "hold A f g \<Longrightarrow> B \<subseteq> A \<Longrightarrow> hold B f g"
  by (auto simp: hold_def)

lemma trees_outside: "separate d b \<Longrightarrow> q \<in> trees d ids f \<Longrightarrow> \<not> prefix b q"
  using not_inside [of d b] by (auto simp: trees_def prefix_def)

lemma gc_from:
  assumes f: "roles_free d f" and st: "plain_store (shared_objects d) f" and dry: "\<not> dry_run e"
  shows "tot e ((=) f) (shrinks (removable d f) f) (gc d) (\<lambda>_ g. swept (shared_objects d) (pruned f (stale_list d f)) g \<and> shrinks (removable d f) f g)"
  by (rule tr_conseq_x [OF tr_conj [OF gc_total [OF _ _ st dry] gc_frame]])
    (use roles_free_dirs [OF f] in auto)

definition promote_done :: "path \<Rightarrow> path \<Rightarrow> fs \<Rightarrow> string \<Rightarrow> string \<Rightarrow> fs \<Rightarrow> bool" where
  "promote_done d b f old new g \<longleftrightarrow> roles_of d g = promoted (roles_of d f) new \<and>
     cat g (cur_efi b) = cat f (uki_of d new) \<and> cat g (fb_efi b) = cat f (cur_efi b) \<and>
     hold (trees d {old, new} f) f g"

text \<open>The names concerned: the ESP, the trees of both deployments, the store. None is a role.\<close>

definition promote_names :: "path \<Rightarrow> path \<Rightarrow> string \<Rightarrow> string \<Rightarrow> fs \<Rightarrow> path set" where
  "promote_names d b old new f = {q. prefix b q} \<union> trees d {old, new} f \<union> {q. prefix (shared_objects d) q}"

lemma promote_names_apart:
  assumes "separate d b" "roles_free d f"
  shows "promote_names d b old new f \<inter> role_names d = {}"
proof -
  have q: "\<exists>n. q = d @ [n]" if "q \<in> role_names d" for q
    using that by (auto simp: role_names_def role_tmp_path)
  have "{q. prefix b q} \<inter> role_names d = {}" using q not_inside [OF assms(1)] by blast
  moreover have "{q. prefix (shared_objects d) q} \<inter> role_names d = {}" using q by (fastforce simp: shared_objects_path)
  ultimately show ?thesis using trees_role_names [OF assms(2), of "{old, new}"] by (auto simp: promote_names_def)
qed

lemma promote_names_held:
  assumes s: "separate d b" and out: "outside b f g" and h: "hold (promote_names d b old new f) g h"
  shows "hold {q. prefix b q} g h" "hold (trees d {old, new} f) f h" "hold {q. prefix (shared_objects d) q} f h"
proof -
  show "hold {q. prefix b q} g h" by (rule hold_mono [OF h]) (auto simp: promote_names_def)
  show "hold (trees d {old, new} f) f h"
    by (rule hold_trans [OF outside_hold [OF out trees_outside [OF s]] hold_mono [OF h]]) (auto simp: promote_names_def)
  have "hold {q. prefix (shared_objects d) q} f g"
  proof (rule outside_hold [OF out])
    fix q assume "q \<in> {q. prefix (shared_objects d) q}"
    then obtain x where "q = d @ x" by (auto simp: shared_objects_path prefix_def)
    then show "\<not> prefix b q" using not_inside [OF s] by simp
  qed
  then show "hold {q. prefix (shared_objects d) q} f h"
    by (rule hold_trans [OF _ hold_mono [OF h]]) (auto simp: promote_names_def)
qed

text \<open>The collection at the end, once the ESP and the roles are done.\<close>

lemma promote_collect:
  assumes p: "promote_ready d b new f" and dry: "\<not> dry_run e" and old: "roles_of d f ''current'' = Some old"
    and g: "esp_state b f (cat f (uki_of d new)) (cat f (cur_efi b)) g"
    and h: "roles_free d h" "roles_of d h = promoted (roles_of d f) new" "hold (promote_names d b old new f) g h"
    and safe: "\<And>k. hold {q. prefix b q} g k \<Longrightarrow> flip_safe (roles_of d f) new (roles_of d k) \<Longrightarrow> promote_safe d b f new k"
  shows "tot e ((=) h) (promote_safe d b f new) (gc d) (\<lambda>_. promote_done d b f old new)"
proof -
  let ?v = "roles_of d f" and ?T = "trees d {old, new} f" and ?E = "{q. prefix b q}"
  have s: "separate d b" and st: "plain_store (shared_objects d) f" and n: "new \<noteq> ''shared''" "old \<noteq> ''shared''"
    using p old by (auto simp: promote_ready_def)
  have out: "outside b f g" using g by (simp add: esp_state_def)
  note held = promote_names_held [OF s out h(3)]
  have efi: "cur_efi b \<in> ?E" "fb_efi b \<in> ?E" by (auto simp: esp_paths)
  have "plain_store (shared_objects d) h"
    using st held(3) h(1) by (auto simp: plain_store_def hold_def roles_free_def is_symlink_def strict_prefix_def)
  note G = gc_from [OF h(1) this dry]
  have kept: "?T \<inter> removable d h = {}"
  proof (rule trees_kept)
    fix i assume i: "i \<in> {old, new}"
    then have "roles_of d h ''current'' = Some i \<or> roles_of d h ''fallback'' = Some i"
      using h(2) old by (auto simp: promoted_def)
    then show "(\<exists>r \<in> set ROLES. role_view d h r = Some i) \<and> i \<noteq> ''shared''"
      using i n roles_in by (auto simp: roles_of_def split: if_splits)
  qed
  have fin: "roles_of d k = promoted ?v new \<and> hold ?E g k \<and> hold ?T f k" if k: "shrinks (removable d h) h k" for k
    using gc_roles [OF h(1) k] h(2) hold_trans [OF held(1) shrinks_hold [OF k esp_not_removable [OF s]]]
      hold_trans [OF held(2) shrinks_hold [OF k kept]] by auto
  show ?thesis
  proof (rule tr_total [OF G])
    show "promote_safe d b f new k" if "shrinks (removable d h) h k" for k
      using safe [of k] fin [OF that] promoted_flip_safe [where v = ?v, OF old, of new] by simp
    show "promote_done d b f old new k"
      if "swept (shared_objects d) (pruned h (stale_list d h)) k \<and> shrinks (removable d h) h k" for k
      using fin [of k] that g efi by (auto simp: promote_done_def esp_state_def hold_def)
  qed auto
qed

lemma promote_tot:
  assumes p: "promote_ready d b new f" and dry: "\<not> dry_run e" and old: "roles_of d f ''current'' = Some old"
  shows "tot e ((=) f) (promote_safe d b f new) (promote d b new) (\<lambda>_. promote_done d b f old new)"
proof -
  let ?v = "roles_of d f" and ?C = "promote_safe d b f new" and ?E = "{q. prefix b q}"
  let ?A = "promote_names d b old new f"
  have n: "plain_name new" "plain_name old" and s: "separate d b" and r: "esp_ready b f" and free: "roles_free d f"
    and ls: "\<not> is_symlink f (d @ [new, BOOTLOADER_NAME])"
    using p old by (auto simp: promote_ready_def)
  obtain n' o' where cats: "cat f (uki_of d new) = Some n'" "cat f (cur_efi b) = Some o'"
    using p by (auto simp: promote_ready_def)
  have efi: "cur_efi b \<in> ?E" "fb_efi b \<in> ?E" by (auto simp: esp_paths)
  have safe: "?C k" if "esp_state b f (Some n') (Some o') g" "hold ?E g k" "flip_safe ?v new (roles_of d k)" for g k
    using that efi cats by (auto simp: promote_safe_def boot_ok_def esp_state_def hold_def)
  have tail: "tot e (esp_state b f (Some n') (Some o')) ?C
      (bnd (role_flip d new (Some old)) (\<lambda>_. steps [gc d, log m])) (\<lambda>_. promote_done d b f old new)" for m
  proof (rule tr_exact)
    fix g assume g: "esp_state b f (Some n') (Some o') g"
    then have out: "outside b f g" and wfg: "wf_fs g"
      by (auto simp: esp_state_def esp_ready_def copy_ready_def esp_fat_wf)
    note gr = outside_roles [OF s out]
    have flip: "tot e ((=) g) ?C (role_flip d new (Some old))
        (\<lambda>_ h. (roles_free d h \<and> roles_of d h = promoted ?v new) \<and> hold ?A g h)"
      by (rule tr_conseq_x [OF flip_tot [where v = ?v and f = g, OF promote_names_apart [OF s free] dry n(1) old n(2)]])
        (use gr free wfg safe [OF g] promote_names_held(1) [OF s out] in auto)
    have coll: "tot e (\<lambda>h. (roles_free d h \<and> roles_of d h = promoted ?v new) \<and> hold ?A g h) ?C (gc d)
        (\<lambda>_. promote_done d b f old new)"
      by (rule tr_exact, rule promote_collect [OF p dry old, where g = g]) (use g cats safe [OF g] in auto)
    show "tot e ((=) g) ?C (bnd (role_flip d new (Some old)) (\<lambda>_. steps [gc d, log m])) (\<lambda>_. promote_done d b f old new)"
      unfolding steps.simps
      by (rule tr_bnd [OF flip tr_bnd [OF coll tr_bnd [OF tr_log tr_ret]]]) auto
  qed
  show ?thesis
    by (rule promote_unfold [OF p dry old], rule tr_bnd [OF copies_tot [OF s dry r cats(2) cats(1) ls] tail])
qed

end
