(* ===== verification/Rollback.thy ===== *)
theory Rollback
  imports Promotion
begin

text \<open>
  Rolling back: the two images on the ESP and the two role links are exchanged, no image is
  lost on the way, and the machine can boot at every crash point.
\<close>

definition swap_path :: "path \<Rightarrow> path" where
  "swap_path b = swap_tmp (cur_efi b)"

lemma swap_path: "swap_path b = b @ [''zerith'', ''.swap.efi.tmp'']"
  by (simp add: swap_path_def swap_tmp_def esp_paths butlast_append)

definition rollback_ready :: "path \<Rightarrow> path \<Rightarrow> fs \<Rightarrow> bool" where
  "rollback_ready d b f \<longleftrightarrow> separate d b \<and> esp_ready b f \<and> roles_free d f \<and> lookup f (swap_path b) \<noteq> Some Dir \<and>
     cat f (cur_efi b) \<noteq> None \<and> cat f (fb_efi b) \<noteq> None \<and>
     (case (roles_of d f ''current'', roles_of d f ''fallback'') of
        (Some c, Some k) \<Rightarrow> plain_name c \<and> plain_name k | _ \<Rightarrow> False)"

text \<open>The current image is one of the two, whole; the other one is the fallback, or waits in
  the swap file while the fallback is missing.\<close>

definition swap_ok :: "path \<Rightarrow> fs \<Rightarrow> fs \<Rightarrow> bool" where
  "swap_ok b f g \<longleftrightarrow>
     (cat g (cur_efi b) = cat f (cur_efi b) \<and> cat g (fb_efi b) = cat f (fb_efi b)) \<or>
     (cat g (cur_efi b) = cat f (fb_efi b) \<and>
       (cat g (fb_efi b) = cat f (cur_efi b) \<or>
        (lookup g (fb_efi b) = None \<and> cat g (swap_path b) = cat f (cur_efi b))))"

definition swap_safe :: "path \<Rightarrow> path \<Rightarrow> fs \<Rightarrow> fs \<Rightarrow> bool" where
  "swap_safe d b f g \<longleftrightarrow> swap_ok b f g \<and>
     (\<forall>r \<in> {''current'', ''fallback''}. roles_of d g r \<in> {roles_of d f ''current'', roles_of d f ''fallback''}) \<and>
     roles_of d g ''staging'' = roles_of d f ''staging'' \<and>
     (roles_of d g \<noteq> roles_of d f \<longrightarrow> cat g (cur_efi b) = cat f (fb_efi b) \<and> cat g (fb_efi b) = cat f (cur_efi b))"

definition swap_done :: "path \<Rightarrow> path \<Rightarrow> fs \<Rightarrow> fs \<Rightarrow> bool" where
  "swap_done d b f g \<longleftrightarrow> cat g (cur_efi b) = cat f (fb_efi b) \<and> cat g (fb_efi b) = cat f (cur_efi b) \<and>
     roles_of d g = (roles_of d f)(''current'' := roles_of d f ''fallback'', ''fallback'' := roles_of d f ''current'')"

definition esp_swap :: "path \<Rightarrow> unit proc" where
  "esp_swap b = steps
     [copy2 (cur_efi b) (swap_path b),
      os_replace (fb_efi b) (cur_efi b),
      os_replace (swap_path b) (fb_efi b),
      vlog ''swapped ESP UKIs'']"

lemma swap_names:
  "\<not> dotted (last (cur_efi b))" "\<not> dotted (last (fb_efi b))" "dotted (last (swap_path b))"
  "cur_efi b \<noteq> swap_path b" "fb_efi b \<noteq> swap_path b" "fb_efi b \<noteq> cur_efi b" "cur_efi b \<noteq> []" "fb_efi b \<noteq> []"
  "prefix b (cur_efi b)" "prefix b (fb_efi b)" "prefix b (swap_path b)"
  "butlast (cur_efi b) = b @ [''zerith'']" "butlast (fb_efi b) = b @ [''zerith'']" "butlast (swap_path b) = b @ [''zerith'']"
  "b @ [''zerith''] \<noteq> cur_efi b" "b @ [''zerith''] \<noteq> fb_efi b" "b @ [''zerith''] \<noteq> swap_path b"
  by (auto simp: esp_paths swap_path butlast_append dotted_def startswith_def)

lemma swap_tot:
  assumes r: "rollback_ready d b f"
  shows "tot e ((=) f) (\<lambda>g. esp_fat b g \<and> outside b f g \<and> swap_ok b f g) (esp_swap b)
    (\<lambda>_ g. esp_fat b g \<and> outside b f g \<and> cat g (cur_efi b) = cat f (fb_efi b) \<and> cat g (fb_efi b) = cat f (cur_efi b) \<and>
       same_but {swap_path b, cur_efi b, fb_efi b} f g \<and> lookup g (swap_path b) = None)"
    (is "tot e _ ?C _ ?Q")
proof -
  have fat: "esp_fat b f" and dir: "lookup f (b @ [''zerith'']) = Some Dir"
    and nd: "lookup f (swap_path b) \<noteq> Some Dir" "lookup f (cur_efi b) \<noteq> Some Dir" "lookup f (fb_efi b) \<noteq> Some Dir"
    using r by (auto simp: rollback_ready_def esp_ready_def copy_ready_def swap_names)
  obtain x y where xy: "cat f (cur_efi b) = Some x" "cat f (fb_efi b) = Some y"
    using r by (auto simp: rollback_ready_def)
  note N = swap_names [of b]
  have out: "outside b f g" if "same_but A f g" "A \<subseteq> {cur_efi b, fb_efi b, swap_path b}" for g A
    using that N outside_same [OF outside_refl that(1), of b] by auto
  let ?P1 = "\<lambda>g. esp_fat b g \<and> same_but {swap_path b} f g \<and> cat g (swap_path b) = Some x"
  let ?P2 = "\<lambda>g. esp_fat b g \<and> same_but {swap_path b, cur_efi b, fb_efi b} f g \<and> cat g (swap_path b) = Some x \<and>
     cat g (cur_efi b) = Some y \<and> lookup g (fb_efi b) = None"
  have 1: "tot e ((=) f) ?C (copy2 (cur_efi b) (swap_path b)) (\<lambda>_. ?P1)"
    by (rule tr_total [OF copy2_spec [OF fat N(11,3) nd(1) _ xy(1)]])
      (use N dir out [where A = "{swap_path b}"] in \<open>auto simp: swap_ok_def same_but_def [where A = "{swap_path b}"]\<close>)
  have 2: "tot e ?P1 ?C (os_replace (fb_efi b) (cur_efi b)) (\<lambda>_. ?P2)"
  proof (rule replace_spec [OF N(10,9,6,7,1)])
    fix g assume g: "?P1 g"
    then show "esp_fat b g \<and> cat g (fb_efi b) = Some y \<and> lookup g (cur_efi b) \<noteq> Some Dir \<and> lookup g (butlast (cur_efi b)) = Some Dir"
      using N nd dir xy by (auto simp: same_but_def)
    fix h assume h: "esp_fat b h" "same_but {fb_efi b, cur_efi b} g h" "cat h (cur_efi b) = Some y" "lookup h (fb_efi b) = None"
    have sb: "same_but {swap_path b, cur_efi b, fb_efi b} f h" using g h(2) by (auto intro: same_but_trans)
    have sw: "cat h (swap_path b) = Some x" using g h(2) N(4-5) by (auto simp: same_but_def)
    show "?C h \<and> ?P2 h" using h sb sw out [OF sb] xy by (auto simp: swap_ok_def)
  qed
  have 3: "tot e ?P2 ?C (os_replace (swap_path b) (fb_efi b)) ?Q"
  proof (rule replace_spec [OF N(11,10) N(5) [symmetric] N(8,2)])
    fix g assume g: "?P2 g"
    then show "esp_fat b g \<and> cat g (swap_path b) = Some x \<and> lookup g (fb_efi b) \<noteq> Some Dir \<and> lookup g (butlast (fb_efi b)) = Some Dir"
      using N dir by (auto simp: same_but_def)
    fix h assume h: "esp_fat b h" "same_but {swap_path b, fb_efi b} g h" "cat h (fb_efi b) = Some x" "lookup h (swap_path b) = None"
    have sb: "same_but {swap_path b, cur_efi b, fb_efi b} f h" using g h(2) by (auto intro: same_but_trans)
    have cu: "cat h (cur_efi b) = Some y" using g h(2) N(4,6) by (auto simp: same_but_def)
    show "?C h \<and> ?Q () h" using h sb cu out [OF sb] xy by (auto simp: swap_ok_def)
  qed
  show ?thesis unfolding esp_swap_def steps.simps
    by (rule tr_bnd [OF 1 tr_bnd [OF 2 tr_bnd [OF 3 tr_bnd [OF tr_vlog tr_ret]]]]) auto
qed

definition role_swap :: "path \<Rightarrow> string \<Rightarrow> string \<Rightarrow> unit proc" where
  "role_swap d back c = bnd (set_role d ''current'' back) (\<lambda>_. set_role d ''fallback'' c)"

lemma rollback_unfold:
  assumes r: "rollback_ready d b f" and dry: "\<not> dry_run e" and v: "roles_of d f ''current'' = Some c" "roles_of d f ''fallback'' = Some k"
    and step: "\<And>m. xtriple e ((=) f) C X (bnd (esp_swap b) (\<lambda>_. bnd (role_swap d k c) (\<lambda>_. log m))) Q"
  shows "xtriple e ((=) f) C X (rollback d b) Q"
proof -
  obtain y where "cat f (fb_efi b) = Some y" using r by (auto simp: rollback_ready_def)
  then have there: "is_file f (fb_efi b)" by (rule cat_is_file)
  show ?thesis
    unfolding rollback_def Let_def cur_efi_def [symmetric] fb_efi_def [symmetric] swap_path_def [symmetric]
    apply (rule tr_read_role_bnd [OF roles_in(1)], rule tr_read_role_bnd [OF roles_in(2)])
    apply (simp only: v option.case)
    apply (rule tr_asks_bnd, rule tr_gets_exact)
    apply (simp only: dry there simp_thms if_do_def if_False bnd_ret)
    apply (rule step [unfolded esp_swap_def role_swap_def])
    done
qed

lemma rollback_tot:
  assumes r: "rollback_ready d b f" and dry: "\<not> dry_run e"
  shows "tot e ((=) f) (swap_safe d b f) (rollback d b) (\<lambda>_. swap_done d b f)"
proof -
  let ?v = "roles_of d f" and ?E = "{q. prefix b q}"
  obtain c k where v: "?v ''current'' = Some c" "?v ''fallback'' = Some k" and ids: "c \<in> deploy_ids" "k \<in> deploy_ids"
    using r by (auto simp: rollback_ready_def deploy_ids_def split: option.splits)
  have s: "separate d b" and free: "roles_free d f" using r by (auto simp: rollback_ready_def)
  have E: "?E \<inter> role_names d = {}"
  proof -
    have q: "\<exists>n. q = d @ [n]" if "q \<in> role_names d" for q
      using that by (auto simp: role_names_def role_tmp_path)
    then show ?thesis using not_inside [OF s] by blast
  qed
  have efi: "cur_efi b \<in> ?E" "fb_efi b \<in> ?E" using swap_names by auto
  let ?Q1 = "\<lambda>g. esp_fat b g \<and> outside b f g \<and> cat g (cur_efi b) = cat f (fb_efi b) \<and> cat g (fb_efi b) = cat f (cur_efi b)"
  have 1: "tot e ((=) f) (swap_safe d b f) (esp_swap b) (\<lambda>_. ?Q1)"
    by (rule tr_total [OF swap_tot [OF r]]) (use outside_roles(1) [OF s] in \<open>auto simp: swap_safe_def\<close>)
  have 2: "tot e ?Q1 (swap_safe d b f) (role_swap d k c) (\<lambda>_. swap_done d b f)"
  proof (rule tr_exact)
    fix g assume g: "?Q1 g"
    have gr: "roles_free d g" "roles_of d g = ?v"
      using outside_roles [OF s, of f g] free g esp_fat_wf by auto
    note K = keeps_hold_roles(1) [OF E _ dry, where f = g]
    have flip: "tot e (\<lambda>h. roles_free d h \<and> roles_of d h = ?v)
       (\<lambda>h. roles_free d h \<and> roles_of d h ''current'' \<in> {Some c, Some k} \<and> roles_of d h ''fallback'' \<in> {Some c, Some k}
        \<and> roles_of d h ''staging'' = ?v ''staging'')
       (role_swap d k c) (\<lambda>_ h. roles_free d h \<and> roles_of d h = ?v(''current'' \<mapsto> k, ''fallback'' \<mapsto> c))"
      unfolding role_swap_def
      by (rule role_links.rollback_flip [OF dry _ ids v]) (simp add: roles_in)
    have held: "tot e (\<lambda>h. roles_free d h \<and> hold ?E g h) (hold ?E g) (role_swap d k c) (\<lambda>_ h. roles_free d h \<and> hold ?E g h)"
      unfolding role_swap_def by (rule tr_bnd [OF K K]) (use roles_in ids in auto)
    show "tot e ((=) g) (swap_safe d b f) (role_swap d k c) (\<lambda>_. swap_done d b f)"
      by (rule tr_conseq_x [OF tr_conj [OF flip held]])
        (use g gr efi v in \<open>auto simp: swap_safe_def swap_ok_def swap_done_def hold_def fun_upd_twist\<close>)
  qed
  have body: "tot e ((=) f) (swap_safe d b f) (bnd (esp_swap b) (\<lambda>_. bnd (role_swap d k c) (\<lambda>_. log m))) (\<lambda>_. swap_done d b f)" for m
    by (rule tr_bnd [OF 1 tr_bnd [OF 2 tr_log]])
  show ?thesis by (rule rollback_unfold [OF r dry v body])
qed

end
