(* ===== verification/Demo.thy ===== *)
theory Demo
  imports Rollback
begin

text \<open>
  A small host to evaluate the definitions on: \<open>@deploy\<close> at \<open>/deploy\<close> with the deployments
  \<open>aa\<close> (current), \<open>bb\<close> (fallback) and \<open>cc\<close> (staged), an ESP at \<open>/esp\<close>, and tools that do what
  their contracts say. The checks below decide, on such a disk, the hypotheses the
  properties make.
\<close>

section \<open>Deciding hypotheses\<close>

definition wf_check :: "fs \<Rightarrow> bool" where
  "wf_check f \<longleftrightarrow> distinct (map fst (entries f)) \<and> list_all (\<lambda>(p, n). p \<noteq> [] \<and> lookup f (butlast p) = Some Dir \<and>
     (case n of File i \<Rightarrow> i < next_ino f \<and> inodes f i \<noteq> None | _ \<Rightarrow> True)) (entries f)"

lemma wf_check: "wf_check f \<Longrightarrow> wf_fs f"
proof -
  assume c: "wf_check f"
  have e: "(p, n) \<in> set (entries f)" if "lookup f p = Some n" "p \<noteq> []" for p n
    using that by (auto simp: lookup_def dest: map_of_SomeD)
  have "lookup f (butlast p) = Some Dir" if "lookup f p = Some n" "p \<noteq> []" for p n
    using e [OF that] c by (fastforce simp: wf_check_def list_all_iff)
  moreover have "i < next_ino f \<and> inodes f i \<noteq> None" if "lookup f p = Some (File i)" for p i
  proof -
    have "p \<noteq> []" using that by auto
    from e [OF that this] show ?thesis using c by (fastforce simp: wf_check_def list_all_iff)
  qed
  ultimately show ?thesis using c by (force simp: wf_check_def wf_fs_def keys_ok_def list_all_iff)
qed

definition fat_check :: "path \<Rightarrow> fs \<Rightarrow> bool" where
  "fat_check b f \<longleftrightarrow> wf_check f \<and> list_all (\<lambda>(p, n). prefix b p \<longrightarrow>
     (case n of Symlink _ \<Rightarrow> False
      | File i \<Rightarrow> nlink f i = 1 \<and> (case inodes f i of Some nd \<Rightarrow> \<not> verity nd | None \<Rightarrow> False)
      | Dir \<Rightarrow> True)) (entries f)"

lemma nlink_one:
  assumes wf: "wf_fs f" and p: "lookup f p = Some (File i)" and q: "lookup f q = Some (File i)" and n: "nlink f i = 1"
  shows "q = p"
proof -
  have "(q, File i) \<in> set (entries f)" using q by (auto simp: lookup_def split: if_splits dest: map_of_SomeD)
  from nlink_unique [OF wf p n this] show ?thesis by simp
qed

lemma fat_check: "fat_check b f \<Longrightarrow> esp_fat b f"
proof -
  assume c: "fat_check b f"
  then have wf: "wf_fs f" by (auto simp: fat_check_def intro: wf_check)
  have e: "(p, n) \<in> set (entries f)" if "lookup f p = Some n" "n \<noteq> Dir" for p n
    using that by (auto simp: lookup_def split: if_splits dest: map_of_SomeD)
  have "\<not> is_symlink f p" if "prefix b p" for p
    using that c e [of p] by (fastforce simp: is_symlink_def fat_check_def list_all_iff split: option.splits node.splits)
  moreover have "nlink f i = 1 \<and> (\<forall>nd. inodes f i = Some nd \<longrightarrow> \<not> verity nd)"
    if "prefix b p" "lookup f p = Some (File i)" for p i
    using that c e [of p "File i"] by (fastforce simp: fat_check_def list_all_iff split: option.splits)
  ultimately show ?thesis using wf nlink_one [OF wf] by (auto simp: esp_fat_def)
qed

definition store_check :: "path \<Rightarrow> fs \<Rightarrow> bool" where
  "store_check s f \<longleftrightarrow> wf_check f \<and> lookup f s = Some Dir \<and>
     list_all (\<lambda>(p, n). strict_prefix s p \<longrightarrow> (case n of Symlink _ \<Rightarrow> False | _ \<Rightarrow> True)) (entries f)"

lemma store_check: "store_check s f \<Longrightarrow> plain_store s f"
proof -
  assume c: "store_check s f"
  have "\<not> is_symlink f p" if p: "strict_prefix s p" for p
  proof
    assume "is_symlink f p"
    then obtain t where t: "lookup f p = Some (Symlink t)" by (auto simp: is_symlink_def split: option.splits node.splits)
    then have "(p, Symlink t) \<in> set (entries f)" by (auto simp: lookup_def split: if_splits dest: map_of_SomeD)
    then show False using c p by (fastforce simp: store_check_def list_all_iff)
  qed
  then show ?thesis using c wf_check by (auto simp: plain_store_def store_check_def)
qed

definition roles_check :: "path \<Rightarrow> fs \<Rightarrow> bool" where
  "roles_check d f \<longleftrightarrow> wf_check f \<and> lookup f d = Some Dir \<and>
     list_all (\<lambda>r. lookup f (d @ [r]) \<noteq> Some Dir \<and> lookup f (role_tmp d r) \<noteq> Some Dir) ROLES"

lemma roles_check: "roles_check d f \<Longrightarrow> roles_free d f"
  using wf_check by (auto simp: roles_check_def roles_free_def list_all_iff)

definition copy_check :: "path \<Rightarrow> path \<Rightarrow> fs \<Rightarrow> bool" where
  "copy_check b dst f \<longleftrightarrow> prefix b (butlast dst) \<and> dst \<noteq> [] \<and> lookup f (butlast dst) = Some Dir \<and>
     lookup f dst \<noteq> Some Dir \<and> lookup f (copy_tmp dst) \<noteq> Some Dir \<and> \<not> dotted (last dst)"

lemma copy_check: "fat_check b f \<Longrightarrow> copy_check b dst f \<Longrightarrow> copy_ready b dst f"
  by (auto simp: copy_ready_def copy_check_def fat_check)

section \<open>The host\<close>

definition DEP :: path where "DEP = [''deploy'']"
definition ESP :: path where "ESP = [''esp'']"

definition demo_inode :: "nat \<Rightarrow> inode option" where
  "demo_inode i = (if i < 12 then Some \<lparr>bytes = [CHR ''0'', digit_char (i mod 10)], verity = False\<rparr> else None)"

definition demo :: fs where
  "demo = \<lparr>entries =
     [([''deploy''], Dir), ([''deploy'', ''shared''], Dir), ([''deploy'', ''shared'', ''objects''], Dir),
      ([''deploy'', ''shared'', ''objects'', ''ab''], Dir),
      ([''deploy'', ''shared'', ''objects'', ''ab'', ''cd''], File 0),
      ([''deploy'', ''shared'', ''objects'', ''ab'', ''ef''], File 1),
      ([''deploy'', ''aa''], Dir), ([''deploy'', ''aa'', ''zerith.efi''], File 2),
      ([''deploy'', ''aa'', ''objects''], Dir), ([''deploy'', ''aa'', ''objects'', ''ab''], Dir),
      ([''deploy'', ''aa'', ''objects'', ''ab'', ''cd''], File 0),
      ([''deploy'', ''bb''], Dir), ([''deploy'', ''bb'', ''zerith.efi''], File 3),
      ([''deploy'', ''cc''], Dir), ([''deploy'', ''cc'', ''zerith.efi''], File 4),
      ([''deploy'', ''cc'', ''BOOTX64.EFI''], File 5),
      ([''deploy'', ''dd''], Dir), ([''deploy'', ''dd'', ''zerith.efi''], File 6),
      ([''deploy'', ''current''], Symlink ''aa''), ([''deploy'', ''fallback''], Symlink ''bb''),
      ([''deploy'', ''staging''], Symlink ''cc''),
      ([''esp''], Dir), ([''esp'', ''zerith''], Dir),
      ([''esp'', ''zerith'', ''current.efi''], File 7), ([''esp'', ''zerith'', ''fallback.efi''], File 8),
      ([''esp'', ''EFI''], Dir), ([''esp'', ''EFI'', ''BOOT''], Dir),
      ([''esp'', ''EFI'', ''BOOT'', ''BOOTX64.EFI''], File 9),
      ([''tmp''], Dir)],
     inodes = demo_inode, next_ino = 12\<rparr>"

definition demo_vd :: "string \<Rightarrow> string" where
  "demo_vd b = take 64 (filter is_hex b @ replicate 64 (CHR ''0''))"

text \<open>The tools, on the paths they are given as strings.\<close>

definition demo_tool :: "string list \<Rightarrow> fs \<Rightarrow> tool_result" where
  "demo_tool cmd f =
     (case cmd of
        [prog, verb, p] \<Rightarrow>
          (if prog = ''fsverity'' \<and> verb = ''digest'' then
             (case read1 (comps p) f of
                Inr b \<Rightarrow> \<lparr>t_rc = 0, t_out = ''sha256:'' @ demo_vd b @ ''  '' @ p @ [NL], t_err = [], t_fs = []\<rparr>
              | Inl _ \<Rightarrow> \<lparr>t_rc = 1, t_out = [], t_err = ''no such file'', t_fs = []\<rparr>)
           else if prog = ''fsverity'' \<and> verb = ''enable'' then
             (case lookup f (comps p) of
                Some (File i) \<Rightarrow> \<lparr>t_rc = 0, t_out = [], t_err = [], t_fs = [seal i f]\<rparr>
              | _ \<Rightarrow> \<lparr>t_rc = 1, t_out = [], t_err = ''no such file'', t_fs = []\<rparr>)
           else \<lparr>t_rc = 127, t_out = [], t_err = [], t_fs = []\<rparr>)
      | _ \<Rightarrow> \<lparr>t_rc = 127, t_out = [], t_err = [], t_fs = []\<rparr>)"

definition demo_env :: env where
  "demo_env = \<lparr>dry_run = False, verbose = False, tool = demo_tool, has_tool = (\<lambda>_. True), euid = 0,
     clock = ''2025-01-01T00:00:00Z'', temp_name = (\<lambda>pre _. [''tmp'', pre @ ''x'']), getenv = (\<lambda>_. None),
     tty = False, mono = of_nat, set_order = (\<lambda>xs. xs), done_order = (\<lambda>n. [0..<n]), gunzip = Some, stdin_line = None,
     lock_holder = None\<rparr>"

lemma demo_env_live [simp]: "\<not> dry_run demo_env"
  by (simp add: demo_env_def)

lemma demo_checks:
  "wf_check demo" "fat_check ESP demo" "store_check (shared_objects DEP) demo" "roles_check DEP demo"
  "copy_check ESP (cur_efi ESP) demo" "copy_check ESP (fb_efi ESP) demo" "copy_check ESP (esp_limine ESP) demo"
  by code_simp+

lemma demo_wf: "wf_fs demo"
  by (rule wf_check) (rule demo_checks)

lemma demo_roles:
  "roles_of DEP demo ''current'' = Some ''aa''" "roles_of DEP demo ''fallback'' = Some ''bb''"
  by code_simp+

lemma demo_esp_ready: "esp_ready ESP demo"
  by (simp add: esp_ready_def copy_check demo_checks)

lemma demo_separate: "separate DEP ESP"
  by (simp add: separate_def DEP_def ESP_def)

lemma demo_promote: "promote_ready DEP ESP ''cc'' demo"
proof -
  have "cat demo (uki_of DEP ''cc'') \<noteq> None" "cat demo (cur_efi ESP) \<noteq> None"
    "\<not> is_symlink demo (DEP @ [''cc'', BOOTLOADER_NAME])"
    by code_simp+
  then show ?thesis
    using demo_separate demo_esp_ready roles_check [OF demo_checks(4)] store_check [OF demo_checks(3)]
    by (simp add: promote_ready_def demo_roles plain_name_def)
qed

lemma demo_rollback: "rollback_ready DEP ESP demo"
proof -
  have "cat demo (fb_efi ESP) \<noteq> None" "cat demo (cur_efi ESP) \<noteq> None" "lookup demo (swap_path ESP) \<noteq> Some Dir"
    by code_simp+
  then show ?thesis
    using demo_separate demo_esp_ready roles_check [OF demo_checks(4)]
    by (simp add: rollback_ready_def demo_roles plain_name_def)
qed

end
