(* ===== verification/VerifyPack.thy ===== *)
theory VerifyPack
  imports Objects
begin

text \<open>
  \<open>scripts/ci/verify-pack.py\<close>: the gate the build runs before a pack is pushed. The working
  directory is a parameter; what a run prints goes to the world's terminal.
\<close>

section \<open>The program\<close>

definition PACK :: "path \<Rightarrow> path" where "PACK cwd = cwd @ [''out'', ''objects.pack'']"
definition INDEX :: "path \<Rightarrow> path" where "INDEX cwd = cwd @ [''out'', ''objects.index.gz'']"
definition STORE :: "path \<Rightarrow> path" where "STORE cwd = cwd @ [''out'', ''objects'']"

definition vp_die :: "string \<Rightarrow> unit proc" where
  "vp_die msg = bnd (eprint (''verify-pack: '' @ msg)) (\<lambda>_. raise SystemExit)"

text \<open>Entries in the order of the file, repeated digests kept.\<close>

fun vp_lines :: "string list \<Rightarrow> exn + (string \<times> int \<times> int) list" where
  "vp_lines [] = Inr []"
| "vp_lines (line # ls) =
     (let l = strip line in
      if l = [] then vp_lines ls
      else (case parse_index_line l of
          Inl x \<Rightarrow> Inl x
        | Inr entry \<Rightarrow> (case vp_lines ls of Inl x \<Rightarrow> Inl x | Inr es \<Rightarrow> Inr (entry # es))))"

definition load_index :: "path \<Rightarrow> (string \<times> int \<times> int) list proc" where
  "load_index cwd =
     bnd (read_bytes (INDEX cwd)) (\<lambda>raw.
     bnd (decoded True raw) (\<lambda>text.
     if utf8_ok text then lift (vp_lines (split_on NL (univ_nl text))) else raise ValueErr))"

definition obj_path :: "path \<Rightarrow> string \<Rightarrow> path" where
  "obj_path cwd digest = pjoin (pjoin (STORE cwd) (take 2 digest)) (drop 2 digest)"

definition vp_entry :: "path \<Rightarrow> string \<Rightarrow> string \<times> int \<times> int \<Rightarrow> int \<times> int \<Rightarrow> (int \<times> int) proc" where
  "vp_entry cwd pack entry st =
     (case (entry, st) of ((digest, offs, len), (errors, expected)) \<Rightarrow>
       let gap = (offs \<noteq> expected); errors' = (if gap then errors + 1 else errors) in
       bnd (if_do gap (print (''  GAP/OVERLAP at '' @ digest @ '': index off='' @ show_int offs
              @ '' expected='' @ show_int expected))) (\<lambda>_.
       bnd (gets (\<lambda>f. is_file f (obj_path cwd digest))) (\<lambda>there.
       if \<not> there then
         bnd (print (''  MISSING object file for index entry '' @ digest)) (\<lambda>_.
         ret (errors' + 1, offs + len))
       else
         bnd (lift (seek_ok offs)) (\<lambda>_.
         bnd (lift (buf_read pack offs len)) (\<lambda>got.
         bnd (read_bytes (obj_path cwd digest)) (\<lambda>obj.
         if got \<noteq> obj then
           bnd (print (''  BYTE MISMATCH for '' @ digest @ '' (off='' @ show_int offs @ '' len='' @ show_int len @ '')'')) (\<lambda>_.
           ret (errors' + 1, offs + len))
         else ret (errors', offs + len)))))))"

definition verify :: "path \<Rightarrow> int proc" where
  "verify cwd =
     bnd (load_index cwd) (\<lambda>index.
     bnd (read_bytes (PACK cwd)) (\<lambda>pack.
     bnd (gets (\<lambda>f. int (length (walk_files f (STORE cwd))))) (\<lambda>store_count.
     bnd (for_acc (vp_entry cwd pack) index (0, 0)) (\<lambda>(errors, expected).
     let size = int (length pack); count = int (length index);
         e1 = (if expected \<noteq> size then 1 else 0); e2 = (if count \<noteq> store_count then 1 else 0);
         total = errors + e1 + e2 in
     bnd (if_do (expected \<noteq> size) (print (''  PACK SIZE MISMATCH: index ends at '' @ show_int expected
            @ '', pack is '' @ show_int size))) (\<lambda>_.
     bnd (if_do (count \<noteq> store_count) (print (''  COUNT MISMATCH: index has '' @ show_int count
            @ '', store has '' @ show_int store_count))) (\<lambda>_.
     if total \<noteq> 0 then
       bnd (eprint (''>> verify-pack: FAILED with '' @ show_int total @ '' error(s)'')) (\<lambda>_. ret 1)
     else
       bnd (print (''>> verify-pack: OK '' @ [CHR 0xE2, CHR 0x80, CHR 0x94] @ '' '' @ show_int count @ '' objects, ''
         @ show_int size @ '' bytes, contiguous and byte-identical to the object store'')) (\<lambda>_. ret 0)))))))"

definition vp_main :: "path \<Rightarrow> int proc" where
  "vp_main cwd =
     bnd (gets (\<lambda>f. is_file f (PACK cwd))) (\<lambda>p.
     bnd (if_do (\<not> p) (vp_die ''out/objects.pack missing (run pack-objects first)'')) (\<lambda>_.
     bnd (gets (\<lambda>f. is_file f (INDEX cwd))) (\<lambda>i.
     bnd (if_do (\<not> i) (vp_die ''out/objects.index.gz missing'')) (\<lambda>_.
     bnd (gets (\<lambda>f. is_dir f (STORE cwd))) (\<lambda>s.
     bnd (if_do (\<not> s) (vp_die ''out/objects missing'')) (\<lambda>_.
     verify cwd))))))"

section \<open>What the gate accepts\<close>

text \<open>The index the compressed file holds.\<close>

definition index_of :: "env \<Rightarrow> path \<Rightarrow> fs \<Rightarrow> (string \<times> int \<times> int) list option" where
  "index_of e cwd f = (case read1 (INDEX cwd) f of
     Inl _ \<Rightarrow> None
   | Inr raw \<Rightarrow> (case gunzip e raw of
       None \<Rightarrow> None
     | Some text \<Rightarrow> (if utf8_ok text then
           (case vp_lines (split_on NL (univ_nl text)) of Inl _ \<Rightarrow> None | Inr es \<Rightarrow> Some es)
         else None)))"

definition entry_ok :: "path \<Rightarrow> string \<Rightarrow> fs \<Rightarrow> string \<times> int \<times> int \<Rightarrow> bool" where
  "entry_ok cwd pack f entry = (case entry of (digest, offs, len) \<Rightarrow>
     0 \<le> offs \<and> is_file f (obj_path cwd digest) \<and> buf_read pack offs len = read1 (obj_path cwd digest) f)"

text \<open>Entries follow one another from \<open>a\<close> to \<open>b\<close>.\<close>

fun chained :: "int \<Rightarrow> (string \<times> int \<times> int) list \<Rightarrow> int \<Rightarrow> bool" where
  "chained a [] b \<longleftrightarrow> a = b"
| "chained a ((_, offs, len) # es) b \<longleftrightarrow> offs = a \<and> chained (offs + len) es b"

lemma is_file_read: "wf_fs f \<Longrightarrow> is_file f p \<Longrightarrow> \<exists>b. read1 p f = Inr b"
proof -
  assume wf: "wf_fs f" and "is_file f p"
  then obtain i where "stat f p = Some (File i)" by (auto simp: is_file_def split: option.splits node.splits)
  then show ?thesis using stat_file_bound [OF wf] by (fastforce simp: read1_def)
qed

text \<open>One entry: the errors counted so far never shrink, and grow unless all is well.\<close>

lemma vp_entry_run:
  fixes cwd pack d offs len k x e
  assumes "wf_fs (fsys w)"
  defines "out \<equiv> vp_entry cwd pack (d, offs, len) (k, x) e w"
  shows "fsys (snd out) = fsys w \<and> hist (snd out) = hist w \<and>
    (case fst out of
       Inl _ \<Rightarrow> \<not> entry_ok cwd pack (fsys w) (d, offs, len)
     | Inr (k', x') \<Rightarrow> x' = offs + len \<and> k \<le> k' \<and> (k' = k \<longleftrightarrow> offs = x \<and> entry_ok cwd pack (fsys w) (d, offs, len)))"
proof (cases "is_file (fsys w) (obj_path cwd d)")
  case False
  then show ?thesis by (simp add: out_def vp_entry_def entry_ok_def Let_def run_simps)
next
  case True
  obtain b where b: "read1 (obj_path cwd d) (fsys w) = Inr b" using is_file_read [OF assms(1) True] by blast
  show ?thesis
    by (cases "buf_read pack offs len"; cases "offs = x"; cases "offs < 0")
      (use True b in \<open>simp_all add: out_def vp_entry_def entry_ok_def seek_ok_def read_bytes_def Let_def run_simps\<close>)
qed

lemma vp_entries_run:
  assumes "wf_fs (fsys w)"
  shows "fsys (snd (for_acc (vp_entry cwd pack) es (k, x) e w)) = fsys w \<and> hist (snd (for_acc (vp_entry cwd pack) es (k, x) e w)) = hist w \<and>
    (case fst (for_acc (vp_entry cwd pack) es (k, x) e w) of
       Inl _ \<Rightarrow> \<exists>en \<in> set es. \<not> entry_ok cwd pack (fsys w) en
     | Inr (k', x') \<Rightarrow> k \<le> k' \<and> (k' = k \<and> x' = b \<longleftrightarrow> chained x es b \<and> (\<forall>en \<in> set es. entry_ok cwd pack (fsys w) en)))"
  using assms
proof (induction es arbitrary: k x w)
  case Nil
  then show ?case by (simp add: run_simps)
next
  case (Cons en es)
  obtain d offs len where en: "en = (d, offs, len)" by (cases en)
  obtain r w' where m: "vp_entry cwd pack (d, offs, len) (k, x) e w = (r, w')" by fastforce
  have w': "fsys w' = fsys w" "hist w' = hist w" and
    r: "case r of Inl _ \<Rightarrow> \<not> entry_ok cwd pack (fsys w) (d, offs, len)
        | Inr (k', x') \<Rightarrow> x' = offs + len \<and> k \<le> k' \<and> (k' = k \<longleftrightarrow> offs = x \<and> entry_ok cwd pack (fsys w) (d, offs, len))"
    using vp_entry_run [OF Cons.prems, of cwd pack d offs len k x e] m by simp_all
  show ?case
  proof (cases r)
    case (Inl y)
    then show ?thesis using w' r m en by (simp add: bnd_def)
  next
    case (Inr y)
    obtain k1 where y: "y = (k1, offs + len)" and k1: "k \<le> k1" "k1 = k \<longleftrightarrow> offs = x \<and> entry_ok cwd pack (fsys w) (d, offs, len)"
      using r Inr by (cases y) auto
    have step: "for_acc (vp_entry cwd pack) (en # es) (k, x) e w = for_acc (vp_entry cwd pack) es (k1, offs + len) e w'"
      using m Inr y en by (simp add: bnd_def)
    have IH: "fsys (snd (for_acc (vp_entry cwd pack) es (k1, offs + len) e w')) = fsys w' \<and>
      hist (snd (for_acc (vp_entry cwd pack) es (k1, offs + len) e w')) = hist w' \<and>
      (case fst (for_acc (vp_entry cwd pack) es (k1, offs + len) e w') of
         Inl _ \<Rightarrow> \<exists>en \<in> set es. \<not> entry_ok cwd pack (fsys w') en
       | Inr (k', x') \<Rightarrow> k1 \<le> k' \<and> (k' = k1 \<and> x' = b \<longleftrightarrow> chained (offs + len) es b \<and> (\<forall>en \<in> set es. entry_ok cwd pack (fsys w') en)))"
      by (rule Cons.IH) (simp add: w' Cons.prems)
    show ?thesis
    proof (cases "fst (for_acc (vp_entry cwd pack) es (k1, offs + len) e w')")
      case (Inl z)
      then show ?thesis unfolding step using IH w' by auto
    next
      case (Inr z)
      obtain k2 x2 where z: "z = (k2, x2)" by (cases z)
      have "k1 \<le> k2" "k2 = k1 \<and> x2 = b \<longleftrightarrow> chained (offs + len) es b \<and> (\<forall>en \<in> set es. entry_ok cwd pack (fsys w) en)"
        using IH Inr z w' by simp_all
      then have "k \<le> k2" "k2 = k \<and> x2 = b \<longleftrightarrow> chained x (en # es) b \<and> (\<forall>en \<in> set (en # es). entry_ok cwd pack (fsys w) en)"
        using k1 en by auto
      then show ?thesis unfolding step using IH Inr z w' by simp
    qed
  qed
qed

lemma load_index_run:
  "load_index cwd e w = (case index_of e cwd (fsys w) of
     Some es \<Rightarrow> (Inr es, w) | None \<Rightarrow> (fst (load_index cwd e w), w))"
  "fst (load_index cwd e w) = Inr es \<longleftrightarrow> index_of e cwd (fsys w) = Some es"
  by (auto simp: load_index_def decoded_def index_of_def read_bytes_def run_simps split: sum.splits option.splits)

definition pack_sound :: "env \<Rightarrow> path \<Rightarrow> fs \<Rightarrow> bool" where
  "pack_sound e cwd f \<longleftrightarrow> (\<exists>es pack. index_of e cwd f = Some es \<and> read1 (PACK cwd) f = Inr pack \<and>
     chained 0 es (int (length pack)) \<and> (\<forall>en \<in> set es. entry_ok cwd pack f en) \<and>
     length es = length (walk_files f (STORE cwd)))"

lemma verify_run:
  assumes "wf_fs (fsys w)"
  shows "fsys (snd (verify cwd e w)) = fsys w \<and> hist (snd (verify cwd e w)) = hist w \<and>
    (fst (verify cwd e w) = Inr 0 \<longleftrightarrow> pack_sound e cwd (fsys w))"
proof (cases "index_of e cwd (fsys w)")
  case None
  then obtain x where "load_index cwd e w = (Inl x, w)"
    using load_index_run(1) [of cwd e w] load_index_run(2) [of cwd e w] by (cases "fst (load_index cwd e w)") auto
  then show ?thesis using None by (simp add: verify_def bnd_def pack_sound_def)
next
  case (Some es)
  then have l: "load_index cwd e w = (Inr es, w)" using load_index_run(1) [of cwd e w] by simp
  show ?thesis
  proof (cases "read1 (PACK cwd) (fsys w)")
    case (Inl x)
    then show ?thesis using l Some by (simp add: verify_def bnd_def pack_sound_def read_bytes_def reads_def)
  next
    case (Inr pack)
    obtain r w' where m: "for_acc (vp_entry cwd pack) es (0, 0) e w = (r, w')" by fastforce
    note E = vp_entries_run [OF assms, of cwd pack es 0 0 e "int (length pack)", unfolded m fst_conv snd_conv]
    show ?thesis
    proof (cases r)
      case (Inl x)
      then show ?thesis using l Some E m \<open>read1 (PACK cwd) (fsys w) = Inr pack\<close>
        by (auto simp: verify_def bnd_def pack_sound_def read_bytes_def reads_def gets_def)
    next
      case (Inr y)
      obtain k x where y: "y = (k, x)" by (cases y)
      have k: "0 \<le> k" "k = 0 \<and> x = int (length pack) \<longleftrightarrow> chained 0 es (int (length pack)) \<and> (\<forall>en \<in> set es. entry_ok cwd pack (fsys w) en)"
        using E Inr y by simp_all
      have s: "pack_sound e cwd (fsys w) \<longleftrightarrow> k = 0 \<and> x = int (length pack) \<and> length es = length (walk_files (fsys w) (STORE cwd))"
        using k(2) Some \<open>read1 (PACK cwd) (fsys w) = Inr pack\<close> by (auto simp: pack_sound_def)
      show ?thesis using l m Inr y E k(1) \<open>read1 (PACK cwd) (fsys w) = Inr pack\<close> unfolding s
        by (simp add: verify_def read_bytes_def Let_def run_simps)
    qed
  qed
qed

text \<open>A range starts at an object.\<close>

definition starts_range :: "http_range \<Rightarrow> bool" where
  "starts_range r = (case r of (_, _, objs) \<Rightarrow> \<exists>len d. (0, len, d) \<in> set objs)"

lemma coalesce_loop_start:
  "\<forall>r \<in> set rs. starts_range r \<Longrightarrow> (\<And>c. cur = Some c \<Longrightarrow> starts_range c) \<Longrightarrow>
   \<forall>r \<in> set (coalesce_loop gap w cur rs). starts_range r"
proof (induction gap w cur rs rule: coalesce_loop.induct)
  case (2 gap offs len d w cur rs)
  have s: "starts_range (offs, x, [(0, len, d)])" for x by (auto simp: starts_range_def)
  show ?case
  proof (cases cur)
    case None
    then show ?thesis using 2(1,4) s by auto
  next
    case (Some c)
    obtain a b objs where c: "c = (a, b, objs)" by (cases c)
    have "starts_range (a, x, objs @ y)" for x y using 2(5) [OF Some] by (auto simp: c starts_range_def)
    then show ?thesis using 2(2,3) [OF Some [unfolded c] refl refl] 2(4) s 2(5) [OF Some] by (auto simp: Some c)
  qed
qed (auto split: option.splits)

text \<open>What the gate accepted is what a ranged fetch of the pack yields.\<close>

lemma pack_sound_range:
  assumes p: "pack_sound e cwd f" "index_of e cwd f = Some es" "read1 (PACK cwd) f = Inr pack"
    and w: "by_offset want" "\<forall>(offs, len, d) \<in> set want. 0 \<le> len \<and> (d, offs, len) \<in> set es"
    and r: "(a, b, objs) \<in> set (coalesce_ranges want gap)" "(offs, len, d) \<in> set objs"
  shows "buf_read (pack_slice pack a b) offs len = read1 (obj_path cwd d) f"
proof -
  have c: "concat (map in_pack (coalesce_ranges want gap)) = want"
    using coalesce_loop_covers [of gap want None "[]"] by (simp add: coalesce_ranges_def)
  have ok: "\<forall>r \<in> set (coalesce_ranges want gap). range_ok r"
    unfolding coalesce_ranges_def by (rule coalesce_loop_ok) (use w(1) in auto)
  have mem: "(a + offs', len', d') \<in> set want" if "(offs', len', d') \<in> set objs" for offs' len' d'
  proof -
    have "(a + offs', len', d') \<in> set (in_pack (a, b, objs))" using that by (force simp: in_pack_def)
    then have "(a + offs', len', d') \<in> set (concat (map in_pack (coalesce_ranges want gap)))" using r(1) by auto
    then show ?thesis by (simp only: c)
  qed
  have en: "entry_ok cwd pack f (d', offs', len')" if "(d', offs', len') \<in> set es" for d' offs' len'
    using p that by (auto simp: pack_sound_def)
  have "(d, a + offs, len) \<in> set es" "0 \<le> len" using w(2) mem [OF r(2)] by auto
  then have e: "buf_read pack (a + offs) len = read1 (obj_path cwd d) f" using en by (auto simp: entry_ok_def)
  obtain len0 d0 where "(0, len0, d0) \<in> set objs"
    using coalesce_loop_start [of "[]" None gap want] r(1) by (fastforce simp: coalesce_ranges_def starts_range_def)
  then have "(d0, a, len0) \<in> set es" using w(2) mem by fastforce
  then have "0 \<le> a" using en by (fastforce simp: entry_ok_def)
  then show ?thesis using slice_of_slice [OF _ r(2) _ \<open>0 \<le> len\<close>] ok r(1) e by auto
qed

end
