(* ===== verification/StoreSpec.thy ===== *)
theory StoreSpec
  imports EspSpec
begin

text \<open>
  Integrity of the object store: whatever lands in it under an object's name has that
  digest, at every crash point, and landing never loses or changes an object.
\<close>

section \<open>The invariant\<close>

text \<open>The store proper: names below it that are not temporary.\<close>

definition stored :: "path \<Rightarrow> path \<Rightarrow> bool" where
  "stored s p \<longleftrightarrow> strict_prefix s p \<and> \<not> dotted (last p)"

definition object_name :: "path \<Rightarrow> path \<Rightarrow> string" where
  "object_name s p = concat (drop (length s) p)"

definition store_ok :: "(string \<Rightarrow> string) \<Rightarrow> path \<Rightarrow> fs \<Rightarrow> bool" where
  "store_ok vd s f \<longleftrightarrow> wf_fs f \<and>
     (\<forall>p. strict_prefix s p \<longrightarrow> \<not> is_symlink f p) \<and>
     (\<forall>p. strict_prefix s p \<longrightarrow> dotted (last p) \<longrightarrow> lookup f p \<noteq> Some Dir) \<and>
     (\<forall>p q i. strict_prefix s p \<longrightarrow> dotted (last p) \<longrightarrow>
        lookup f p = Some (File i) \<longrightarrow> lookup f q = Some (File i) \<longrightarrow> q = p) \<and>
     (\<forall>p b. stored s p \<longrightarrow> cat f p = Some b \<longrightarrow> vd b = object_name s p)"

definition store_kept :: "path \<Rightarrow> fs \<Rightarrow> fs \<Rightarrow> bool" where
  "store_kept s f g \<longleftrightarrow> (\<forall>p. stored s p \<longrightarrow> lookup f p \<noteq> None \<longrightarrow> lookup g p = lookup f p \<and> cat g p = cat f p)"

definition store_inv :: "(string \<Rightarrow> string) \<Rightarrow> path \<Rightarrow> fs \<Rightarrow> fs \<Rightarrow> bool" where
  "store_inv vd s f0 f \<longleftrightarrow> store_ok vd s f \<and> store_kept s f0 f"

lemma store_inv_wf: "store_inv vd s f0 f \<Longrightarrow> wf_fs f"
  by (simp add: store_inv_def store_ok_def)

lemma store_inv_refl: "store_ok vd s f \<Longrightarrow> store_inv vd s f f"
  by (simp add: store_inv_def store_kept_def)

lemma store_kept_trans: "store_kept s f g \<Longrightarrow> store_kept s g h \<Longrightarrow> store_kept s f h"
  unfolding store_kept_def by metis

lemma store_no_link: "store_ok vd s f \<Longrightarrow> strict_prefix s p \<Longrightarrow> \<not> is_symlink f p"
  by (simp add: store_ok_def)

lemma store_okI:
  assumes "wf_fs f" "\<And>p. strict_prefix s p \<Longrightarrow> \<not> is_symlink f p"
    "\<And>p. strict_prefix s p \<Longrightarrow> dotted (last p) \<Longrightarrow> lookup f p \<noteq> Some Dir"
    "\<And>p q i. strict_prefix s p \<Longrightarrow> dotted (last p) \<Longrightarrow> lookup f p = Some (File i) \<Longrightarrow> lookup f q = Some (File i) \<Longrightarrow> q = p"
    "\<And>p b. stored s p \<Longrightarrow> cat f p = Some b \<Longrightarrow> vd b = object_name s p"
  shows "store_ok vd s f"
  unfolding store_ok_def using assms by blast

lemma store_okD:
  assumes "store_ok vd s f"
  shows "strict_prefix s p \<Longrightarrow> dotted (last p) \<Longrightarrow> lookup f p \<noteq> Some Dir"
    and "stored s p \<Longrightarrow> cat f p = Some b \<Longrightarrow> vd b = object_name s p"
  using assms unfolding store_ok_def by blast+

lemma store_tmp_unique:
  "store_ok vd s f \<Longrightarrow> strict_prefix s p \<Longrightarrow> dotted (last p) \<Longrightarrow> lookup f p = Some (File i) \<Longrightarrow>
   lookup f q = Some (File i) \<Longrightarrow> q = p"
  unfolding store_ok_def by blast

lemma cat_cong: "lookup g p = lookup f p \<Longrightarrow> inodes g = inodes f \<Longrightarrow> cat g p = cat f p"
  by (simp add: cat_def split: option.splits node.splits)

section \<open>Making directories\<close>

lemma tr_mkdirs_rev:
  assumes "\<And>q f g. prefix q (rev r) \<Longrightarrow> I f \<Longrightarrow> mkdir1 q f = Inr g \<Longrightarrow> I g"
  shows "triple e I I (mkdirs_rev r) (\<lambda>_ f. I f \<and> is_dir f (rev r))"
  using assms
proof (induction r)
  case Nil
  then show ?case by (auto intro: tr_ret)
next
  case (Cons c r)
  let ?p = "rev (c # r)"
  have mk: "triple e I I (os_mkdir ?p) (\<lambda>_ f. I f \<and> is_dir f ?p)"
    unfolding os_mkdir_def
  proof (rule tr_atomic)
    fix f g assume f: "I f" "mkdir1 ?p f = Inr g"
    have "lookup g ?p = Some Dir" using f(2) by (auto simp: mkdir1_def fs_simps split: if_splits option.splits)
    then show "I g \<and> I g \<and> is_dir g ?p" using Cons.prems [OF _ f] by simp
  qed
  have IH: "triple e I I (mkdirs_rev r) (\<lambda>_. I)"
    by (rule tr_conseq [OF Cons.IH]) (auto intro: Cons.prems simp: prefix_order.trans)
  have h: "triple e I I (if x = OSErr ENOENT ?p then bnd (mkdirs_rev r) (\<lambda>_. os_mkdir ?p)
        else bnd (gets (\<lambda>f. is_dir f ?p)) (\<lambda>d. if d then ret () else raise x)) (\<lambda>_ f. I f \<and> is_dir f ?p)" for x
  proof (cases "x = OSErr ENOENT ?p")
    case True
    show ?thesis unfolding True by (simp only: if_True refl) (rule tr_bnd [OF IH mk])
  next
    case False
    then show ?thesis
      by (simp only: if_False) (rule tr_gets_bnd, auto simp: triple_def run_simps)
  qed
  show ?case unfolding mkdirs_rev.simps Let_def
    by (rule tr_try [OF mk h])
qed

lemma tr_mkdirs:
  "(\<And>q f g. prefix q p \<Longrightarrow> I f \<Longrightarrow> mkdir1 q f = Inr g \<Longrightarrow> I g) \<Longrightarrow>
   triple e I I (mkdirs p) (\<lambda>_ f. I f \<and> is_dir f p)"
  using tr_mkdirs_rev [of "rev p" I e] by (simp add: mkdirs_def)

text \<open>A change that adds a directory with an ordinary name, or a name outside the store.\<close>

lemma store_inv_mkdir:
  assumes f: "store_inv vd s f0 f" and g: "mkdir1 q f = Inr g" and q: "strict_prefix s q \<Longrightarrow> \<not> dotted (last q)"
  shows "store_inv vd s f0 g"
proof -
  have ge: "g = set_entry q Dir f" and n: "lookup f q = None" "q \<noteq> []"
    using g by (auto simp: mkdir1_def split: if_splits option.splits)
  have lk: "lookup g p = (if p = q then Some Dir else lookup f p)" for p
    using ge n(2) by (simp add: fs_simps)
  have ct: "cat g p = cat f p" for p
  proof -
    have i: "inodes g = inodes f" by (simp add: ge fs_simps)
    show ?thesis
    proof (cases "p = q")
      case False
      then show ?thesis by (intro cat_cong i) (simp add: lk)
    qed (simp add: cat_def lk n(1))
  qed
  have "wf_fs g" using wf_mkdir1 [OF store_inv_wf [OF f] g] .
  moreover have "\<not> is_symlink g p" if "strict_prefix s p" for p
    using store_no_link [of vd s f p] f that by (auto simp: store_inv_def is_symlink_def lk)
  moreover have "q' = p" if "strict_prefix s p" "dotted (last p)" "lookup g p = Some (File i)" "lookup g q' = Some (File i)" for p q' i
    using store_tmp_unique [of vd s f p i q'] f that by (auto simp: store_inv_def lk split: if_splits)
  ultimately have "store_ok vd s g"
    using f q by (auto simp: store_inv_def store_ok_def lk ct)
  moreover have "store_kept s f0 g"
    using f n(1) unfolding store_inv_def store_kept_def by (auto simp: lk ct)
  ultimately show ?thesis by (simp add: store_inv_def)
qed

lemma keeps_store_mkdirs:
  assumes "list_all (\<lambda>c. \<not> dotted c) ds"
  shows "triple e (store_inv vd s f0) (store_inv vd s f0) (mkdirs (s @ ds)) (\<lambda>_ f. store_inv vd s f0 f \<and> is_dir f (s @ ds))"
proof (rule tr_mkdirs)
  show "store_inv vd s f0 g" if q: "prefix q (s @ ds)" and f: "store_inv vd s f0 f" "mkdir1 q f = Inr g" for q f g
  proof (rule store_inv_mkdir [OF f])
    assume "strict_prefix s q"
    then obtain cs where cs: "q = s @ cs" "cs \<noteq> []"
      by (metis strict_prefixE' list.discI)
    moreover have "prefix cs ds" using q cs(1) by simp
    ultimately have "last cs \<in> set ds" by (meson in_mono last_in_set set_mono_prefix)
    then have "last q \<in> set ds" using cs by simp
    then show "\<not> dotted (last q)" using assms(1) by (auto simp: list_all_iff)
  qed
qed

section \<open>Writing temporary files\<close>

text \<open>A temporary file with the given data, open for writing.\<close>

definition tmp_file :: "path \<Rightarrow> string \<Rightarrow> fs \<Rightarrow> bool" where
  "tmp_file t b f \<longleftrightarrow> (\<exists>i. lookup f t = Some (File i) \<and> inodes f i = Some \<lparr>bytes = b, verity = False\<rparr>)"

lemma tmp_file_cat: "tmp_file t b f \<Longrightarrow> cat f t = Some b"
  by (auto simp: tmp_file_def cat_def)

lemma store_inv_written:
  assumes f: "store_inv vd s f0 f" and t: "strict_prefix s t" "dotted (last t)"
    and g: "written f t b g" "wf_fs g"
  shows "store_inv vd s f0 g" "tmp_file t b g"
proof -
  have ok: "store_ok vd s f" and wf: "wf_fs f" using f by (auto simp: store_inv_def store_ok_def)
  have lk: "lookup g q = (if q = t then Some (File (ino_for f t)) else lookup f q)" for q
    using g(1) by (simp add: written_def)
  have fresh: "lookup f q \<noteq> Some (File (ino_for f t))" if "q \<noteq> t" for q
  proof
    assume q: "lookup f q = Some (File (ino_for f t))"
    then have "ino_for f t < next_ino f" using wf_file [OF wf] by blast
    then have "lookup f t = Some (File (ino_for f t))"
      by (auto simp: ino_for_def split: option.splits node.splits)
    then show False using store_tmp_unique [OF ok t _ q] that by simp
  qed
  have ct: "cat g q = cat f q" if "q \<noteq> t" for q
    using written_frame(2) [OF g(1) that wf] store_tmp_unique [OF ok t] that by blast
  have st: "p \<noteq> t" if "stored s p" for p using that t(2) by (auto simp: stored_def)
  have "store_ok vd s g"
  proof (rule store_okI [OF g(2)])
    show "\<not> is_symlink g p" if "strict_prefix s p" for p
      using store_no_link [OF ok that] by (auto simp: is_symlink_def lk)
    show "q' = p" if "strict_prefix s p" "dotted (last p)" "lookup g p = Some (File i)" "lookup g q' = Some (File i)" for p q' i
    proof (cases "p = t \<or> q' = t")
      case True
      then show ?thesis using that(3,4) fresh [of p] fresh [of q'] by (auto simp: lk split: if_splits)
    next
      case False
      then show ?thesis using store_tmp_unique [OF ok that(1,2)] that(3,4) by (simp add: lk)
    qed
    show "lookup g p \<noteq> Some Dir" if "strict_prefix s p" "dotted (last p)" for p
      using store_okD(1) [OF ok that] by (simp add: lk)
    show "vd b = object_name s p" if "stored s p" "cat g p = Some b" for p b
      using store_okD(2) [OF ok that(1)] that(2) ct [OF st [OF that(1)]] by simp
  qed
  moreover have "store_kept s f g"
    unfolding store_kept_def
  proof (intro allI impI)
    fix p assume "stored s p"
    then have "p \<noteq> t" by (rule st)
    then show "lookup g p = lookup f p \<and> cat g p = cat f p" using ct by (simp add: lk)
  qed
  then have "store_kept s f0 g" using f store_kept_trans unfolding store_inv_def by blast
  ultimately show "store_inv vd s f0 g" by (simp add: store_inv_def)
  show "tmp_file t b g" using g(1) by (simp add: tmp_file_def written_def)
qed

lemma store_write_states:
  assumes f: "store_inv vd s f0 f" and t: "strict_prefix s t" "dotted (last t)"
  shows "g \<in> set (snd (write1 t b f)) \<Longrightarrow> store_inv vd s f0 g"
    and "fst (write1 t b f) = Inr () \<Longrightarrow> store_inv vd s f0 (last (f # snd (write1 t b f))) \<and> tmp_file t b (last (f # snd (write1 t b f)))"
    and "fst (write1 t b f) = Inl x \<Longrightarrow> store_inv vd s f0 (last (f # snd (write1 t b f)))"
proof -
  have wf: "wf_fs f" and nl: "\<not> is_symlink f t"
    using f t store_no_link by (auto simp: store_inv_def store_ok_def)
  have st: "store_inv vd s f0 g" if "g \<in> set (snd (write1 t b f))" for g
  proof (cases "writable f t")
    case True
    have "\<exists>k. written f t (take k b) g" by (rule writable_write1(2) [OF True that])
    then obtain k where "written f t (take k b) g" by blast
    then show ?thesis using store_inv_written(1) [OF f t] wf_write1 [OF wf that] by blast
  next
    case False
    then show ?thesis using not_writable_write1 [OF nl False, of b] that by (metis empty_iff empty_set snd_conv)
  qed
  then show "g \<in> set (snd (write1 t b f)) \<Longrightarrow> store_inv vd s f0 g" .
  have l: "last (f # snd (write1 t b f)) = f \<or> last (f # snd (write1 t b f)) \<in> set (snd (write1 t b f))"
    by (simp add: last_in_set)
  then show "fst (write1 t b f) = Inl x \<Longrightarrow> store_inv vd s f0 (last (f # snd (write1 t b f)))"
    using st f by metis
  assume ok: "fst (write1 t b f) = Inr ()"
  have w: "writable f t"
  proof (rule ccontr)
    assume "\<not> writable f t"
    then show False using not_writable_write1 [OF nl _, of b] ok by auto
  qed
  have "wf_fs (last (f # snd (write1 t b f)))" using l wf wf_write1 [OF wf] by metis
  then show "store_inv vd s f0 (last (f # snd (write1 t b f))) \<and> tmp_file t b (last (f # snd (write1 t b f)))"
    using store_inv_written [OF f t writable_write1(3) [OF w]] by blast
qed

lemma tr_store_write:
  assumes t: "strict_prefix s t" "dotted (last t)"
  shows "triple e (store_inv vd s f0) (store_inv vd s f0) (write_text t b) (\<lambda>_ f. store_inv vd s f0 f \<and> tmp_file t b f)"
  unfolding write_text_def
proof (rule tr_syscall)
  fix f g x y assume f: "store_inv vd s f0 f"
  note S = store_write_states [OF f t]
  show "g \<in> set (snd (write1 t b f)) \<Longrightarrow> store_inv vd s f0 g" by (rule S(1))
  show "fst (write1 t b f) = Inl y \<Longrightarrow> store_inv vd s f0 (last (f # snd (write1 t b f)))" by (rule S(3))
  show "fst (write1 t b f) = Inr x \<Longrightarrow> store_inv vd s f0 (last (f # snd (write1 t b f))) \<and> tmp_file t b (last (f # snd (write1 t b f)))"
    by (rule S(2)) simp
qed

lemma tr_store_copy:
  assumes t: "strict_prefix s t" "dotted (last t)"
  shows "triple e (store_inv vd s f0) (store_inv vd s f0) (copy2 src t) (\<lambda>_ f. store_inv vd s f0 f \<and> (\<exists>b. tmp_file t b f))"
  unfolding copy2_def
proof (rule tr_syscall)
  fix f assume f: "store_inv vd s f0 f"
  then have "lookup f t \<noteq> Some Dir" "\<not> is_symlink f t"
    using t by (auto simp: store_inv_def store_ok_def)
  then have "\<not> is_dir f t" by (simp add: is_dir_def stat_no_link)
  then have c: "copy1 src t f = write1 t b f \<or> (snd (copy1 src t f) = [] \<and> (\<exists>x. fst (copy1 src t f) = Inl x))"
    if "read1 src f = Inr b" for b
    using that by (auto simp: copy1_def Let_def)
  have c: "(\<exists>b. copy1 src t f = write1 t b f) \<or> (snd (copy1 src t f) = [] \<and> (\<exists>x. fst (copy1 src t f) = Inl x))"
    using c by (cases "read1 src f") (auto simp: copy1_def Let_def \<open>\<not> is_dir f t\<close>)
  note S = store_write_states [OF f t]
  show "g \<in> set (snd (copy1 src t f)) \<Longrightarrow> store_inv vd s f0 g" for g
    using c S(1) by auto
  show "fst (copy1 src t f) = Inl x \<Longrightarrow> store_inv vd s f0 (last (f # snd (copy1 src t f)))" for x
    using c S(3) f by (auto simp del: last.simps) simp
  show "fst (copy1 src t f) = Inr x \<Longrightarrow> store_inv vd s f0 (last (f # snd (copy1 src t f))) \<and> (\<exists>b. tmp_file t b (last (f # snd (copy1 src t f))))" for x
    using c
  proof
    assume "\<exists>b. copy1 src t f = write1 t b f" "fst (copy1 src t f) = Inr x"
    then obtain b where "copy1 src t f = write1 t b f" "fst (write1 t b f) = Inr ()" by auto
    then show "store_inv vd s f0 (last (f # snd (copy1 src t f))) \<and> (\<exists>b. tmp_file t b (last (f # snd (copy1 src t f))))"
      using S(2) [of b] by metis
  qed auto
qed

section \<open>Placing an object\<close>

text \<open>The place of an object: a store path with its components, and a temporary name beside it.\<close>

definition place_for :: "path \<Rightarrow> string \<Rightarrow> path \<Rightarrow> path \<Rightarrow> bool" where
  "place_for s rel dest t \<longleftrightarrow> dest = pjoin s rel \<and> strict_prefix s dest \<and> list_all (\<lambda>c. \<not> dotted c) (drop (length s) dest) \<and>
     no_slash rel = object_name s dest \<and> butlast t = butlast dest \<and> strict_prefix s t \<and> dotted (last t) \<and>
     plain_path dest \<and> plain_path t"

lemma place_forD:
  assumes "place_for s rel dest t"
  shows "dest = pjoin s rel" "strict_prefix s dest" "\<not> dotted (last dest)" "stored s dest" "t \<noteq> dest" "t \<noteq> []" "dest \<noteq> []"
    "strict_prefix s t" "dotted (last t)" "butlast t = butlast dest" "plain_path dest" "plain_path t"
    "no_slash rel = object_name s dest"
proof -
  show "dest = pjoin s rel" "strict_prefix s dest" "strict_prefix s t" "dotted (last t)" "butlast t = butlast dest"
    "plain_path dest" "plain_path t" "no_slash rel = object_name s dest"
    using assms by (auto simp: place_for_def)
  then show "t \<noteq> []" "dest \<noteq> []" by auto
  obtain cs where "dest = s @ cs" "cs \<noteq> []" using \<open>strict_prefix s dest\<close> by (metis strict_prefixE' list.discI)
  moreover have "list_all (\<lambda>c. \<not> dotted c) (drop (length s) dest)" using assms unfolding place_for_def by blast
  ultimately have "last cs \<in> set cs" "list_all (\<lambda>c. \<not> dotted c) cs" "last dest = last cs" by auto
  then show "\<not> dotted (last dest)" by (simp add: list_all_iff)
  then show "stored s dest" "t \<noteq> dest" using \<open>dotted (last t)\<close> \<open>strict_prefix s dest\<close> by (auto simp: stored_def)
qed

definition placed :: "path \<Rightarrow> string \<Rightarrow> fs \<Rightarrow> bool" where
  "placed p b f \<longleftrightarrow> (\<exists>i. lookup f p = Some (File i) \<and> inodes f i = Some \<lparr>bytes = b, verity = True\<rparr>)"

lemma store_replace:
  assumes f: "store_inv vd s f0 f" and P: "place_for s rel dest t"
    and t: "tmp_file t b f" and d: "lookup f dest = None" and vd: "vd b = no_slash rel"
  shows "\<exists>g. replace1 t dest f = Inr g \<and> store_inv vd s f0 g \<and> tmp_file dest b g \<and> lookup g t = None"
proof -
  note p = place_forD [OF P]
  have ok: "store_ok vd s f" and wf: "wf_fs f" using f by (auto simp: store_inv_def store_ok_def)
  obtain i where i: "lookup f t = Some (File i)" "inodes f i = Some \<lparr>bytes = b, verity = False\<rparr>"
    using t by (auto simp: tmp_file_def)
  have dir: "lookup f (butlast dest) = Some Dir" using wf_parent [OF wf i(1) p(6)] p(10) by simp
  let ?g = "set_entry dest (File i) (del_entry t f)"
  have r: "replace1 t dest f = Inr ?g"
    using i d p(5) dir by (simp add: replace1_def parent_err_def)
  have lk: "lookup ?g q = (if q = dest then Some (File i) else if q = t then None else lookup f q)" for q
    using p(6,7) by (simp add: fs_simps)
  have ct: "cat ?g q = (if q = dest then Some b else if q = t then None else cat f q)" for q
  proof (cases "q = dest \<or> q = t")
    case True
    then show ?thesis using i(2) lk [of q] by (auto simp: cat_def fs_simps)
  next
    case False
    then show ?thesis using cat_cong [of ?g q f] lk [of q] by (simp add: fs_simps)
  qed
  have sole: "q = t" if "lookup f q = Some (File i)" for q
    by (rule store_tmp_unique [OF ok p(8,9) i(1) that])
  have "store_ok vd s ?g"
  proof (rule store_okI [OF wf_replace1 [OF wf r]])
    show "\<not> is_symlink ?g q" if "strict_prefix s q" for q
      using store_no_link [OF ok that] by (auto simp: is_symlink_def lk)
    show "q' = q" if "strict_prefix s q" "dotted (last q)" "lookup ?g q = Some (File j)" "lookup ?g q' = Some (File j)" for q q' j
    proof -
      have "q \<noteq> dest" using that(2) p(3) by auto
      then have q: "lookup f q = Some (File j)" "q \<noteq> t" using that(3) by (auto simp: lk split: if_splits)
      then have "j \<noteq> i" using sole by blast
      then have "lookup f q' = Some (File j)" using that(4) by (auto simp: lk split: if_splits)
      then show ?thesis by (rule store_tmp_unique [OF ok that(1,2) q(1)])
    qed
    show "lookup ?g q \<noteq> Some Dir" if "strict_prefix s q" "dotted (last q)" for q
      using store_okD(1) [OF ok that] by (simp add: lk)
    show "vd c = object_name s q" if "stored s q" "cat ?g q = Some c" for q c
      using store_okD(2) [OF ok that(1), of c] that(2) vd p(13) by (simp add: ct split: if_splits)
  qed
  moreover have "store_kept s f ?g"
    unfolding store_kept_def using d p(9) by (auto simp: lk ct stored_def)
  then have "store_kept s f0 ?g" using f store_kept_trans unfolding store_inv_def by blast
  moreover have "tmp_file dest b ?g" using i by (simp add: tmp_file_def lk fs_simps)
  moreover have "lookup ?g t = None" using lk p(5) by simp
  ultimately show ?thesis using r by (auto simp: store_inv_def)
qed

lemma wf_seal: "wf_fs f \<Longrightarrow> wf_fs (seal i f)"
proof -
  assume wf: "wf_fs f"
  have lk: "lookup (seal i f) = lookup f" and k: "entries (seal i f) = entries f" "next_ino (seal i f) = next_ino f"
    by (simp_all add: seal_def lookup_def fun_eq_iff)
  have "inodes f j \<noteq> None \<Longrightarrow> inodes (seal i f) j \<noteq> None" for j by (auto simp: seal_def)
  then show ?thesis using wf unfolding wf_fs_def keys_ok_def lk k by blast
qed

lemma store_inv_seal:
  assumes "store_inv vd s f0 f"
  shows "store_inv vd s f0 (seal i f)"
proof -
  have ok: "store_ok vd s f" using assms by (simp add: store_inv_def)
  have "wf_fs (seal i f)" by (rule wf_seal [OF store_inv_wf [OF assms]])
  then have "store_ok vd s (seal i f)"
    by (intro store_okI) (use store_no_link [OF ok] store_okD [OF ok] store_tmp_unique [OF ok] in \<open>simp_all add: fs_simps is_symlink_def\<close>)
  then show ?thesis using assms by (simp add: store_inv_def store_kept_def fs_simps)
qed

text \<open>The two uses of the fs-verity tool.\<close>

lemma tr_measure:
  assumes T: "fsverity_tool vd e" "plain_path p" and r: "\<And>f. P f \<Longrightarrow> read1 p f = Inr b"
  shows "xtriple e P C X (measure_file p) (\<lambda>got f. P f \<and> got = vd b)"
  unfolding triple_def
proof (intro allI impI)
  fix w :: world assume "P (fsys w)"
  moreover obtain w' where "measure_file p e w = (Inr (vd b), w')" "fsys w' = fsys w" "hist w' = hist w"
    using measure_file_run [OF T r] \<open>P (fsys w)\<close> by blast
  ultimately show "case measure_file p e w of (r, w') \<Rightarrow>
        (\<exists>new. hist w' = new @ hist w \<and> fsys w' = hd (new @ [fsys w]) \<and> (\<forall>g \<in> set new. C g)) \<and>
        (case r of Inl x \<Rightarrow> X x (fsys w') | Inr x \<Rightarrow> P (fsys w') \<and> x = vd b)"
    by simp
qed

lemma tr_enable:
  assumes T: "fsverity_tool vd e" "plain_path p" "\<not> dry_run e" and t: "\<And>f. P f \<Longrightarrow> tmp_file p b f"
    and Q: "\<And>f i. P f \<Longrightarrow> lookup f p = Some (File i) \<Longrightarrow> C (seal i f) \<and> Q () (seal i f)"
  shows "xtriple e P C X (enable_verity p) Q"
  unfolding triple_def
proof (intro allI impI)
  fix w :: world assume P: "P (fsys w)"
  obtain i where i: "lookup (fsys w) p = Some (File i)" "inodes (fsys w) i = Some \<lparr>bytes = b, verity = False\<rparr>"
    using t [OF P] by (auto simp: tmp_file_def)
  obtain w' where "enable_verity p e w = (Inr (), w')" "fsys w' = seal i (fsys w)"
    "hist w' = seal i (fsys w) # hist w"
    using enable_verity_run [OF T i] by auto
  then show "case enable_verity p e w of (r, w') \<Rightarrow>
        (\<exists>new. hist w' = new @ hist w \<and> fsys w' = hd (new @ [fsys w]) \<and> (\<forall>g \<in> set new. C g)) \<and>
        (case r of Inl x \<Rightarrow> X x (fsys w') | Inr x \<Rightarrow> Q x (fsys w'))"
    using Q [OF P i(1)] by (auto intro!: exI [of _ "[seal i (fsys w)]"])
qed

lemma tmp_file_read: "tmp_file t b f \<Longrightarrow> read1 t f = Inr b"
  by (auto simp: tmp_file_def read1_def)

lemma tmp_file_sealed: "tmp_file p b f \<Longrightarrow> lookup f p = Some (File i) \<Longrightarrow> placed p b (seal i f)"
  by (auto simp: tmp_file_def placed_def seal_def lookup_def)

text \<open>The three ways \<open>place_object\<close> ends.\<close>

text \<open>From the measured digest on: refused, or moved and sealed.\<close>

lemma place_measured:
  assumes T: "fsverity_tool vd e" "\<not> dry_run e" and P: "place_for s rel dest t"
    and f: "store_inv vd s f0 f" "tmp_file t b f" and d: "lookup f dest = None"
  shows "xtriple e ((=) f) (store_inv vd s f0) (\<lambda>x g. x = SystemExit \<and> g = f \<and> lookup f dest = None \<and> vd b \<noteq> no_slash rel)
     (bnd (steps [if_do (vd b \<noteq> no_slash rel) (die m), mkdirs (butlast dest), os_replace t dest, enable_verity dest]) (\<lambda>_. ret True))
     (\<lambda>r g. r \<and> store_inv vd s f0 g \<and> placed dest b g \<and> lookup g t = None)"
    (is "xtriple e _ ?C ?X _ ?Q")
proof (cases "vd b = no_slash rel")
  case False
  have "xtriple e ((=) f) ?C ?X (if_do (vd b \<noteq> no_slash rel) (die m)) (\<lambda>_ _. False)"
    by (rule tr_if_do) (use d False in \<open>auto intro: tr_die\<close>)
  then show ?thesis unfolding steps.simps bnd_assoc
    by (rule tr_bnd) (auto simp: triple_def)
next
  case True
  note p = place_forD [OF P]
  obtain i where i: "lookup f t = Some (File i)" using f(2) by (auto simp: tmp_file_def)
  have dir: "lookup f (butlast dest) = Some Dir"
    using wf_parent [OF store_inv_wf [OF f(1)] i p(6)] p(10) by simp
  let ?R = "\<lambda>g. store_inv vd s f0 g \<and> tmp_file dest b g \<and> lookup g t = None"
  have rep: "xtriple e ((=) f) ?C ?X (os_replace t dest) (\<lambda>_. ?R)"
    unfolding os_replace_def
    by (rule tr_atomic) (use store_replace [OF f(1) P f(2) d True] in auto)
  have en: "xtriple e ?R ?C ?X (enable_verity dest) (\<lambda>_ g. store_inv vd s f0 g \<and> placed dest b g \<and> lookup g t = None)"
    by (rule tr_enable [OF T(1) p(11) T(2)]) (auto simp: store_inv_seal tmp_file_sealed fs_simps)
  have "xtriple e ((=) f) ?C ?X (if_do (vd b \<noteq> no_slash rel) (die m)) (\<lambda>_. (=) f)"
    by (rule tr_if_do) (use True in auto)
  then show ?thesis unfolding steps.simps bnd_assoc
    by (intro tr_bnd [OF _ tr_bnd [OF tot_mkdirs_existing tr_bnd [OF rep tr_bnd [OF en tr_bnd [OF tr_ret tr_ret]]]]])
      (use dir in auto)
qed

lemma place_object_spec:
  assumes T: "fsverity_tool vd e" "\<not> dry_run e" and P: "place_for s rel dest t"
    and f: "store_inv vd s f0 f" "tmp_file t b f"
  shows "xtriple e ((=) f) (store_inv vd s f0)
     (\<lambda>x g. x = SystemExit \<and> g = f \<and> lookup f dest = None \<and> vd b \<noteq> no_slash rel)
     (place_object t s rel)
     (\<lambda>r g. store_inv vd s f0 g \<and> (if r then lookup f dest = None \<and> placed dest b g \<and> lookup g t = None
        else lookup f dest \<noteq> None \<and> g = f))"
    (is "xtriple e _ ?C ?X _ ?Q")
proof -
  note p = place_forD [OF P]
  have ok: "store_ok vd s f" using f by (simp add: store_inv_def)
  have ex: "path_exists f dest \<longleftrightarrow> lookup f dest \<noteq> None"
    using store_no_link [OF ok p(2)] by (simp add: path_exists_def stat_no_link)
  have body: "xtriple e ((=) f) ?C ?X (bnd (steps
          [if_do (vd b \<noteq> no_slash rel) (die m), mkdirs (butlast dest), os_replace t dest, enable_verity dest]) (\<lambda>_. ret True)) ?Q"
    if d: "lookup f dest = None" for m
    by (rule tr_conseq_x [OF place_measured [OF T P f d]]) (use d in auto)
  let ?m = "bnd (measure_file t) (\<lambda>got. bnd (steps
          [if_do (got \<noteq> no_slash rel) (die (''object digest mismatch: '' @ rel @ '' (measured '' @ got @ '')'')),
           mkdirs (butlast dest), os_replace t dest, enable_verity dest]) (\<lambda>_. ret True))"
  have m: "xtriple e ((=) f) ?C ?X ?m ?Q" if d: "lookup f dest = None"
  proof (rule tr_bnd)
    show "xtriple e ((=) f) ?C ?X (measure_file t) (\<lambda>got g. f = g \<and> got = vd b)"
      by (rule tr_measure [OF T(1) p(12)]) (use f(2) tmp_file_read in auto)
    fix got
    show "xtriple e (\<lambda>g. f = g \<and> got = vd b) ?C ?X (bnd (steps
          [if_do (got \<noteq> no_slash rel) (die (''object digest mismatch: '' @ rel @ '' (measured '' @ got @ '')'')),
           mkdirs (butlast dest), os_replace t dest, enable_verity dest]) (\<lambda>_. ret True)) ?Q"
      by (rule tr_pure) (simp only: body [OF d])
  qed
  show ?thesis unfolding place_object_def Let_def p(1) [symmetric]
  proof (rule tr_gets_bnd)
    fix there
    show "xtriple e (\<lambda>g. f = g \<and> there = path_exists g dest) ?C ?X (if there then ret False else ?m) ?Q"
    proof (cases there)
      case True
      then show ?thesis using ex f(1) by (simp only: if_True) (auto intro!: tr_ret)
    next
      case False
      have "xtriple e (\<lambda>g. f = g \<and> lookup f dest = None) ?C ?X ?m ?Q"
        by (rule tr_pure) (rule m)
      then have "xtriple e (\<lambda>g. f = g \<and> there = path_exists g dest) ?C ?X ?m ?Q"
        by (rule tr_pre) (use False ex in auto)
      then show ?thesis using False by (simp only: if_False)
    qed
  qed
qed

end
