(* ===== verification/Landing.thy ===== *)
theory Landing
  imports StoreSpec
begin

text \<open>
  Landing objects keeps the store sound and, when it returns, has landed them all: the
  common contract of the two strategies, and each strategy.
\<close>

section \<open>Places\<close>

lemma comps_join: "list_all plain_name cs \<Longrightarrow> comps (join ''/'' cs) = cs"
proof (induction cs rule: induct_list012)
  case (3 x y zs)
  then have "CHR ''/'' \<notin> set x" "x \<noteq> []" "x \<noteq> ''.''" by (auto simp: plain_name_def)
  then show ?case using 3 by (simp add: comps_def split_on_app)
qed (simp_all add: comps_plain, simp add: comps_def)

lemma no_slash_join: "list_all plain_name cs \<Longrightarrow> no_slash (join ''/'' cs) = concat cs"
  by (induction cs rule: induct_list012) (auto simp: no_slash_def plain_name_def filter_id_conv)

lemma join_relative: "list_all plain_name cs \<Longrightarrow> cs \<noteq> [] \<Longrightarrow> \<not> startswith (join ''/'' cs) ''/''"
proof (induction cs rule: induct_list012)
  case (2 x)
  then show ?case by (cases x) (auto simp: startswith_def plain_name_def)
next
  case (3 x y zs)
  then show ?case by (cases x) (auto simp: startswith_def plain_name_def)
qed simp

lemma dot_tmp_name: "CHR ''/'' \<notin> set nm \<Longrightarrow> plain_name (dot_tmp nm) \<and> dotted (dot_tmp nm)"
  by (auto simp: dot_tmp_def plain_name_def dotted_def startswith_def)

text \<open>Components under which an object may be stored.\<close>

definition store_names :: "path \<Rightarrow> bool" where
  "store_names cs \<longleftrightarrow> cs \<noteq> [] \<and> list_all plain_name cs \<and> list_all (\<lambda>c. \<not> dotted c) cs"

lemma place_for_names:
  assumes "plain_path s" "store_names cs" "pjoin s rel = s @ cs" "no_slash rel = concat cs" "CHR ''/'' \<notin> set nm"
  shows "place_for s rel (s @ cs) (s @ butlast cs @ [dot_tmp nm])"
proof -
  have "list_all plain_name (butlast cs)" using assms(2) by (auto simp: store_names_def list_all_iff dest: in_set_butlastD)
  then show ?thesis
    using assms dot_tmp_name [OF assms(5)]
    by (auto simp: place_for_def plain_path_def store_names_def object_name_def butlast_append strict_prefix_def)
qed

lemma digest_names:
  assumes "is_digest d"
  shows "store_names [take 2 d, drop 2 d]" "CHR ''/'' \<notin> set d" "pjoin s (rel_for_digest d) = s @ [take 2 d, drop 2 d]"
    "no_slash (rel_for_digest d) = concat [take 2 d, drop 2 d]"
proof -
  have ns: "CHR ''/'' \<notin> set d" "CHR ''.'' \<notin> set d"
    using assms by (auto simp: is_digest_def list_all_iff is_hex_def code_def)
  then show "CHR ''/'' \<notin> set d" by simp
  have p: "CHR ''/'' \<notin> set (take 2 d)" "CHR ''/'' \<notin> set (drop 2 d)" "CHR ''.'' \<notin> set (take 2 d)" "CHR ''.'' \<notin> set (drop 2 d)"
    using ns set_take_subset set_drop_subset by fast+
  have l: "take 2 d \<noteq> []" "drop 2 d \<noteq> []" using assms by (auto simp: is_digest_def)
  have "\<not> dotted x" if "CHR ''.'' \<notin> set x" for x
    using that by (cases x) (auto simp: dotted_def startswith_def)
  then show "store_names [take 2 d, drop 2 d]" using p l by (auto simp: store_names_def plain_name_def)
  show "pjoin s (rel_for_digest d) = s @ [take 2 d, drop 2 d]" "no_slash (rel_for_digest d) = concat [take 2 d, drop 2 d]"
    using rel_for_digest_comps [OF assms] by (simp_all add: pjoin_def)
qed

section \<open>Placing one object\<close>

text \<open>Directories, a temporary file by any means, then \<open>place_object\<close>.\<close>

lemma tr_place:
  assumes T: "fsverity_tool vd e" "\<not> dry_run e" and P: "place_for s rel dest t"
  shows "triple e (\<lambda>f. store_inv vd s f0 f \<and> (\<exists>b. tmp_file t b f)) (store_inv vd s f0) (place_object t s rel)
    (\<lambda>_ f. store_inv vd s f0 f \<and> lookup f dest \<noteq> None)"
proof (rule tr_exact)
  fix f assume "store_inv vd s f0 f \<and> (\<exists>b. tmp_file t b f)"
  then obtain b where f: "store_inv vd s f0 f" "tmp_file t b f" by blast
  show "triple e ((=) f) (store_inv vd s f0) (place_object t s rel) (\<lambda>_ f. store_inv vd s f0 f \<and> lookup f dest \<noteq> None)"
    by (rule tr_conseq_x [OF place_object_spec [OF T P f]]) (use f(1) in \<open>auto simp: placed_def split: if_splits\<close>)
qed

lemma tr_land:
  assumes T: "fsverity_tool vd e" "\<not> dry_run e" and P: "place_for s rel (s @ cs) t" and c: "store_names cs"
    and w: "triple e (store_inv vd s f0) (store_inv vd s f0) m (\<lambda>_ f. store_inv vd s f0 f \<and> (\<exists>b. tmp_file t b f))"
  shows "triple e (store_inv vd s f0) (store_inv vd s f0)
    (bnd (mkdirs (butlast (s @ cs))) (\<lambda>_. bnd m (\<lambda>_. bnd (place_object t s rel) (\<lambda>r. ret (k r)))))
    (\<lambda>_ f. store_inv vd s f0 f \<and> lookup f (s @ cs) \<noteq> None)"
proof -
  have b: "butlast (s @ cs) = s @ butlast cs" "list_all (\<lambda>c. \<not> dotted c) (butlast cs)"
    using c by (auto simp: store_names_def butlast_append list_all_iff dest: in_set_butlastD)
  have mk: "triple e (store_inv vd s f0) (store_inv vd s f0) (mkdirs (s @ butlast cs)) (\<lambda>_. store_inv vd s f0)"
    by (rule tr_conseq [OF keeps_store_mkdirs [OF b(2)]]) auto
  show ?thesis unfolding b
    by (rule tr_bnd [OF mk tr_bnd [OF w tr_bnd [OF tr_place [OF T P] tr_ret]]])
qed

section \<open>The contract\<close>

text \<open>
  A strategy handles a list of items one by one. For each admissible item it makes sure
  that something is stored under the item's names; it keeps the store sound and loses nothing.
\<close>

definition in_store :: "path \<Rightarrow> path set \<Rightarrow> fs \<Rightarrow> bool" where
  "in_store s A f \<longleftrightarrow> (\<forall>p \<in> A. stored s p \<and> lookup f p \<noteq> None)"

lemma in_store_kept: "store_kept s f g \<Longrightarrow> in_store s A f \<Longrightarrow> in_store s A g"
  by (simp add: in_store_def store_kept_def)

text \<open>What has landed stays.\<close>

lemma tr_in_store:
  assumes "\<And>f0. triple e (store_inv vd s f0) (store_inv vd s f0) m (\<lambda>x f. store_inv vd s f0 f \<and> Q x f)"
  shows "triple e (\<lambda>f. store_inv vd s f0 f \<and> in_store s A f) (store_inv vd s f0) m
    (\<lambda>x f. store_inv vd s f0 f \<and> in_store s A f \<and> Q x f)"
proof (rule tr_exact)
  fix f assume f: "store_inv vd s f0 f \<and> in_store s A f"
  then have k: "store_inv vd s f f" "store_kept s f0 f" by (auto simp: store_inv_def store_kept_def)
  have up: "store_inv vd s f0 g" "store_kept s f g" if "store_inv vd s f g" for g
    using that k(2) store_kept_trans by (auto simp: store_inv_def)
  show "triple e ((=) f) (store_inv vd s f0) m (\<lambda>x f. store_inv vd s f0 f \<and> in_store s A f \<and> Q x f)"
    by (rule tr_conseq [OF assms [of f]]) (use up in_store_kept f k(1) in blast)+
qed

lemma keeps_in_store:
  assumes "\<And>f0. keeps e (store_inv vd s f0) m"
  shows "triple e (\<lambda>f. store_inv vd s f0 f \<and> in_store s A f) (store_inv vd s f0) m
    (\<lambda>_ f. store_inv vd s f0 f \<and> in_store s A f)"
  by (rule tr_conseq [OF tr_in_store [where Q = "\<lambda>_ _. True"]]) (use assms in auto)

locale landing =
  fixes e :: env and vd :: "string \<Rightarrow> string" and s :: path and step :: "'a \<Rightarrow> 'b \<Rightarrow> 'b proc"
    and dests :: "'a \<Rightarrow> path set" and ok :: "'a \<Rightarrow> bool"
  assumes dests_stored: "ok x \<Longrightarrow> p \<in> dests x \<Longrightarrow> stored s p"
    and lands: "ok x \<Longrightarrow> triple e (store_inv vd s f0) (store_inv vd s f0) (step x b)
      (\<lambda>_ f. store_inv vd s f0 f \<and> (\<forall>p \<in> dests x. lookup f p \<noteq> None))"
begin

lemma lands_more:
  assumes "ok x"
  shows "triple e (\<lambda>f. store_inv vd s f0 f \<and> in_store s A f) (store_inv vd s f0) (step x b)
    (\<lambda>_ f. store_inv vd s f0 f \<and> in_store s (dests x \<union> A) f)"
  by (rule tr_conseq [OF tr_in_store [where A = A, OF lands [OF assms]]])
    (use dests_stored [OF assms] in \<open>auto simp: in_store_def\<close>)

lemma lands_all:
  assumes "\<forall>x \<in> set xs. ok x"
  shows "triple e (store_inv vd s f0) (store_inv vd s f0) (for_acc step xs b)
    (\<lambda>_ f. store_inv vd s f0 f \<and> in_store s (\<Union> (dests ` set xs)) f)"
proof -
  let ?J = "\<lambda>ys (_::'b) f. store_inv vd s f0 f \<and> in_store s (\<Union> (dests ` set ys)) f"
  have "triple e (?J [] b) (store_inv vd s f0) (for_acc step xs b) (?J xs)"
  proof (rule tr_for_acc_inv)
    fix ys x zs b assume "xs = ys @ x # zs"
    then have x: "ok x" using assms by simp
    show "triple e (?J ys b) (store_inv vd s f0) (step x b) (?J (ys @ [x]))"
      by (rule tr_conseq [OF lands_more [OF x, of f0 "\<Union> (dests ` set ys)"]]) (auto simp: Un_commute)
  qed
  then show ?thesis by (simp add: in_store_def)
qed

end

section \<open>Both strategies meet it\<close>

definition tree_dest :: "path \<Rightarrow> path \<Rightarrow> path \<Rightarrow> path" where
  "tree_dest src s fp = s @ drop (length src) fp"

definition landing_env :: "(string \<Rightarrow> string) \<Rightarrow> env \<Rightarrow> path \<Rightarrow> bool" where
  "landing_env vd e s \<longleftrightarrow> fsverity_tool vd e \<and> \<not> dry_run e \<and> plain_path s"

definition tree_ok :: "env \<Rightarrow> (string \<Rightarrow> string) \<Rightarrow> path \<Rightarrow> path \<Rightarrow> path \<Rightarrow> bool" where
  "tree_ok e vd s src fp \<longleftrightarrow> landing_env vd e s \<and> (\<exists>cs. fp = src @ cs \<and> store_names cs)"

definition slice_dest :: "path \<Rightarrow> want \<Rightarrow> path" where
  "slice_dest s w = (case w of (_, _, d) \<Rightarrow> s @ [take 2 d, drop 2 d])"

definition slice_ok :: "env \<Rightarrow> (string \<Rightarrow> string) \<Rightarrow> path \<Rightarrow> want \<Rightarrow> bool" where
  "slice_ok e vd s w \<longleftrightarrow> landing_env vd e s \<and> (case w of (_, _, d) \<Rightarrow> is_digest d)"

lemma stored_names: "store_names cs \<Longrightarrow> stored s (s @ cs)"
  by (auto simp: store_names_def stored_def strict_prefix_def list_all_iff)

lemma present_names:
  assumes "path_exists f p"
  shows "lookup f p \<noteq> None"
  using assms by (cases "lookup f p") auto

lemma tr_unless_there:
  assumes "triple e (store_inv vd s f0) (store_inv vd s f0) m (\<lambda>_ f. store_inv vd s f0 f \<and> lookup f p \<noteq> None)"
  shows "triple e (store_inv vd s f0) (store_inv vd s f0)
    (bnd (gets (\<lambda>f. path_exists f p)) (\<lambda>there. if there then ret b else m))
    (\<lambda>_ f. store_inv vd s f0 f \<and> lookup f p \<noteq> None)"
proof (rule tr_gets_bnd)
  fix there
  show "triple e (\<lambda>f. store_inv vd s f0 f \<and> there = path_exists f p) (store_inv vd s f0) (if there then ret b else m)
    (\<lambda>_ f. store_inv vd s f0 f \<and> lookup f p \<noteq> None)"
  proof (cases there)
    case True
    then show ?thesis using present_names by (auto intro!: tr_ret)
  next
    case False
    then show ?thesis by (simp only: if_False) (rule tr_pre [OF assms], simp)
  qed
qed

lemma tr_store_copy_at:
  assumes "place_for s rel dest t"
  shows "triple e (store_inv vd s f0) (store_inv vd s f0) (copy2 src t) (\<lambda>_ f. store_inv vd s f0 f \<and> (\<exists>b. tmp_file t b f))"
  using tr_store_copy place_forD(8,9) [OF assms] by blast

lemma tr_copy_slice:
  assumes "place_for s rel dest t"
  shows "triple e (store_inv vd s f0) (store_inv vd s f0) (copy_slice buf a n t) (\<lambda>_ f. store_inv vd s f0 f \<and> (\<exists>b. tmp_file t b f))"
proof -
  have w: "triple e (store_inv vd s f0) (store_inv vd s f0) (write_text t b) (\<lambda>_ f. store_inv vd s f0 f \<and> (\<exists>b. tmp_file t b f))" for b
    by (rule tr_conseq [OF tr_store_write]) (use place_forD(8,9) [OF assms] in auto)
  show ?thesis
  proof (cases "buf_read buf a n")
    case (Inl x)
    then show ?thesis unfolding copy_slice_def by (simp only: sum.case) (rule tr_bnd [OF w], auto intro: tr_raise)
  qed (simp add: copy_slice_def w)
qed

interpretation tree: landing e vd s "land_file src s" "\<lambda>fp. {tree_dest src s fp}" "tree_ok e vd s src" for e vd s src
proof unfold_locales
  show "tree_ok e vd s src fp \<Longrightarrow> p \<in> {tree_dest src s fp} \<Longrightarrow> stored s p" for fp p
    using stored_names by (auto simp: tree_ok_def tree_dest_def)
  fix fp assume "tree_ok e vd s src fp"
  then obtain cs where L: "landing_env vd e s" and fp: "fp = src @ cs" and cs: "store_names cs"
    by (auto simp: tree_ok_def)
  have dest: "tree_dest src s fp = s @ cs" by (simp add: tree_dest_def fp)
  have c: "cs \<noteq> []" "list_all plain_name cs" using cs by (auto simp: store_names_def)
  have n: "last fp = last cs" "plain_name (last cs)" using c fp by (auto simp: list_all_iff)
  have rel: "pjoin s (rel_str src fp) = s @ cs" "no_slash (rel_str src fp) = concat cs"
    using comps_join [OF c(2)] join_relative [OF c(2,1)] no_slash_join [OF c(2)]
    by (simp_all add: rel_str_def fp pjoin_def)
  have P: "place_for s (rel_str src fp) (s @ cs) (s @ butlast cs @ [dot_tmp (last cs)])"
    by (rule place_for_names [OF _ cs rel]) (use L n in \<open>auto simp: landing_env_def plain_name_def\<close>)
  have t: "pjoin (butlast (s @ cs)) (dot_tmp (last fp)) = s @ butlast cs @ [dot_tmp (last cs)]"
    using dot_tmp_name [of "last cs"] n c(1) by (simp add: plain_name_def butlast_append)
  fix f0 and b :: int
  have body: "triple e (store_inv vd s f0) (store_inv vd s f0)
     (bnd (mkdirs (butlast (s @ cs))) (\<lambda>_. bnd (copy2 fp (s @ butlast cs @ [dot_tmp (last cs)])) (\<lambda>_.
        bnd (place_object (s @ butlast cs @ [dot_tmp (last cs)]) s (rel_str src fp)) (\<lambda>new. ret (if new then b + 1 else b)))))
     (\<lambda>_ f. store_inv vd s f0 f \<and> lookup f (s @ cs) \<noteq> None)"
    by (rule tr_land [OF _ _ P cs tr_store_copy_at [OF P]]) (use L in \<open>auto simp: landing_env_def\<close>)
  have dry: "\<not> dry_run e" using L by (simp add: landing_env_def)
  show "triple e (store_inv vd s f0) (store_inv vd s f0) (land_file src s fp b)
     (\<lambda>_ f. store_inv vd s f0 f \<and> (\<forall>p \<in> {tree_dest src s fp}. lookup f p \<noteq> None))"
    unfolding land_file_def Let_def dest rel(1) t ball_simps
    by (rule tr_conseq [OF tr_unless_there [OF tr_asks_bnd]]) (simp_all only: dry if_False body, simp)
qed

interpretation slices: landing e vd s "place_slice buf s" "\<lambda>w. {slice_dest s w}" "slice_ok e vd s" for e vd s buf
proof unfold_locales
  show "slice_ok e vd s w \<Longrightarrow> p \<in> {slice_dest s w} \<Longrightarrow> stored s p" for w p
    using stored_names digest_names(1) by (auto simp: slice_ok_def slice_dest_def)
  fix w assume "slice_ok e vd s w"
  then obtain offs len d where w: "w = (offs, len, d)" and L: "landing_env vd e s" and d: "is_digest d"
    by (auto simp: slice_ok_def)
  let ?cs = "[take 2 d, drop 2 d]"
  note D = digest_names [OF d]
  have P: "place_for s (rel_for_digest d) (s @ ?cs) (s @ butlast ?cs @ [dot_tmp d])"
    by (rule place_for_names [OF _ D(1,3,4,2)]) (use L in \<open>simp add: landing_env_def\<close>)
  have t: "pjoin (butlast (s @ ?cs)) (dot_tmp d) = s @ butlast ?cs @ [dot_tmp d]"
    using dot_tmp_name [OF D(2)] by (simp add: butlast_append)
  fix f0 and b :: int
  have body: "triple e (store_inv vd s f0) (store_inv vd s f0)
     (bnd (mkdirs (butlast (s @ ?cs))) (\<lambda>_. bnd (copy_slice buf offs len (s @ butlast ?cs @ [dot_tmp d])) (\<lambda>_.
        bnd (place_object (s @ butlast ?cs @ [dot_tmp d]) s (rel_for_digest d)) (\<lambda>new. ret (if new then b + 1 else b)))))
     (\<lambda>_ f. store_inv vd s f0 f \<and> lookup f (s @ ?cs) \<noteq> None)"
    by (rule tr_land [OF _ _ P D(1) tr_copy_slice [OF P]]) (use L in \<open>auto simp: landing_env_def\<close>)
  show "triple e (store_inv vd s f0) (store_inv vd s f0) (place_slice buf s w b)
     (\<lambda>_ f. store_inv vd s f0 f \<and> (\<forall>p \<in> {slice_dest s w}. lookup f p \<noteq> None))"
    unfolding place_slice_def Let_def w slice_dest_def prod.case D(3) t ball_simps
    by (rule tr_conseq [OF tr_unless_there [OF tr_lift_bnd [OF body]]]) auto
qed

section \<open>Ranges\<close>

text \<open>Names that are neither in the store nor above it.\<close>

definition clear_of :: "path \<Rightarrow> path \<Rightarrow> bool" where
  "clear_of s p \<longleftrightarrow> \<not> prefix s p \<and> \<not> prefix p s"

lemma store_inv_shrinks:
  assumes f: "store_inv vd s f0 f" and g: "shrinks A f g" and A: "\<And>q. q \<in> A \<Longrightarrow> \<not> strict_prefix s q"
  shows "store_inv vd s f0 g"
proof -
  have ok: "store_ok vd s f" using f by (simp add: store_inv_def)
  have i: "inodes g = inodes f" and lk: "lookup g q = lookup f q \<or> lookup g q = None" for q
    using g by (auto simp: shrinks_def)
  have in_s: "lookup g q = lookup f q" if "strict_prefix s q" for q
    using g A that by (auto simp: shrinks_def)
  have "store_ok vd s g"
  proof (rule store_okI [OF shrinks_wf [OF g]])
    show "\<not> is_symlink g p" if "strict_prefix s p" for p
      using store_no_link [OF ok that] in_s [OF that] by (simp add: is_symlink_def)
    show "lookup g p \<noteq> Some Dir" if "strict_prefix s p" "dotted (last p)" for p
      using store_okD(1) [OF ok that] in_s [OF that(1)] by simp
    show "q = p" if p: "strict_prefix s p" "dotted (last p)" and j: "lookup g p = Some (File j)" "lookup g q = Some (File j)" for p q j
    proof (rule store_tmp_unique [OF ok p])
      show "lookup f p = Some (File j)" "lookup f q = Some (File j)" using j lk [of p] lk [of q] by auto
    qed
    show "vd b = object_name s p" if "stored s p" "cat g p = Some b" for p b
      using store_okD(2) [OF ok that(1), of b] that in_s [of p] cat_cong [of g p f] i by (simp add: stored_def)
  qed
  moreover have "store_kept s f g"
    using in_s i cat_cong [of g _ f] by (auto simp: store_kept_def stored_def)
  then have "store_kept s f0 g" using f store_kept_trans unfolding store_inv_def by blast
  ultimately show ?thesis by (simp add: store_inv_def)
qed

lemma keeps_unlink_clear:
  assumes "\<not> strict_prefix s p"
  shows "keeps e (store_inv vd s f0) (os_unlink p)"
  unfolding os_unlink_def
proof (rule tr_atomic)
  fix f g assume f: "store_inv vd s f0 f" "unlink1 p f = Inr g"
  have "shrinks {p} f g" by (rule shrinks_unlink [OF shrinks_refl [OF store_inv_wf [OF f(1)]] _ f(2)]) simp
  then have "store_inv vd s f0 g" by (rule store_inv_shrinks [OF f(1)]) (use assms in simp)
  then show "store_inv vd s f0 g \<and> store_inv vd s f0 g" by simp
qed

lemma clear_below:
  assumes "clear_of s p" "prefix p q" shows "\<not> strict_prefix s q"
proof
  assume "strict_prefix s q"
  then have "prefix s q" by (rule strict_prefix_def [THEN iffD1, THEN conjunct1])
  then have "prefix s p \<or> prefix p s" using assms(2) by (rule prefix_same_cases)
  then show False using assms(1) by (simp add: clear_of_def)
qed

lemma keeps_rmtree_clear:
  assumes c: "clear_of s p"
  shows "keeps e (store_inv vd s f0) (rmtree_quiet p)"
proof -
  have "keeps e (store_inv vd s f0) (rmtree p)"
    unfolding rmtree_def
  proof (rule tr_syscall)
    fix f assume f: "store_inv vd s f0 f"
    show st: "store_inv vd s f0 g" if g: "g \<in> set (snd (rmtree1 p f))" for g
    proof (rule store_inv_shrinks [OF f])
      show "shrinks {q. prefix p q} f g"
        by (rule shrinks_rmtree [OF shrinks_refl [OF store_inv_wf [OF f]] _ g]) simp
      show "q \<in> {q. prefix p q} \<Longrightarrow> \<not> strict_prefix s q" for q using clear_below [OF c] by simp
    qed
    have "last (f # snd (rmtree1 p f)) = f \<or> last (f # snd (rmtree1 p f)) \<in> set (snd (rmtree1 p f))"
      by (simp add: last_in_set)
    then have "store_inv vd s f0 (last (f # snd (rmtree1 p f)))" using f st by metis
    then show "store_inv vd s f0 (last (f # snd (rmtree1 p f)))" "store_inv vd s f0 (last (f # snd (rmtree1 p f)))"
      by this+
  qed
  then show ?thesis unfolding rmtree_quiet_def
    by (rule tr_try) (auto intro: tr_rules)
qed

definition temps_clear :: "path \<Rightarrow> env \<Rightarrow> bool" where
  "temps_clear s e \<longleftrightarrow> (\<forall>pre f. clear_of s (temp_name e pre f))"

lemma tr_mkdtemp_clear:
  assumes "temps_clear s e"
  shows "triple e (store_inv vd s f0) (store_inv vd s f0) (mkdtemp pre) (\<lambda>p f. store_inv vd s f0 f \<and> clear_of s p)"
  unfolding mkdtemp_def
proof (rule tr_asks_bnd, rule tr_gets_bnd)
  fix p
  have mk: "triple e (\<lambda>f. store_inv vd s f0 f \<and> p = temp_name e pre f) (store_inv vd s f0) (os_mkdir p)
      (\<lambda>_ f. store_inv vd s f0 f \<and> clear_of s p)"
    unfolding os_mkdir_def
  proof (rule tr_atomic)
    fix f g assume f: "store_inv vd s f0 f \<and> p = temp_name e pre f" and g: "mkdir1 p f = Inr g"
    have c: "clear_of s p" using f assms by (simp add: temps_clear_def)
    have "store_inv vd s f0 g" by (rule store_inv_mkdir [OF _ g]) (use f c in \<open>auto simp: clear_of_def\<close>)
    then show "store_inv vd s f0 g \<and> store_inv vd s f0 g \<and> clear_of s p" using c by simp
  qed simp
  show "triple e (\<lambda>f. store_inv vd s f0 f \<and> p = temp_name e pre f) (store_inv vd s f0) (bnd (os_mkdir p) (\<lambda>_. ret p))
      (\<lambda>p f. store_inv vd s f0 f \<and> clear_of s p)"
    by (rule tr_bnd [OF mk]) (auto intro: tr_ret)
qed

text \<open>A fetched range with the objects it carries.\<close>

definition range_dests :: "path \<Rightarrow> http_range \<times> (exn + path) \<Rightarrow> path set" where
  "range_dests s job = (case job of ((_, _, objs), _) \<Rightarrow> slice_dest s ` set objs)"

definition range_job_ok :: "env \<Rightarrow> (string \<Rightarrow> string) \<Rightarrow> path \<Rightarrow> http_range \<times> (exn + path) \<Rightarrow> bool" where
  "range_job_ok e vd s job \<longleftrightarrow> (case job of ((_, _, objs), res) \<Rightarrow> (\<forall>w \<in> set objs. slice_ok e vd s w) \<and>
     (\<forall>p. res = Inr p \<longrightarrow> \<not> strict_prefix s p))"

interpretation ranges: landing e vd s "place_range s" "range_dests s" "range_job_ok e vd s" for e vd s
proof unfold_locales
  show "range_job_ok e vd s j \<Longrightarrow> p \<in> range_dests s j \<Longrightarrow> stored s p" for j p
    using slices.dests_stored by (fastforce simp: range_job_ok_def range_dests_def split: prod.splits)
  fix j f0 and st :: "int \<times> progress"
  assume J: "range_job_ok e vd s j"
  obtain a z objs res where j: "j = ((a, z, objs), res)" by (metis prod.exhaust)
  obtain new prog where st: "st = (new, prog)" by fastforce
  have ok: "\<forall>w \<in> set objs. slice_ok e vd s w" and cl: "res = Inr p \<Longrightarrow> \<not> strict_prefix s p" for p
    using J j by (auto simp: range_job_ok_def)
  have d: "range_dests s j = slice_dest s ` set objs" by (simp add: range_dests_def j)
  show "triple e (store_inv vd s f0) (store_inv vd s f0) (place_range s j st)
     (\<lambda>_ f. store_inv vd s f0 f \<and> (\<forall>p \<in> range_dests s j. lookup f p \<noteq> None))"
    unfolding place_range_def j st prod.case
  proof (rule tr_lift_bnd)
    fix p assume p: "res = Inr p"
    note b = slices.lands_all [OF ok]
    let ?U = "\<Union> ((\<lambda>w. {slice_dest s w}) ` set objs)"
    have U: "?U = range_dests s j" by (auto simp: range_dests_def j)
    have buf: "triple e (store_inv vd s f0) (store_inv vd s f0) (place_from_buffer p objs s)
       (\<lambda>_ f. store_inv vd s f0 f \<and> in_store s ?U f)"
      unfolding place_from_buffer_def by (rule tr_bnd [OF keeps_read_bytes b])
    have "keeps e (store_inv vd s f0) (bnd (try_except (os_unlink p) (\<lambda>x. if x = OSErr ENOENT p then ret () else raise x)) (\<lambda>_.
        bnd (progress_update (z - a + 1) prog) (\<lambda>prog'. ret (new + k, prog'))))" for f0 k
      by (intro tr_rules keeps_unlink_clear [OF cl [OF p]]) auto
    note rest = keeps_in_store [where A = ?U, OF this]
    show "triple e (store_inv vd s f0) (store_inv vd s f0)
       (bnd (place_from_buffer p objs s) (\<lambda>k.
        bnd (try_except (os_unlink p) (\<lambda>x. if x = OSErr ENOENT p then ret () else raise x)) (\<lambda>_.
        bnd (progress_update (z - a + 1) prog) (\<lambda>prog'. ret (new + k, prog')))))
       (\<lambda>_ f. store_inv vd s f0 f \<and> (\<forall>p \<in> range_dests s ((a, z, objs), res). lookup f p \<noteq> None))"
      by (rule tr_conseq [OF tr_bnd [OF buf rest]]) (auto simp: U in_store_def j)
  qed auto
qed

section \<open>The whole pack\<close>

text \<open>The environment: the pool runs every job, temporary directories and the external
  commands stay out of the store.\<close>

definition pack_env :: "(string \<Rightarrow> string) \<Rightarrow> env \<Rightarrow> path \<Rightarrow> bool" where
  "pack_env vd e s \<longleftrightarrow> landing_env vd e s \<and> temps_clear s e \<and> (\<forall>n. set (done_order e n) = {..<n}) \<and>
     (\<forall>xs. set (set_order e xs) = set xs) \<and> (\<forall>f0. tools_keep (store_inv vd s f0) e)"

lemma tr_collect_all:
  assumes "\<And>x. x \<in> set xs \<Longrightarrow> triple e I I (m x) (\<lambda>y f. I f \<and> R x y)"
  shows "triple e I I (collect m xs) (\<lambda>ys f. I f \<and> list_all2 R xs ys)"
  using assms
proof (induction xs)
  case (Cons x xs)
  have a: "triple e (\<lambda>f. I f \<and> R x y) I (bnd (collect m xs) (\<lambda>ys. ret (y # ys))) (\<lambda>ys f. I f \<and> list_all2 R (x # xs) ys)" for y
    by (rule tr_pure, rule tr_bnd [OF Cons.IH]) (use Cons.prems in \<open>auto intro: tr_ret\<close>)
  show ?case unfolding collect.simps by (rule tr_bnd [OF Cons.prems a]) simp
qed (auto intro: tr_ret)

lemma tr_attempt_result:
  assumes "triple e I I m (\<lambda>x f. I f \<and> R x)"
  shows "triple e I I (attempt m) (\<lambda>y f. I f \<and> (\<forall>x. y = Inr x \<longrightarrow> R x))"
  unfolding triple_def
proof (intro allI impI)
  fix w :: world assume P: "I (fsys w)"
  obtain r w1 where mw: "m e w = (r, w1)" by fastforce
  obtain n where "hist w1 = n @ hist w" "fsys w1 = hd (n @ [fsys w])" "\<forall>g \<in> set n. I g"
    "\<And>x. r = Inl x \<Longrightarrow> I (fsys w1)" "\<And>x. r = Inr x \<Longrightarrow> I (fsys w1) \<and> R x"
    using tripleD [OF assms P mw] by metis
  then show "case attempt m e w of (r, w') \<Rightarrow>
        (\<exists>new. hist w' = new @ hist w \<and> fsys w' = hd (new @ [fsys w]) \<and> (\<forall>g \<in> set new. I g)) \<and>
        (case r of Inl _ \<Rightarrow> I (fsys w') | Inr y \<Rightarrow> I (fsys w') \<and> (\<forall>x. y = Inr x \<longrightarrow> R x))"
    using mw by (cases r) (auto simp: attempt_def)
qed

lemma fetch_range_path:
  assumes "tools_keep I e"
  shows "triple e I I (fetch_range a b c u v p q l) (\<lambda>x f. I f \<and> x = p)"
proof -
  have r: "keeps e I (run cmd k True)" for cmd k using assms by (rule keeps_run)
  show ?thesis unfolding fetch_range_def Let_def
    by (rule tr_bnd [OF r tr_bnd [OF keeps_read_bytes tr_bnd [OF keeps_if_do]]]) (auto intro: tr_rules)
qed

text \<open>Every wanted object is in some range.\<close>

lemma in_pack_offset: "(offs, len, d) \<in> set (snd (snd r)) \<Longrightarrow> (fst r + offs, len, d) \<in> set (in_pack r)"
  by (cases r) (force simp: in_pack_def)

lemma ranges_carry:
  "(offs, len, d) \<in> set want \<Longrightarrow> \<exists>r \<in> set (coalesce_ranges want gap). d \<in> (\<lambda>(_, _, d). d) ` set (snd (snd r))"
  "r \<in> set (coalesce_ranges want gap) \<Longrightarrow> (offs, len, d) \<in> set (snd (snd r)) \<Longrightarrow> \<exists>a n. (a, n, d) \<in> set want"
proof -
  have c: "concat (map in_pack (coalesce_ranges want gap)) = want"
    using coalesce_loop_covers [of gap want None "[]"] by (simp add: coalesce_ranges_def)
  { assume "(offs, len, d) \<in> set want"
    then have "(offs, len, d) \<in> set (concat (map in_pack (coalesce_ranges want gap)))" by (simp only: c)
    then obtain a z objs where r: "(a, z, objs) \<in> set (coalesce_ranges want gap)" "(offs, len, d) \<in> set (in_pack (a, z, objs))"
      by auto
    then obtain k where "(k, len, d) \<in> set objs" by (auto simp: in_pack_def)
    with r(1) show "\<exists>r \<in> set (coalesce_ranges want gap). d \<in> (\<lambda>(_, _, d). d) ` set (snd (snd r))"
      by (intro bexI [OF _ r(1)]) force }
  assume r: "r \<in> set (coalesce_ranges want gap)" "(offs, len, d) \<in> set (snd (snd r))"
  have "(fst r + offs, len, d) \<in> set (in_pack r)" by (rule in_pack_offset [OF r(2)])
  then have "(fst r + offs, len, d) \<in> set (concat (map in_pack (coalesce_ranges want gap)))" using r(1) by auto
  then have "(fst r + offs, len, d) \<in> set want" by (simp only: c)
  then show "\<exists>a n. (a, n, d) \<in> set want" by blast
qed

text \<open>What the jobs return: each the range it was given, and a path outside the store.\<close>

definition job_result :: "path \<Rightarrow> http_range list \<Rightarrow> nat \<Rightarrow> http_range \<times> (exn + path) \<Rightarrow> bool" where
  "job_result s rs i y \<longleftrightarrow> fst y = rs ! i \<and> (\<forall>p. snd y = Inr p \<longrightarrow> \<not> strict_prefix s p)"

lemma tr_range_job:
  assumes "tools_keep (store_inv vd s f0) e" "clear_of s stg"
  shows "triple e (store_inv vd s f0) (store_inv vd s f0) (range_job a b pd rs stg c u i) (\<lambda>y f. store_inv vd s f0 f \<and> job_result s rs i y)"
proof -
  have "CHR ''/'' \<notin> set (show_nat i)" using show_nat_digits [of "CHR ''/''" i] by (auto simp: is_digit_def code_def)
  then have "plain_name (CHR ''r'' # show_nat i)" by (simp add: plain_name_def)
  then have "\<not> strict_prefix s (pjoin stg (CHR ''r'' # show_nat i))" using clear_below [OF assms(2)] by simp
  then show ?thesis unfolding range_job_def job_result_def
    by (auto split: prod.split intro!: tr_bnd [OF tr_attempt_result [OF fetch_range_path [OF assms(1)]]] tr_ret)
qed

lemma job_results:
  assumes R: "list_all2 (job_result s rs) order results" and o: "set order = {..<length rs}"
  shows "y \<in> set results \<Longrightarrow> \<exists>i < length rs. job_result s rs i y"
    and "r \<in> set rs \<Longrightarrow> \<exists>y \<in> set results. fst y = r"
proof -
  assume "y \<in> set results"
  then obtain k where k: "k < length results" "y = results ! k" by (auto simp: in_set_conv_nth)
  have "order ! k \<in> set order" using k(1) list_all2_lengthD [OF R] by simp
  then show "\<exists>i < length rs. job_result s rs i y" using list_all2_nthD2 [OF R k(1)] k(2) o by auto
next
  assume "r \<in> set rs"
  then obtain i where i: "i < length rs" "r = rs ! i" by (auto simp: in_set_conv_nth)
  then have "i \<in> set order" using o by simp
  then obtain k where k: "k < length order" "order ! k = i" by (auto simp: in_set_conv_nth)
  then have "fst (results ! k) = r" using list_all2_nthD [OF R k(1)] i(2) by (simp add: job_result_def)
  then show "\<exists>y \<in> set results. fst y = r" using k(1) list_all2_lengthD [OF R] by (metis nth_mem)
qed

lemma tr_place_results:
  assumes L: "landing_env vd e s" and w: "\<forall>(offs, len, d) \<in> set want. is_digest d" and rs: "rs = coalesce_ranges want gap"
    and R: "list_all2 (job_result s rs) order results" and o: "set order = {..<length rs}"
  shows "triple e (store_inv vd s f0) (store_inv vd s f0) (for_acc (place_range s) results st)
    (\<lambda>_ f. store_inv vd s f0 f \<and> in_store s (slice_dest s ` set want) f)"
proof -
  have ok: "slice_ok e vd s x" if "r \<in> set rs" "x \<in> set (snd (snd r))" for r x
    using ranges_carry(2) [of r want] that w L by (cases x) (fastforce simp: rs slice_ok_def)
  have jobs: "\<forall>j \<in> set results. range_job_ok e vd s j"
  proof
    fix j assume "j \<in> set results"
    then obtain i where i: "i < length rs" "job_result s rs i j" using job_results(1) [OF R o] by blast
    then have "rs ! i \<in> set rs" by simp
    then have "slice_ok e vd s x" if "x \<in> set (snd (snd (rs ! i)))" for x using ok that by blast
    moreover obtain a z objs res where "j = ((a, z, objs), res)" by (metis prod.exhaust)
    ultimately show "range_job_ok e vd s j" using i(2) by (auto simp: range_job_ok_def job_result_def dest: sym)
  qed
  have "slice_dest s x \<in> \<Union> (range_dests s ` set results)" if x: "x \<in> set want" for x
  proof -
    obtain offs len d where xd: "x = (offs, len, d)" by (cases x)
    obtain r y where r: "r \<in> set rs" "y \<in> set (snd (snd r))" "slice_dest s y = slice_dest s x"
      using ranges_carry(1) [OF x [unfolded xd], of gap] by (fastforce simp: xd rs slice_dest_def)
    obtain j where j: "j \<in> set results" "fst j = r" using job_results(2) [OF R o r(1)] by blast
    have "slice_dest s y \<in> range_dests s j" using j(2) r(2) by (auto simp: range_dests_def split: prod.split)
    then show ?thesis using j(1) r(3) by auto
  qed
  then have all: "slice_dest s ` set want \<subseteq> \<Union> (range_dests s ` set results)" by blast
  show ?thesis
    by (rule tr_conseq [OF ranges.lands_all [OF jobs]]) (use all in \<open>auto simp: in_store_def\<close>)
qed

lemma tr_fetch_and_place:
  assumes E: "pack_env vd e s" and w: "\<forall>(offs, len, d) \<in> set want. is_digest d" and rs: "rs = coalesce_ranges want gap"
    and c: "clear_of s stg"
  shows "triple e (store_inv vd s f0) (store_inv vd s f0) (fetch_and_place a b pd rs s present auth stg)
    (\<lambda>_ f. store_inv vd s f0 f \<and> in_store s (slice_dest s ` set want) f)"
proof -
  let ?I = "store_inv vd s f0" and ?o = "done_order e (length rs)"
  let ?Q = "\<lambda>_ f. ?I f \<and> in_store s (slice_dest s ` set want) f"
  have L: "landing_env vd e s" "set ?o = {..<length rs}" "tools_keep ?I e" using E by (auto simp: pack_env_def)
  have jobs: "triple e ?I ?I (collect (range_job a b pd rs stg auth u) ?o) (\<lambda>ys f. ?I f \<and> list_all2 (job_result s rs) ?o ys)" for u
    by (rule tr_collect_all) (rule tr_range_job [OF L(3) c])
  have place: "triple e (\<lambda>f. ?I f \<and> list_all2 (job_result s rs) ?o results) ?I (for_acc (place_range s) results st) ?Q" for results st
    by (rule tr_pure) (rule tr_place_results [OF L(1) w rs _ L(2)])
  have sm: "triple e (?Q st) ?I (summary x y z j pr) ?Q" for st x y z j pr
    by (rule tr_conseq [OF keeps_in_store [OF keeps_reading_objects(4)]]) (use E in \<open>auto simp: pack_env_def\<close>)
  show ?thesis unfolding fetch_and_place_def Let_def
    by (intro tr_asks_bnd tr_bnd [OF keeps_progress(2)] tr_bnd [OF jobs tr_bnd [OF place sm]])
qed

lemma land_pack_spec:
  assumes E: "pack_env vd e s" and w: "\<forall>(offs, len, d) \<in> set want. is_digest d"
  shows "triple e (store_inv vd s f0) (store_inv vd s f0) (land_pack_by_range repo pd want s present)
    (\<lambda>_ f. store_inv vd s f0 f \<and> in_store s (slice_dest s ` set want) f)"
proof -
  let ?I = "store_inv vd s f0"
  let ?Q = "\<lambda>_ f. ?I f \<and> in_store s (slice_dest s ` set want) f"
  have L: "temps_clear s e" "tools_keep ?I e" and dry: "\<not> dry_run e"
    using E by (auto simp: pack_env_def landing_env_def)
  define rs where "rs = coalesce_ranges want (COALESCE_GAP e)"
  show ?thesis unfolding land_pack_by_range_def Let_def
  proof (intro tr_bnd [OF keeps_require(2)] tr_asks_bnd, simp only: dry if_False rs_def [symmetric], rule tr_bnd [OF keeps_oci(3) [OF L(2)]])
    fix auth
    have tmp: "triple e ?I ?I (bnd (mkdtemp ''zerith-pack-'') (\<lambda>stg.
        try_finally (fetch_and_place a b pd rs s present auth stg) (rmtree_quiet stg))) ?Q" for a b
    proof (rule tr_bnd [OF tr_mkdtemp_clear [OF L(1)]], rule tr_pure)
      fix stg assume c: "clear_of s stg"
      show "triple e ?I ?I (try_finally (fetch_and_place a b pd rs s present auth stg) (rmtree_quiet stg)) ?Q"
        by (rule tr_finally_post [OF tr_fetch_and_place [OF E w rs_def c] keeps_in_store [OF keeps_rmtree_clear [OF c]] keeps_rmtree_clear [OF c]])
    qed
    show "triple e ?I ?I (case split1 (CHR ''/'') repo of
         [registry, repo_path] \<Rightarrow> bnd (mkdtemp ''zerith-pack-'') (\<lambda>stg.
           try_finally (fetch_and_place registry repo_path pd rs s present auth stg) (rmtree_quiet stg))
       | _ \<Rightarrow> raise ValueErr) ?Q"
      by (auto split: list.split intro: tmp tr_raise)
  qed
qed

text \<open>The objects to fetch: referenced, absent, and listed in the index.\<close>

definition wanted :: "path \<Rightarrow> (string \<times> int \<times> int) list \<Rightarrow> string list \<Rightarrow> fs \<Rightarrow> want list" where
  "wanted s index refs f = concat (map (\<lambda>r. case map_of index (no_slash r) of
       None \<Rightarrow> [] | Some (offs, len) \<Rightarrow> [(offs, len, no_slash r)])
     (filter (\<lambda>r. \<not> path_exists f (pjoin s r)) refs))"

definition inlined_count :: "path \<Rightarrow> (string \<times> int \<times> int) list \<Rightarrow> string list \<Rightarrow> fs \<Rightarrow> int" where
  "inlined_count s index refs f =
     int (length (filter (\<lambda>r. \<not> path_exists f (pjoin s r) \<and> map_of index (no_slash r) = None) refs))"

definition present_count :: "path \<Rightarrow> string list \<Rightarrow> fs \<Rightarrow> int" where
  "present_count s refs f = int (length (filter (\<lambda>r. path_exists f (pjoin s r)) refs))"

lemma missing_loop:
  "for_acc (missing_step s index) refs (w0, i0, p0) e w =
     (Inr (w0 @ wanted s index refs (fsys w), i0 + inlined_count s index refs (fsys w), p0 + present_count s refs (fsys w)), w)"
proof (induction refs arbitrary: w0 i0 p0)
  case Nil
  then show ?case by (simp add: run_simps wanted_def inlined_count_def present_count_def)
next
  case (Cons r refs)
  have "missing_step s index r (w0, i0, p0) e w = (Inr (w0 @ wanted s index [r] (fsys w),
      i0 + inlined_count s index [r] (fsys w), p0 + present_count s [r] (fsys w)), w)"
    by (simp add: missing_step_def run_simps wanted_def inlined_count_def present_count_def split: option.split)
  then show ?case using Cons.IH [of "w0 @ wanted s index [r] (fsys w)"]
    by (simp add: bnd_def) (simp add: wanted_def inlined_count_def present_count_def)
qed

lemma referenced_run:
  assumes "has_tool e ''composefs-info''" and "t_rc (tool e [''composefs-info'', ''dump'', path_str rc] (fsys w)) = 0"
    and "t_fs (tool e [''composefs-info'', ''dump'', path_str rc] (fsys w)) = []"
  shows "\<exists>w'. referenced_objects rc e w = (Inr (set_order e (remdups (map rel_for_digest (find_digests False
       (strip (univ_nl (t_out (tool e [''composefs-info'', ''dump'', path_str rc] (fsys w))))))))), w')
     \<and> fsys w' = fsys w \<and> hist w' = hist w"
  using run_capture [of e "[''composefs-info'', ''dump'', path_str rc]" w True] assms
  by (simp add: referenced_objects_def bnd_def asks_def ret_def vlog_run)

lemma tr_referenced:
  assumes "tools_keep I e" "\<forall>xs. set (set_order e xs) = set xs"
  shows "triple e I I (referenced_objects rc) (\<lambda>refs f. I f \<and> (\<forall>r \<in> set refs. \<exists>d. is_digest d \<and> r = rel_for_digest d))"
  unfolding referenced_objects_def
  by (rule tr_bnd [OF keeps_run [OF assms(1)] tr_asks_bnd], rule tr_ret)
    (auto simp: assms(2) find_digests_runs)

lemma tr_missing:
  assumes "tools_keep I e" "\<forall>xs. set (set_order e xs) = set xs"
  shows "triple e I I (missing_objects src s index) (\<lambda>(want, _) f. I f \<and> (\<forall>(_, _, d) \<in> set want. is_digest d))"
  unfolding missing_objects_def
proof (rule tr_bnd [OF tr_referenced [OF assms]], rule tr_pure)
  fix refs assume r: "\<forall>r \<in> set refs. \<exists>d. is_digest d \<and> r = rel_for_digest d"
  have d: "\<forall>(_, _, d) \<in> set (wanted s index refs f). is_digest d" for f
    using r rel_for_digest_comps(2) by (fastforce simp: wanted_def split: option.splits)
  have "triple e I I (for_acc (missing_step s index) refs ([], 0, 0))
      (\<lambda>(want, _) f. I f \<and> (\<forall>(_, _, d) \<in> set want. is_digest d))"
    using d by (simp add: triple_def missing_loop)
  then show "triple e I I (bnd (for_acc (missing_step s index) refs ([], 0, 0))
      (\<lambda>(want, inlined, present). ret (sort_want want, inlined, present)))
      (\<lambda>(want, _) f. I f \<and> (\<forall>(_, _, d) \<in> set want. is_digest d))"
    by (rule tr_bnd) (auto simp: sort_want_def intro!: tr_ret split: prod.split)
qed

text \<open>The index goes through a temporary directory.\<close>

lemma keeps_fetch_index:
  assumes "pack_env vd e s"
  shows "keeps e (store_inv vd s f0) (fetch_index repo idx)"
proof -
  have T: "tools_keep (store_inv vd s f0) e" "temps_clear s e" using assms by (auto simp: pack_env_def)
  have body: "keeps e (store_inv vd s f0) (bnd (run_out c) (\<lambda>_. bnd (read_bytes out) (\<lambda>raw.
        bnd (lift (meta_get idx k)) (\<lambda>enc. bnd (decoded (enc = x) raw) (\<lambda>text.
        if utf8_ok text then lift (parse_index text) else raise ValueErr)))))" for c out k x
    unfolding decoded_def by (intro tr_rules T)
  show ?thesis unfolding fetch_index_def Let_def
  proof (rule keeps_bnd [OF keeps_reading(4)], rule tr_bnd [OF tr_mkdtemp_clear [OF T(2)]], rule tr_pure)
    fix digest stg assume c: "clear_of s stg"
    show "keeps e (store_inv vd s f0) (try_finally
       (bnd (run_out [''oras'', ''blob'', ''fetch'', repo @ ''@'' @ json_str digest, ''--output'', path_str (pjoin stg ''index'')]) (\<lambda>_.
        bnd (read_bytes (pjoin stg ''index'')) (\<lambda>raw.
        bnd (lift (meta_get idx ''encoding'')) (\<lambda>enc. bnd (decoded (enc = Some (JStr ''gzip'')) raw) (\<lambda>text.
        if utf8_ok text then lift (parse_index text) else raise ValueErr))))) (rmtree_quiet stg))"
      by (rule tr_finally [OF body keeps_rmtree_clear [OF c]])
  qed
qed

lemma keeps_land_from_pack:
  assumes E: "pack_env vd e s"
  shows "keeps e (store_inv vd s f0) (land_from_pack src s)"
proof -
  let ?I = "store_inv vd s f0"
  have T: "tools_keep ?I e" "\<forall>xs. set (set_order e xs) = set xs" using E by (auto simp: pack_env_def)
  have land: "keeps e ?I (land_pack_by_range repo pd want s present)"
    if "\<forall>(_, _, d) \<in> set want. is_digest d" for repo pd want present
    by (rule tr_conseq [OF land_pack_spec [OF E]]) (use that in auto)
  have rest: "keeps e ?I (bnd (missing_objects src s index) (\<lambda>(want, inlined, present).
       bnd (if_do (inlined \<noteq> 0) (vlog (m inlined))) (\<lambda>_.
       if want = [] then log (n present) else land_pack_by_range repo pd want s present)))" for index m n repo pd
  proof (rule tr_bnd [OF tr_missing [OF T]])
    fix x :: "want list \<times> int \<times> int"
    obtain want inlined present where x: "x = (want, inlined, present)" by (cases x)
    show "triple e (case x of (want, _) \<Rightarrow> \<lambda>f. ?I f \<and> (\<forall>(_, _, d) \<in> set want. is_digest d)) ?I
       (case x of (want, inlined, present) \<Rightarrow> bnd (if_do (inlined \<noteq> 0) (vlog (m inlined))) (\<lambda>_.
       if want = [] then log (n present) else land_pack_by_range repo pd want s present)) (\<lambda>_. ?I)"
      unfolding x prod.case by (rule tr_pure) (intro tr_rules land, assumption)
  qed
  show ?thesis unfolding land_from_pack_def
    by (intro keeps_bnd keeps_steps keeps_reading keeps_fetch_index [OF E] rest) (auto intro!: tr_rules)
qed

section \<open>The local tree\<close>

definition plain_tree :: "path \<Rightarrow> fs \<Rightarrow> bool" where
  "plain_tree src f \<longleftrightarrow> (\<forall>cs. cs \<noteq> [] \<longrightarrow> lookup f (src @ cs) \<noteq> None \<longrightarrow> store_names cs)"

lemma land_from_dir_spec:
  assumes L: "landing_env vd e s" and f: "store_ok vd s f" "plain_tree src f"
  shows "triple e ((=) f) (store_inv vd s f) (land_from_dir src s)
    (\<lambda>_ g. store_inv vd s f g \<and> in_store s (tree_dest src s ` set (walk_files f src)) g)"
proof -
  have ok: "\<forall>fp \<in> set (walk_files f src). tree_ok e vd s src fp"
  proof
    fix fp assume "fp \<in> set (walk_files f src)"
    then have fp: "strict_prefix src fp" "lookup f fp \<noteq> None"
      using f(1) by (auto simp: walk_files_def wf_below store_ok_def)
    then obtain cs where "fp = src @ cs" "cs \<noteq> []" by (metis strict_prefixE' list.discI)
    then show "tree_ok e vd s src fp" using fp(2) f(2) L by (auto simp: tree_ok_def plain_tree_def)
  qed
  have land: "triple e (store_inv vd s f) (store_inv vd s f) (for_acc (land_file src s) (walk_files f src) 0)
      (\<lambda>_ g. store_inv vd s f g \<and> in_store s (tree_dest src s ` set (walk_files f src)) g)"
    by (rule tr_conseq [OF tree.lands_all [OF ok]]) (auto simp: in_store_def)
  have "triple e ((=) f) (store_inv vd s f) (bnd (for_acc (land_file src s) (walk_files f src) 0) (\<lambda>count.
      vlog (m count))) (\<lambda>_ g. store_inv vd s f g \<and> in_store s (tree_dest src s ` set (walk_files f src)) g)" for m
    by (rule tr_bnd [OF tr_pre [OF land]]) (use f(1) store_inv_refl in \<open>auto intro: tr_vlog\<close>)
  then show ?thesis unfolding land_from_dir_def
    by (intro tr_gets_bnd) (auto simp: triple_def)
qed

text \<open>Whatever the registry does, a ranged landing that returns has landed what it was asked for.\<close>

lemma land_pack_lands:
  assumes "pack_env vd e s" "store_ok vd s f" "\<forall>(offs, len, d) \<in> set want. is_digest d"
  shows "case outcome (land_pack_by_range repo pack want s present) e f of
     Inl _ \<Rightarrow> store_ok vd s (disk_after (land_pack_by_range repo pack want s present) e f)
   | Inr _ \<Rightarrow> store_ok vd s (disk_after (land_pack_by_range repo pack want s present) e f) \<and>
       in_store s (slice_dest s ` set want) (disk_after (land_pack_by_range repo pack want s present) e f)"
  using xtriple_outcome [OF land_pack_spec [OF assms(1,3), where repo = repo and pd = pack and present = present] store_inv_refl [OF assms(2)]]
  by (auto simp: store_inv_def split: sum.splits)

end
