(* ===== verification/Holder.thy ===== *)
theory Holder
  imports Landing
begin

text \<open>
  The holder of a deployment: \<open>link_holder\<close> gives every referenced object the store has a
  second name below the holder, and touches nothing else. From then on the sweep does not take
  these objects for orphans.
\<close>

section \<open>What a holder is to contain\<close>

text \<open>Below the holder, the objects of \<open>R\<close> the store has, each under its own names, and the
  directories on the way to them.\<close>

definition holder_node :: "fs \<Rightarrow> path \<Rightarrow> path set \<Rightarrow> path \<Rightarrow> node option" where
  "holder_node f s R x = (if x \<in> R \<and> is_file f (s @ x) then lookup f (s @ x)
     else if \<exists>b. x @ [b] \<in> R \<and> is_file f (s @ x @ [b]) then Some Dir else None)"

definition holds :: "fs \<Rightarrow> path \<Rightarrow> path \<Rightarrow> path set \<Rightarrow> fs \<Rightarrow> bool" where
  "holds f s h R g \<longleftrightarrow> inodes g = inodes f \<and> next_ino g = next_ino f \<and>
     (\<forall>q. lookup g q = (if q = h then Some Dir else if strict_prefix h q then holder_node f s R (drop (length h) q)
                        else lookup f q))"

text \<open>The disk next to the holder.\<close>

definition beside :: "path \<Rightarrow> fs \<Rightarrow> fs \<Rightarrow> bool" where
  "beside h f g \<longleftrightarrow> inodes g = inodes f \<and> (\<forall>q. \<not> prefix h q \<longrightarrow> lookup g q = lookup f q)"

definition holder_ready :: "path \<Rightarrow> path \<Rightarrow> fs \<Rightarrow> bool" where
  "holder_ready s h f \<longleftrightarrow> wf_fs f \<and> h \<noteq> [] \<and> \<not> prefix s h \<and> \<not> prefix h s \<and> lookup f h = None \<and>
     lookup f (butlast h) = Some Dir \<and> (\<forall>p. strict_prefix s p \<longrightarrow> \<not> is_symlink f p)"

lemma store_beside: "holder_ready s h f \<Longrightarrow> \<not> prefix h (s @ x)"
  using prefix_same_cases [of h "s @ x" s] by (auto simp: holder_ready_def)

lemma holds_below: "holds f s h R g \<Longrightarrow> x \<noteq> [] \<Longrightarrow> lookup g (h @ x) = holder_node f s R x"
  by (simp add: holds_def strict_prefix_def)

lemma holds_store:
  assumes "holder_ready s h f" "holds f s h R g"
  shows "lookup g (s @ x) = lookup f (s @ x)"
  using assms(2) store_beside [OF assms(1), of x] by (auto simp: holds_def strict_prefix_def)

lemma holds_beside: "holds f s h R g \<Longrightarrow> beside h f g"
  by (auto simp: holds_def beside_def strict_prefix_def)

lemma ready_file:
  assumes "holder_ready s h f" "x \<noteq> []" "is_file f (s @ x)"
  obtains i where "lookup f (s @ x) = Some (File i)"
proof -
  have "\<not> is_symlink f (s @ x)" using assms(1,2) by (simp add: holder_ready_def strict_prefix_def)
  then show thesis using assms(3) that by (auto simp: is_file_def stat_no_link split: option.splits node.splits)
qed

lemma same_file: "lookup g p = lookup f p \<Longrightarrow> \<not> is_symlink f p \<Longrightarrow> is_file g p = is_file f p"
  by (simp add: is_file_def stat_no_link is_symlink_def)

section \<open>Linking\<close>

lemma mkdirs_one:
  assumes "lookup g (butlast p) = Some Dir" "p \<noteq> []" "lookup g p \<in> {None, Some Dir}"
    and "lookup g p = None \<Longrightarrow> C (set_entry p Dir g)"
  shows "tot e ((=) g) C (mkdirs p) (\<lambda>_. (=) (if lookup g p = None then set_entry p Dir g else g))"
proof (cases "lookup g p")
  case None
  have "p = rev (rev p)" by simp
  moreover obtain c r where cr: "rev p = c # r" using assms(2) by (cases "rev p") auto
  ultimately have p: "p = rev r @ [c]" by (metis rev.simps(2))
  have "mkdir1 p g = Inr (set_entry p Dir g)" using None assms(1) by (simp add: mkdir1_def parent_err_def)
  then show ?thesis using None assms(4) p
    by (auto simp: triple_def mkdirs_def Let_def os_mkdir_def run_simps intro: exI [of _ "[set_entry p Dir g]"])
next
  case (Some n)
  then show ?thesis using assms(3) tot_mkdirs_existing [of "(=) g" p e C] by simp
qed

text \<open>One object, of the names \<open>a\<close> and \<open>b\<close>: what its link adds to the holder.\<close>

lemma holder_node_pair:
  assumes R: "\<forall>x \<in> R. length x = 2" and o: "lookup f (s @ [a, b]) = Some (File i)" "is_file f (s @ [a, b])"
  shows "holder_node f s R [a] \<in> {None, Some Dir}"
    and "holder_node f s R [a, b] = (if [a, b] \<in> R then Some (File i) else None)"
    and "[a, b] \<in> R \<Longrightarrow> holder_node f s R [a] = Some Dir"
    and "holder_node f s (insert [a, b] R) y = (if y = [a, b] then Some (File i) else if y = [a] then Some Dir else holder_node f s R y)"
proof -
  have two: "[y] \<notin> R" "y # z # w @ [c] \<notin> R" for y z w c using R by fastforce+
  show "holder_node f s R [a] \<in> {None, Some Dir}" "[a, b] \<in> R \<Longrightarrow> holder_node f s R [a] = Some Dir"
    "holder_node f s R [a, b] = (if [a, b] \<in> R then Some (File i) else None)"
    using o two(1) two(2) [of a b "[]"] by (auto simp: holder_node_def)
  consider "y = [a, b]" | "y = [a]" | "y \<noteq> [a, b]" "y \<noteq> [a]" by blast
  then show "holder_node f s (insert [a, b] R) y = (if y = [a, b] then Some (File i) else if y = [a] then Some Dir else holder_node f s R y)"
    by cases (use o two(1) in \<open>auto simp: holder_node_def\<close>)
qed

lemma holds_insert:
  assumes R: "\<forall>x \<in> R. length x = 2" and o: "lookup f (s @ [a, b]) = Some (File i)" "is_file f (s @ [a, b])"
    and g: "holds f s h R g" and g2: "lookup g2 = (lookup g)(h @ [a] \<mapsto> Dir, h @ [a, b] \<mapsto> File i)"
      "inodes g2 = inodes g" "next_ino g2 = next_ino g"
  shows "holds f s h (insert [a, b] R) g2"
proof -
  have below: "lookup g2 (h @ y) = holder_node f s (insert [a, b] R) y" if "y \<noteq> []" for y
    using g2(1) holds_below [OF g that] holder_node_pair(4) [OF R o] by simp
  have "lookup g2 q = (if q = h then Some Dir else if strict_prefix h q then holder_node f s (insert [a, b] R) (drop (length h) q)
      else lookup f q)" for q
  proof (cases "strict_prefix h q")
    case True
    then obtain y where "q = h @ y" "y \<noteq> []" by (auto simp: strict_prefix_def prefix_def)
    then show ?thesis using below [of y] by (simp add: strict_prefix_def)
  next
    case False
    then have "lookup g2 q = lookup g q" using g2(1) by (auto simp: strict_prefix_def)
    then show ?thesis using g False by (simp add: holds_def)
  qed
  then show ?thesis using g g2(2,3) unfolding holds_def by simp
qed

lemma link_new:
  assumes R: "\<forall>x \<in> R. length x = 2" and o: "lookup f (s @ [a, b]) = Some (File i)" "is_file f (s @ [a, b])"
    and g: "holds f s h R g" and g1: "g1 = (if lookup g (h @ [a]) = None then set_entry (h @ [a]) Dir g else g)"
    and src: "lookup g1 (s @ [a, b]) = Some (File i)"
  shows "tot e ((=) g1) (beside h f) (try_except (bnd (os_link (s @ [a, b]) (h @ [a, b])) (\<lambda>_. ret (k + 1)))
        (\<lambda>y. if y = OSErr EEXIST (h @ [a, b]) then ret k else raise y)) (\<lambda>_. holds f s h (insert [a, b] R))"
proof -
  note hn = holder_node_pair [OF R o]
  have lp: "lookup g (h @ [a]) \<in> {None, Some Dir}" using holds_below [OF g, of "[a]"] hn(1) by simp
  then have l1: "lookup g1 = (lookup g)(h @ [a] \<mapsto> Dir)" by (auto simp: g1 fs_simps fun_eq_iff)
  have dst: "lookup g1 (h @ [a, b]) = (if [a, b] \<in> R then Some (File i) else None)"
    using l1 holds_below [OF g, of "[a, b]"] hn(2) by simp
  show ?thesis
  proof (cases "[a, b] \<in> R")
    case True
    then have "g1 = g" using holds_below [OF g, of "[a]"] hn(3) by (simp add: g1)
    then have "holds f s h (insert [a, b] R) g1" using g True by (simp add: insert_absorb)
    moreover have "link1 (s @ [a, b]) (h @ [a, b]) g1 = Inl (OSErr EEXIST (h @ [a, b]))"
      unfolding link1_def using src dst True by simp
    ultimately show ?thesis by (auto simp: triple_def os_link_def run_simps)
  next
    case False
    let ?g2 = "set_entry (h @ [a, b]) (File i) g1"
    have lk: "link1 (s @ [a, b]) (h @ [a, b]) g1 = Inr ?g2"
      unfolding link1_def using src dst False l1 by (simp add: parent_err_def butlast_append)
    have "holds f s h (insert [a, b] R) ?g2"
      by (rule holds_insert [OF R o g]) (use lp in \<open>auto simp: g1 fs_simps fun_eq_iff\<close>)
    then show ?thesis using lk holds_beside
      by (auto simp: triple_def os_link_def run_simps intro!: exI [of _ "[?g2]"])
  qed
qed

lemma link_one_spec:
  assumes r: "holder_ready s h f" and R: "\<forall>x \<in> R. length x = 2" and d: "is_digest d"
  shows "tot e (holds f s h R) (beside h f) (link_one s h (rel_for_digest d) st) (\<lambda>_. holds f s h (insert (object_path d) R))"
proof (rule tr_exact)
  fix g assume g: "holds f s h R g"
  let ?a = "take 2 d" and ?b = "drop 2 d"
  let ?R = "insert [?a, ?b] R" and ?p = "h @ [?a]"
  have x: "object_path d = [?a, ?b]" by (simp add: object_path_def)
  have pj: "pjoin p (rel_for_digest d) = p @ [?a, ?b]" for p by (rule digest_names(3) [OF d])
  have sg: "lookup g (s @ y) = lookup f (s @ y)" for y by (rule holds_store [OF r g])
  have "\<not> is_symlink f (s @ [?a, ?b])" using r by (simp add: holder_ready_def strict_prefix_def)
  then have isf: "is_file g (s @ [?a, ?b]) = is_file f (s @ [?a, ?b])" by (rule same_file [OF sg])
  obtain k prog where st: "st = (k, prog)" by fastforce
  have prog: "tot e (holds f s h ?R) (beside h f) (bnd (progress_update 0 prog) (\<lambda>pr. ret (l, pr))) (\<lambda>_. holds f s h ?R)" for l :: int
    by (rule tr_bnd [OF tr_progress(1) [where Q = "\<lambda>_. holds f s h ?R"]]) (auto intro: tr_ret)
  show "tot e ((=) g) (beside h f) (link_one s h (rel_for_digest d) st) (\<lambda>_. holds f s h (insert (object_path d) R))"
  proof (cases "is_file f (s @ [?a, ?b])")
    case False
    then have "holder_node f s ?R y = holder_node f s R y" for y by (auto simp: holder_node_def)
    then have "holds f s h ?R g" using g by (simp add: holds_def)
    then show ?thesis unfolding link_one_def st prod.case pj Let_def x
      by (intro tr_gets_exact) (simp add: isf False tr_ret)
  next
    case True
    obtain i where i: "lookup f (s @ [?a, ?b]) = Some (File i)" by (rule ready_file [OF r _ True]) simp
    define g1 where "g1 = (if lookup g ?p = None then set_entry ?p Dir g else g)"
    have lp: "lookup g ?p \<in> {None, Some Dir}"
      using holds_below [OF g, of "[?a]"] holder_node_pair(1) [OF R i True] by simp
    have mk: "tot e ((=) g) (beside h f) (mkdirs ?p) (\<lambda>_. (=) g1)"
      unfolding g1_def by (rule mkdirs_one) (use lp g holds_beside [OF g] in \<open>auto simp: beside_def holds_def fs_simps\<close>)
    have "lookup g1 (s @ [?a, ?b]) = Some (File i)"
      using sg i store_beside [OF r, of "[?a, ?b]"] by (auto simp: g1_def fs_simps)
    note link = link_new [OF R i True g g1_def this]
    note T = tr_bnd [OF mk tr_bnd [OF link prog]]
    show ?thesis unfolding link_one_def st prod.case pj Let_def x
      by (intro tr_gets_exact) (simp add: isf True butlast_append T)
  qed
qed

lemma link_all:
  assumes r: "holder_ready s h f" and R: "\<forall>x \<in> set rels. \<exists>d. is_digest d \<and> x = rel_for_digest d"
  shows "tot e (holds f s h {}) (beside h f) (for_acc (link_one s h) rels st) (\<lambda>_. holds f s h (comps ` set rels))"
proof -
  have two: "\<forall>x \<in> comps ` set ys. length x = 2" if "set ys \<subseteq> set rels" for ys
    using R that by (fastforce simp: rel_for_digest_comps(1))
  have "tot e (holds f s h (comps ` set [])) (beside h f) (for_acc (link_one s h) rels st) (\<lambda>_. holds f s h (comps ` set rels))"
  proof (rule tr_for_acc_inv [where J = "\<lambda>ys _. holds f s h (comps ` set ys)"])
    fix ys x zs st' assume xs: "rels = ys @ x # zs"
    then obtain d where d: "is_digest d" "x = rel_for_digest d" using R by auto
    have "comps ` set (ys @ [x]) = insert (object_path d) (comps ` set ys)"
      using d by (simp add: object_path_def rel_for_digest_comps(1))
    then show "tot e (holds f s h (comps ` set ys)) (beside h f) (link_one s h x st') (\<lambda>_. holds f s h (comps ` set (ys @ [x])))"
      unfolding d(2) by (subst \<open>_ = insert _ _\<close> [unfolded d(2)]) (rule link_one_spec [OF r two d(1)], use xs in auto)
  qed
  then show ?thesis by simp
qed

text \<open>What \<open>composefs-info dump\<close> prints depends on the image only.\<close>

definition dump_tool :: "env \<Rightarrow> path \<Rightarrow> string \<Rightarrow> fs \<Rightarrow> bool" where
  "dump_tool e rc listing f \<longleftrightarrow> has_tool e ''composefs-info'' \<and>
     (\<forall>g. cat g rc = cat f rc \<longrightarrow> tool e [''composefs-info'', ''dump'', path_str rc] g = \<lparr>t_rc = 0, t_out = listing, t_err = [], t_fs = []\<rparr>)"

definition referenced :: "string \<Rightarrow> path set" where
  "referenced listing = object_path ` set (filter is_digest (word_runs (strip (univ_nl listing))))"

lemma link_holder_spec:
  assumes r: "holder_ready s h f" and T: "dump_tool e rc listing f" and o: "\<forall>xs. set (set_order e xs) = set xs"
    and rc: "\<not> prefix h rc"
  shows "tot e ((=) f) (beside h f) (link_holder s h rc) (\<lambda>_. holds f s h (referenced listing))"
proof -
  let ?f1 = "set_entry h Dir f"
  define rels where "rels = set_order e (remdups (map rel_for_digest (find_digests False (strip (univ_nl listing)))))"
  have rs: "set rels = rel_for_digest ` set (filter is_digest (word_runs (strip (univ_nl listing))))"
    by (simp add: rels_def o find_digests_runs)
  have all: "\<forall>x \<in> set rels. \<exists>d. is_digest d \<and> x = rel_for_digest d" by (auto simp: rs)
  have set: "comps ` set rels = referenced listing"
    unfolding rs referenced_def image_image by (rule image_cong) (auto simp: object_path_def rel_for_digest_comps(1))
  have wf: "wf_fs f" and h: "h \<noteq> []" "lookup f h = None" "lookup f (butlast h) = Some Dir" using r by (auto simp: holder_ready_def)
  have l1: "lookup ?f1 q = (if q = h then Some Dir else lookup f q)" for q using h(1) by (simp add: fs_simps)
  have "lookup f q = None" if "strict_prefix h q" for q
    using wf_prefix_dir [OF wf _ that] h(2) by (cases "lookup f q") auto
  then have f1: "holds f s h {} ?f1" by (auto simp: holds_def holder_node_def l1 fs_simps)
  have mk: "tot e ((=) f) (beside h f) (mkdirs h) (\<lambda>_. (=) ?f1)"
    using mkdirs_one [OF h(3,1), of "beside h f" e] h(2) holds_beside [OF f1] by simp
  have c: "cat ?f1 rc = cat f rc" by (rule cat_cong) (use l1 rc in \<open>auto simp: fs_simps\<close>)
  have refs: "tot e ((=) ?f1) (beside h f) (referenced_objects rc) (\<lambda>rs g. rs = rels \<and> ?f1 = g)"
    unfolding triple_def
  proof (intro allI impI)
    fix w :: world assume w: "?f1 = fsys w"
    obtain w' where "referenced_objects rc e w = (Inr rels, w')" "fsys w' = fsys w" "hist w' = hist w"
      using referenced_run [of e rc w] T c by (auto simp: dump_tool_def rels_def w)
    then show "case referenced_objects rc e w of (y, w') \<Rightarrow>
       (\<exists>new. hist w' = new @ hist w \<and> fsys w' = hd (new @ [fsys w]) \<and> (\<forall>g \<in> set new. beside h f g)) \<and>
       (case y of Inl x \<Rightarrow> False | Inr rs \<Rightarrow> rs = rels \<and> ?f1 = fsys w')"
      using w by simp
  qed
  have loop: "tot e (holds f s h {}) (beside h f) (bnd (for_acc (link_one s h) rels (0, prog)) (\<lambda>(linked, prog'). progress_finish prog' (m linked)))
      (\<lambda>_. holds f s h (referenced listing))" for prog m
    by (rule tr_bnd [OF link_all [OF r all, unfolded set]]) (auto intro: tr_status split: prod.split)
  have rest: "tot e (\<lambda>g. rs = rels \<and> ?f1 = g) (beside h f) (bnd (progress_new (int (length rs)) t) (\<lambda>prog.
      bnd (for_acc (link_one s h) rs (0, prog)) (\<lambda>(linked, prog'). progress_finish prog' (m linked)))) (\<lambda>_. holds f s h (referenced listing))" for rs t m
  proof (cases "rs = rels")
    case True
    show ?thesis unfolding True
      by (rule tr_bnd [OF tr_progress(2) [where Q = "\<lambda>_. holds f s h {}"] loop]) (use f1 in auto)
  qed (simp add: triple_def)
  have tool: "tot e ((=) f) (beside h f) (require_tool ''composefs-info'') (\<lambda>_. (=) f)"
    using T by (auto simp: require_tool_def triple_def run_simps dump_tool_def)
  show ?thesis unfolding link_holder_def
    by (rule tr_bnd [OF tool tr_bnd [OF mk tr_bnd [OF refs rest]]])
qed

text \<open>A linked object is no orphan.\<close>

lemma linked_no_orphan:
  assumes r: "holder_ready s h f" and g: "holds f s h R g" "wf_fs g" and x: "x \<in> R" "x \<noteq> []" "is_file f (s @ x)"
  shows "\<not> is_orphan g (s @ x)"
proof
  assume o: "is_orphan g (s @ x)"
  obtain i where i: "lookup f (s @ x) = Some (File i)" by (rule ready_file [OF r x(2,3)])
  have s: "lookup g (s @ x) = Some (File i)" using holds_store [OF r g(1)] i by simp
  have h: "lookup g (h @ x) = Some (File i)" using holds_below [OF g(1) x(2)] x i by (simp add: holder_node_def)
  have n: "nlink g i = 1" using o s by (simp add: is_orphan_def)
  have "(h @ x, File i) \<in> set (entries g)" using h x(2) by (auto simp: lookup_def split: if_splits dest: map_of_SomeD)
  from nlink_unique [OF g(2) s n this] have "prefix s (h @ x)" by (auto simp: prefix_def)
  then show False using prefix_same_cases [of h "h @ x" s] r by (auto simp: holder_ready_def)
qed

end
