(* ===== verification/TreeLanding.thy ===== *)
theory TreeLanding
  imports Holder PromoteSpec
begin

text \<open>
  Landing a local object tree to the end: when every file of the tree has the digest its names
  say, \<open>land_from_dir\<close> returns with all of them in the store, and the disk outside the store is
  as it was, also at every state on the way.
\<close>

section \<open>One new object\<close>

text \<open>Leftover temporary files in the store can be overwritten.\<close>

definition open_temps :: "path \<Rightarrow> fs \<Rightarrow> bool" where
  "open_temps s f \<longleftrightarrow> (\<forall>p i nd. strict_prefix s p \<longrightarrow> dotted (last p) \<longrightarrow> lookup f p = Some (File i) \<longrightarrow>
     inodes f i = Some nd \<longrightarrow> \<not> verity nd)"

text \<open>The disk after the object \<open>[a, n]\<close> has landed: its directory and its file are there, its
  temporary file \<open>t\<close> is gone, and no other name is concerned.\<close>

definition landed :: "path \<Rightarrow> string \<Rightarrow> string \<Rightarrow> string \<Rightarrow> string \<Rightarrow> fs \<Rightarrow> fs \<Rightarrow> bool" where
  "landed s a n t b g h \<longleftrightarrow> (\<exists>i. (\<forall>q. lookup g q = Some (File i) \<longrightarrow> q = s @ [a, t]) \<and>
     lookup h = ((lookup g)(s @ [a] \<mapsto> Dir, s @ [a, n] \<mapsto> File i))(s @ [a, t] := None) \<and>
     inodes h = (inodes g)(i \<mapsto> \<lparr>bytes = b, verity = True\<rparr>))"

lemma cat_other:
  assumes "inodes h = (inodes g)(i := x)" "lookup h q = lookup g q" "lookup g q \<noteq> Some (File i)"
  shows "cat h q = cat g q"
  using assms by (auto simp: cat_def split: option.splits node.splits)

lemma landed_outside:
  assumes "landed s a n t b g h"
  shows "outside s g h"
proof -
  obtain i where i: "\<forall>q. lookup g q = Some (File i) \<longrightarrow> q = s @ [a, t]"
    "lookup h = ((lookup g)(s @ [a] \<mapsto> Dir, s @ [a, n] \<mapsto> File i))(s @ [a, t] := None)"
    "inodes h = (inodes g)(i \<mapsto> \<lparr>bytes = b, verity = True\<rparr>)"
    using assms by (auto simp: landed_def)
  have "lookup h q = lookup g q \<and> lookup g q \<noteq> Some (File i)" if "\<not> prefix s q" for q
  proof -
    have ne: "q \<noteq> s @ x" for x using that by auto
    then have "lookup g q \<noteq> Some (File i)" using i(1) by blast
    then show ?thesis using ne i(2) by simp
  qed
  then show ?thesis using cat_other [OF i(3)] by (auto simp: outside_def)
qed

lemma landed_temps:
  assumes "open_temps s g" "landed s a n t b g h" "\<not> dotted n"
  shows "open_temps s h"
  unfolding open_temps_def
proof (intro allI impI)
  fix p j nd assume p: "strict_prefix s p" "dotted (last p)" "lookup h p = Some (File j)" "inodes h j = Some nd"
  obtain i where i: "\<forall>q. lookup g q = Some (File i) \<longrightarrow> q = s @ [a, t]"
    "lookup h = ((lookup g)(s @ [a] \<mapsto> Dir, s @ [a, n] \<mapsto> File i))(s @ [a, t] := None)"
    "inodes h = (inodes g)(i \<mapsto> \<lparr>bytes = b, verity = True\<rparr>)"
    using assms(2) by (auto simp: landed_def)
  have "p \<noteq> s @ [a, n]" "p \<noteq> s @ [a]" "p \<noteq> s @ [a, t]" using p(2,3) assms(3) i(2) by (auto split: if_splits)
  then have l: "lookup g p = Some (File j)" using p(3) i(2) by simp
  then have "j \<noteq> i" using i(1) \<open>p \<noteq> s @ [a, t]\<close> by blast
  then show "\<not> verity nd" using assms(1) p(1,2,4) l i(3) unfolding open_temps_def by auto
qed

text \<open>Two levels below the store are objects, never directories; and no temporary file is new.\<close>

definition neat :: "path \<Rightarrow> fs \<Rightarrow> fs \<Rightarrow> bool" where
  "neat s f g \<longleftrightarrow> no_temps s f g \<and> (\<forall>a n. lookup g (s @ [a, n]) = Some Dir \<longrightarrow> lookup f (s @ [a, n]) = Some Dir)"

lemma neat_refl [simp]: "neat s f f"
  by (simp add: neat_def)

lemma neat_trans: "neat s f g \<Longrightarrow> neat s g h \<Longrightarrow> neat s f h"
  using no_temps_trans unfolding neat_def by blast

lemma landed_neat: "landed s a n t b g h \<Longrightarrow> \<not> dotted a \<Longrightarrow> \<not> dotted n \<Longrightarrow> neat s g h"
  by (auto simp: landed_def neat_def no_temps_def split: if_splits)

text \<open>The store only grows, and neatly.\<close>

definition grows :: "path \<Rightarrow> fs \<Rightarrow> fs \<Rightarrow> bool" where
  "grows s f g \<longleftrightarrow> neat s f g \<and> store_kept s f g"

lemma grows_trans: "grows s f g \<Longrightarrow> grows s g h \<Longrightarrow> grows s f h"
  using neat_trans store_kept_trans unfolding grows_def by blast

lemma grows_same: "(\<And>q. prefix s q \<Longrightarrow> lookup g q = lookup f q \<and> cat g q = cat f q) \<Longrightarrow> grows s f g"
  by (auto simp: grows_def neat_def no_temps_def store_kept_def stored_def strict_prefix_def)

lemma object_parts:
  assumes "is_digest d"
  shows "\<not> dotted (take 2 d)" "\<not> dotted (drop 2 d)" "plain_name (take 2 d)" "plain_name (drop 2 d)"
    "dotted (dot_tmp (drop 2 d))" "plain_name (dot_tmp (drop 2 d))" "take 2 d @ drop 2 d = d" "length (take 2 d) = 2"
proof -
  show n: "\<not> dotted (take 2 d)" "\<not> dotted (drop 2 d)" "plain_name (take 2 d)" "plain_name (drop 2 d)"
    using digest_names(1) [OF assms] by (auto simp: store_names_def)
  have "CHR ''/'' \<notin> set (drop 2 d)" using n(4) by (simp add: plain_name_def)
  from dot_tmp_name [OF this] show "dotted (dot_tmp (drop 2 d))" "plain_name (dot_tmp (drop 2 d))" by auto
  show "take 2 d @ drop 2 d = d" "length (take 2 d) = 2" using assms by (auto simp: is_digest_def)
qed

text \<open>A name of two letters in the store is a directory or free: as a file it would be too short
  for its digest.\<close>

lemma short_name:
  assumes "store_ok vd s g" "\<And>b. is_digest (vd b)" "length a = 2" "\<not> dotted a"
  shows "lookup g (s @ [a]) \<in> {None, Some Dir}"
proof -
  have sp: "strict_prefix s (s @ [a])" by (simp add: strict_prefix_def)
  have "lookup g (s @ [a]) \<noteq> Some (File i)" for i
  proof
    assume l: "lookup g (s @ [a]) = Some (File i)"
    obtain b where "cat g (s @ [a]) = Some b" using wf_file_cat [OF _ l] assms(1) by (auto simp: store_ok_def)
    then have "vd b = a" using store_okD(2) [OF assms(1), of "s @ [a]" b] sp assms(4) by (simp add: stored_def object_name_def)
    then show False using assms(2) [of b] assms(3) by (simp add: is_digest_def)
  qed
  then show ?thesis using store_no_link [OF assms(1) sp]
    by (cases "lookup g (s @ [a])"; cases "the (lookup g (s @ [a]))") (auto simp: is_symlink_def)
qed

lemma outside_trans: "outside b f g \<Longrightarrow> outside b g h \<Longrightarrow> outside b f h"
  by (simp add: outside_def)

text \<open>The temporary file is the only name of its inode and may be written to.\<close>

lemma tmp_file_of:
  assumes ok: "store_ok vd s g" and p: "strict_prefix s p" "dotted (last p)" and nd: "lookup g p = Some nd"
  obtains i where "lookup g p = Some (File i)"
  using store_okD(1) [OF ok p] store_no_link [OF ok p(1)] nd that by (cases nd) (auto simp: is_symlink_def)

lemma tmp_sole:
  assumes ok: "store_ok vd s g" and p: "strict_prefix s p" "dotted (last p)"
    and g1: "lookup g1 p = lookup g p" "next_ino g1 = next_ino g" and q: "lookup g q = Some (File (ino_for g1 p))"
  shows "q = p"
proof (cases "lookup g p")
  case None
  have "wf_fs g" using ok by (simp add: store_ok_def)
  from wf_file [OF this q] show ?thesis using None g1 by (simp add: ino_for_def)
next
  case (Some nd)
  then obtain i where "lookup g p = Some (File i)" by (rule tmp_file_of [OF ok p])
  then show ?thesis using store_tmp_unique [OF ok p _ q] g1(1) by (simp add: ino_for_def)
qed

lemma tmp_writable:
  assumes ok: "store_ok vd s g" and tmps: "open_temps s g" and t: "dotted t"
    and g1: "lookup g1 = (lookup g)(s @ [a] \<mapsto> Dir)" "inodes g1 = inodes g"
  shows "writable g1 (s @ [a, t])"
proof (cases "lookup g (s @ [a, t])")
  case None
  then show ?thesis using g1(1) by (simp add: writable_def butlast_append)
next
  case (Some nd)
  have p: "strict_prefix s (s @ [a, t])" "dotted (last (s @ [a, t]))" using t by (simp_all add: strict_prefix_def)
  obtain j where j: "lookup g (s @ [a, t]) = Some (File j)" by (rule tmp_file_of [OF ok p Some])
  have "wf_fs g" using ok by (simp add: store_ok_def)
  then obtain nd where "inodes g j = Some nd" using wf_file [OF _ j] by blast
  then show ?thesis using j g1 tmps p unfolding open_temps_def writable_def by auto
qed

lemma outside_ino:
  assumes h: "inodes h = (inodes g)(i := v)" "\<And>q. \<not> prefix s q \<Longrightarrow> lookup h q = lookup g q"
    and i: "\<And>q. lookup g q = Some (File i) \<Longrightarrow> q = s @ x"
  shows "outside s g h"
  unfolding outside_def using h(2) cat_other [OF h(1)] i by (metis prefix_def)

text \<open>The written temporary file is measured, moved and sealed.\<close>

lemma place_written:
  assumes T: "fsverity_tool vd e" "\<not> dry_run e" "plain_path s" and d: "is_digest d" "vd b = d" and t: "dotted t" "plain_name t"
    and rel: "pjoin s rel = s @ object_path d" "no_slash rel = d" and new: "lookup g (s @ object_path d) = None"
    and g2: "lookup g2 = (lookup g)(s @ [take 2 d] \<mapsto> Dir, s @ [take 2 d, t] \<mapsto> File i)" "inodes g2 = (inodes g)(i \<mapsto> \<lparr>bytes = b, verity = False\<rparr>)"
    and sole: "\<And>q. lookup g q = Some (File i) \<Longrightarrow> q = s @ [take 2 d, t]"
  shows "tot e ((=) g2) (outside s g) (place_object (s @ [take 2 d, t]) s rel) (\<lambda>_. landed s (take 2 d) (drop 2 d) t b g)"
proof -
  let ?a = "take 2 d" and ?n = "drop 2 d" and ?C = "outside s g"
  let ?t = "s @ [?a, t]" and ?dest = "s @ [?a, ?n]"
  let ?g3 = "set_entry ?dest (File i) (del_entry ?t g2)"
  note o = object_parts [OF d(1)]
  have x: "object_path d = [?a, ?n]" by (simp add: object_path_def)
  have ne: "?t \<noteq> ?dest" using o t by auto
  have l3: "lookup ?g3 = ((lookup g)(s @ [?a] \<mapsto> Dir, ?dest \<mapsto> File i))(?t := None)"
    using ne g2(1) by (auto simp: fun_eq_iff fs_simps)
  have i3: "inodes ?g3 = inodes g2" by (simp add: fs_simps)
  have there: "lookup g2 ?dest = None" using new g2(1) ne by (simp add: x)
  have fin: "landed s ?a ?n t b g (seal i ?g3)"
  proof -
    have "lookup (seal i ?g3) = lookup ?g3" by (simp add: fun_eq_iff seal_obs)
    moreover have "inodes (seal i ?g3) = (inodes g)(i \<mapsto> \<lparr>bytes = b, verity = True\<rparr>)"
      by (simp add: seal_def g2(2) i3)
    ultimately show ?thesis unfolding landed_def using sole l3 by metis
  qed
  have m: "tot e ((=) g2) ?C (measure_file ?t) (\<lambda>got f. g2 = f \<and> got = vd b)"
    by (rule tr_measure [OF T(1)]) (use T(3) o t g2 in \<open>auto simp: plain_path_def read1_def\<close>)
  have c3: "?C ?g3"
    by (rule outside_ino [OF trans [OF i3 g2(2)] _ sole]) (unfold l3, auto)
  have "replace1 ?t ?dest g2 = Inr ?g3"
    using g2(1) there ne by (simp add: replace1_def parent_err_def butlast_append)
  then have mv: "tot e ((=) g2) ?C (os_replace ?t ?dest) (\<lambda>_. (=) ?g3)"
    unfolding os_replace_def by (intro tr_atomic) (use c3 in auto)
  have en: "tot e ((=) ?g3) ?C (enable_verity ?dest) (\<lambda>_. landed s ?a ?n t b g)"
  proof (rule tr_enable [OF T(1) _ T(2)])
    show "plain_path ?dest" using T(3) o by (simp add: plain_path_def)
    show "tmp_file ?dest b f" if "?g3 = f" for f using l3 i3 g2(2) ne that by (auto simp: tmp_file_def)
    fix f j assume f: "?g3 = f" "lookup f ?dest = Some (File j)"
    then have "j = i" using l3 ne by auto
    then show "?C (seal j f) \<and> landed s ?a ?n t b g (seal j f)" using fin landed_outside [OF fin] f(1) by simp
  qed
  have body: "tot e (\<lambda>f. g2 = f \<and> got = vd b) ?C (bnd (steps
        [if_do (got \<noteq> d) (die t'), mkdirs (butlast ?dest), os_replace ?t ?dest, enable_verity ?dest]) (\<lambda>_. ret True))
        (\<lambda>_. landed s ?a ?n t b g)" for got t'
    unfolding steps.simps bnd_assoc bnd_ret
    by (rule tr_pure, rule tr_bnd [OF tr_if_do tr_bnd [OF tot_mkdirs_existing tr_bnd [OF mv tr_bnd [OF en tr_ret]]]])
      (use d(2) g2(1) ne in \<open>auto simp: butlast_append\<close>)
  show ?thesis unfolding place_object_def Let_def rel x
    by (rule tr_gets_exact) (simp only: there lookup_None_obs if_False, rule tr_bnd [OF m body])
qed

text \<open>Directories, the temporary file by whatever means \<open>m\<close>, then the object in its place.\<close>

lemma land_at:
  assumes L: "landing_env vd e s" and ok: "store_ok vd s g" and dir: "lookup g s = Some Dir" and tmps: "open_temps s g"
    and d: "is_digest d" "vd b = d" and t: "dotted t" "plain_name t" and rel: "pjoin s rel = s @ object_path d" "no_slash rel = d"
    and new: "lookup g (s @ object_path d) = None"
    and wr: "\<And>g1. writable g1 (s @ [take 2 d, t]) \<Longrightarrow> lookup g1 = (lookup g)(s @ [take 2 d] \<mapsto> Dir) \<Longrightarrow> inodes g1 = inodes g \<Longrightarrow>
      tot e ((=) g1) (\<lambda>h. \<exists>c. written g1 (s @ [take 2 d, t]) c h) m (\<lambda>_. written g1 (s @ [take 2 d, t]) b)"
  shows "tot e ((=) g) (outside s g)
    (bnd (mkdirs (butlast (s @ object_path d))) (\<lambda>_. bnd m (\<lambda>_. bnd (place_object (s @ [take 2 d, t]) s rel) (\<lambda>r. ret (k r)))))
    (\<lambda>_. landed s (take 2 d) (drop 2 d) t b g)"
proof -
  let ?a = "take 2 d" and ?n = "drop 2 d" and ?C = "outside s g"
  let ?p = "s @ [?a]" and ?t = "s @ [?a, t]"
  note o = object_parts [OF d(1)]
  have T: "fsverity_tool vd e" "\<not> dry_run e" "plain_path s" using L by (auto simp: landing_env_def)
  have sp: "strict_prefix s ?t" "dotted (last ?t)" using t by (auto simp: strict_prefix_def)
  define g1 where "g1 = (if lookup g ?p = None then set_entry ?p Dir g else g)"
  define i where "i = ino_for g1 ?t"
  have sn: "lookup g ?p \<in> {None, Some Dir}"
    by (rule short_name [OF ok _ o(8,1)]) (use T(1) in \<open>simp add: fsverity_tool_def\<close>)
  then have l1: "lookup g1 = (lookup g)(?p \<mapsto> Dir)" by (auto simp: g1_def fs_simps)
  have n1: "inodes g1 = inodes g" "next_ino g1 = next_ino g" by (simp_all add: g1_def fs_simps)
  have sole: "q = ?t" if "lookup g q = Some (File i)" for q
    by (rule tmp_sole [OF ok sp _ n1(2) that [unfolded i_def]]) (simp add: l1)
  have c1: "?C g1"
    unfolding outside_def using l1 n1 cat_cong [of g1 _ g] by (auto simp del: fun_upd_apply) (auto simp: prefix_def)
  have mk: "tot e ((=) g) ?C (mkdirs ?p) (\<lambda>_. (=) g1)"
    unfolding g1_def by (rule mkdirs_one) (use sn dir c1 in \<open>auto simp: g1_def\<close>)
  have wr': "tot e ((=) g1) ?C m (\<lambda>_. written g1 ?t b)"
  proof (rule tr_total [OF wr [OF tmp_writable [OF ok tmps t(1) l1 n1(1)] l1 n1(1)]])
    have "?C h" if "written g1 ?t c h" for c h
      by (rule outside_ino [OF _ _ sole]) (use that l1 n1 in \<open>auto simp: written_def i_def\<close>)
    then show "?C h" if "\<exists>c. written g1 ?t c h" for h using that by blast
  qed auto
  have place: "tot e (written g1 ?t b) ?C (place_object ?t s rel) (\<lambda>_. landed s ?a ?n t b g)"
  proof (rule tr_exact)
    fix g2 assume "written g1 ?t b g2"
    then have "lookup g2 = (lookup g)(?p \<mapsto> Dir, ?t \<mapsto> File i)" "inodes g2 = (inodes g)(i \<mapsto> \<lparr>bytes = b, verity = False\<rparr>)"
      using l1 n1 by (simp_all add: written_def i_def)
    from place_written [OF T d t rel new this sole]
    show "tot e ((=) g2) ?C (place_object ?t s rel) (\<lambda>_. landed s ?a ?n t b g)" .
  qed
  have dd: "butlast (s @ object_path d) = ?p" by (simp add: object_path_def butlast_append)
  show ?thesis unfolding dd
    by (rule tr_bnd [OF mk tr_bnd [OF wr' tr_bnd [OF place tr_ret]]])
qed

text \<open>The temporary file by one call that writes it.\<close>

lemma write_step:
  assumes w: "writable g t" and op: "op g = write1 t b g"
  shows "tot e ((=) g) (\<lambda>h. \<exists>c. written g t c h) (syscall op) (\<lambda>_. written g t b)"
proof (rule tr_syscall)
  fix f h y assume f: "g = f"
  show "h \<in> set (snd (op f)) \<Longrightarrow> \<exists>c. written g t c h"
    unfolding f [symmetric] op using writable_write1(2) [OF w] by blast
  show "fst (op f) = Inl z \<Longrightarrow> False" for z
    unfolding f [symmetric] op using writable_write1(1) [OF w, of b] by simp
  show "written g t b (last (f # snd (op f)))"
    unfolding f [symmetric] op by (rule writable_write1(3) [OF w])
qed

section \<open>Total landing\<close>

definition sound_store :: "(string \<Rightarrow> string) \<Rightarrow> path \<Rightarrow> fs \<Rightarrow> bool" where
  "sound_store vd s f \<longleftrightarrow> store_ok vd s f \<and> lookup f s = Some Dir \<and> open_temps s f"

lemma landed_dir: "landed s a n t b g h \<Longrightarrow> lookup h s = lookup g s"
  by (auto simp: landed_def)

lemma landed_all:
  "landed s a n t b g h \<Longrightarrow> open_temps s g \<Longrightarrow> \<not> dotted a \<Longrightarrow> \<not> dotted n \<Longrightarrow> lookup g s = Some Dir \<Longrightarrow>
   outside s g h \<and> lookup h s = Some Dir \<and> open_temps s h \<and> neat s g h"
  using landed_outside landed_dir landed_temps landed_neat by metis

text \<open>A strategy whose steps return, for items that are \<open>due\<close>, and touch only the store.\<close>

locale total_landing = landing +
  fixes due :: "'a \<Rightarrow> fs \<Rightarrow> bool"
  assumes due_ok: "due x g \<Longrightarrow> ok x"
    and due_outside: "due x g \<Longrightarrow> outside s g h \<Longrightarrow> due x h"
    and steps: "due x g \<Longrightarrow> sound_store vd s g \<Longrightarrow> tot e ((=) g) (outside s g) (step x b)
      (\<lambda>_ h. outside s g h \<and> lookup h s = Some Dir \<and> open_temps s h \<and> neat s g h)"
begin

lemma one_lands:
  assumes x: "due x g" and g: "sound_store vd s g" "store_inv vd s f g" "outside s f g"
  shows "tot e ((=) g) (\<lambda>h. store_inv vd s f h \<and> outside s f h) (step x b)
    (\<lambda>_ h. sound_store vd s h \<and> store_inv vd s f h \<and> outside s f h \<and> neat s g h \<and> store_kept s g h \<and> (\<forall>p \<in> dests x. lookup h p \<noteq> None))"
proof -
  have ok: "store_ok vd s g" using g(1) by (simp add: sound_store_def)
  note inv = lands [OF due_ok [OF x]]
  note T = tr_conj [OF steps [OF x g(1)] tr_conj [OF inv [of f] inv [of g]]]
  show ?thesis
    by (rule tr_conseq_x [OF T])
      (use g(2) store_inv_refl [OF ok] outside_trans [OF g(3)] in \<open>auto simp: sound_store_def store_inv_def\<close>)
qed

lemma all_land:
  assumes f: "sound_store vd s f" and xs: "\<forall>x \<in> set xs. due x f"
  shows "tot e ((=) f) (\<lambda>h. store_inv vd s f h \<and> outside s f h) (for_acc step xs b)
    (\<lambda>_ h. sound_store vd s h \<and> store_inv vd s f h \<and> outside s f h \<and> grows s f h \<and> in_store s (\<Union> (dests ` set xs)) h)"
proof -
  let ?C = "\<lambda>h. store_inv vd s f h \<and> outside s f h"
  let ?J = "\<lambda>ys (_::'b) h. sound_store vd s h \<and> ?C h \<and> neat s f h \<and> in_store s (\<Union> (dests ` set ys)) h"
  have start: "?J [] b f" using f store_inv_refl by (auto simp: sound_store_def in_store_def)
  have loop: "tot e (?J [] b) ?C (for_acc step xs b) (?J xs)"
  proof (rule tr_for_acc_inv, rule tr_exact)
    fix ys x zs k g assume w: "xs = ys @ x # zs" and g: "?J ys k g"
    then have gg: "sound_store vd s g" "store_inv vd s f g" "outside s f g" "neat s f g" "in_store s (\<Union> (dests ` set ys)) g" by auto
    have "due x f" using xs w by simp
    then have x: "due x g" using gg(3) by (rule due_outside)
    have st: "\<forall>p \<in> dests x. stored s p" using dests_stored [OF due_ok [OF x]] by blast
    show "tot e ((=) g) ?C (step x k) (?J (ys @ [x]))"
    proof (rule tr_conseq_x [OF one_lands [OF x gg(1,2,3)]])
      fix k' h
      assume h: "sound_store vd s h \<and> store_inv vd s f h \<and> outside s f h \<and> neat s g h \<and> store_kept s g h \<and> (\<forall>p \<in> dests x. lookup h p \<noteq> None)"
      have "in_store s (\<Union> (dests ` set ys)) h" by (rule in_store_kept [OF _ gg(5)]) (use h in blast)
      then have "in_store s (\<Union> (dests ` set (ys @ [x]))) h" using h st by (auto simp: in_store_def)
      moreover have "neat s f h" using neat_trans [OF gg(4)] h by blast
      ultimately show "?J (ys @ [x]) k' h" using h by blast
    qed auto
  qed
  show ?thesis
    by (rule tr_conseq_x [OF loop]) (use start in \<open>auto simp: grows_def store_inv_def\<close>)
qed

end

section \<open>The whole tree\<close>

text \<open>A tree of objects, each under the names of its digest.\<close>

definition object_at :: "(string \<Rightarrow> string) \<Rightarrow> path \<Rightarrow> path \<Rightarrow> path \<Rightarrow> fs \<Rightarrow> bool" where
  "object_at vd s src fp f \<longleftrightarrow> (\<exists>d b. is_digest d \<and> fp = src @ object_path d \<and> cat f fp = Some b \<and> vd b = d \<and> \<not> prefix s fp)"

definition object_tree :: "(string \<Rightarrow> string) \<Rightarrow> path \<Rightarrow> path \<Rightarrow> fs \<Rightarrow> bool" where
  "object_tree vd s src f \<longleftrightarrow> (\<forall>p. strict_prefix src p \<longrightarrow> \<not> is_symlink f p) \<and> (\<forall>fp \<in> set (walk_files f src). object_at vd s src fp f)"

lemma copy_step:
  assumes g: "store_ok vd s g" and p: "cat g fp = Some b" "\<not> prefix s fp" and t: "strict_prefix s T" "dotted (last T)" "s @ [a] \<noteq> T"
    and w: "writable g1 T" "lookup g1 = (lookup g)(s @ [a] \<mapsto> Dir)" "inodes g1 = inodes g"
  shows "tot e ((=) g1) (\<lambda>h. \<exists>c. written g1 T c h) (copy2 fp T) (\<lambda>_. written g1 T b)"
proof -
  have fpo: "lookup g1 fp = lookup g fp" "fp \<noteq> T" using w(2) p(2) t(1) by (auto simp: strict_prefix_def)
  have cp: "copy1 fp T g1 = write1 T b g1"
  proof (rule copy1_plain [OF w(1) _ fpo(2)])
    show "cat g1 fp = Some b" using p(1) cat_cong [OF fpo(1) w(3)] by simp
    show "lookup g1 fp \<noteq> Some (File j)" if "lookup g1 T = Some (File j)" for j
      using that store_tmp_unique [OF g t(1,2), of j fp] w(2) t(3) fpo by auto
  qed
  show ?thesis unfolding copy2_def by (rule write_step [where op = "copy1 fp T", OF w(1) cp])
qed

interpretation trees: total_landing e vd s "land_file src s" "\<lambda>fp. {tree_dest src s fp}" "tree_ok e vd s src"
    "\<lambda>fp f. landing_env vd e s \<and> object_at vd s src fp f" for e vd s src
proof unfold_locales
  fix fp g h and k :: int
  assume F: "landing_env vd e s \<and> object_at vd s src fp g"
  then obtain d b where L: "landing_env vd e s" and d: "is_digest d" "fp = src @ object_path d" "cat g fp = Some b" "vd b = d" "\<not> prefix s fp"
    by (auto simp: object_at_def)
  show "tree_ok e vd s src fp"
    using L d(1,2) digest_names(1) by (auto simp: tree_ok_def object_path_def)
  show "outside s g h \<Longrightarrow> landing_env vd e s \<and> object_at vd s src fp h"
    using L d unfolding object_at_def outside_def by metis
  assume g: "sound_store vd s g"
  then have ok: "store_ok vd s g" and dir: "lookup g s = Some Dir" and tmps: "open_temps s g" by (auto simp: sound_store_def)
  note o = object_parts [OF d(1)]
  have dry: "\<not> dry_run e" using L by (simp add: landing_env_def)
  have x: "object_path d = [take 2 d, drop 2 d]" "last fp = drop 2 d" "list_all plain_name (object_path d)" "object_path d \<noteq> []"
    using o by (simp_all add: object_path_def d(2))
  have rel: "pjoin s (rel_str src fp) = s @ object_path d" "no_slash (rel_str src fp) = d"
    using comps_join [OF x(3)] join_relative [OF x(3,4)] no_slash_join [OF x(3)] o(7) by (simp_all add: rel_str_def d(2) pjoin_def x(1))
  have tp: "pjoin (butlast (s @ object_path d)) (dot_tmp (last fp)) = s @ [take 2 d, dot_tmp (drop 2 d)]"
    using o by (simp add: x butlast_append)
  show "tot e ((=) g) (outside s g) (land_file src s fp k) (\<lambda>_ h. outside s g h \<and> lookup h s = Some Dir \<and> open_temps s h \<and> neat s g h)"
  proof (cases "lookup g (s @ object_path d)")
    case None
    have wr: "tot e ((=) g1) (\<lambda>h. \<exists>c. written g1 (s @ [take 2 d, dot_tmp (drop 2 d)]) c h) (copy2 fp (s @ [take 2 d, dot_tmp (drop 2 d)]))
        (\<lambda>_. written g1 (s @ [take 2 d, dot_tmp (drop 2 d)]) b)"
      if "writable g1 (s @ [take 2 d, dot_tmp (drop 2 d)])" "lookup g1 = (lookup g)(s @ [take 2 d] \<mapsto> Dir)" "inodes g1 = inodes g" for g1
      by (rule copy_step [OF ok d(3,5) _ _ _ that]) (use o in \<open>auto simp: strict_prefix_def\<close>)
    show ?thesis unfolding land_file_def Let_def rel(1) tp
      by (rule tr_gets_exact, simp only: None lookup_None_obs if_False, rule tr_asks_bnd, simp only: dry if_False)
        (rule tr_total [OF land_at [OF L ok dir tmps d(1,4) o(5,6) rel None wr]], use landed_all [OF _ tmps o(1,2) dir] in auto)
  next
    case (Some n)
    have "\<not> is_symlink g (s @ object_path d)" using store_no_link [OF ok] x(4) by (simp add: strict_prefix_def)
    then have "path_exists g (s @ object_path d)" using Some by (simp add: path_exists_def stat_no_link)
    then show ?thesis unfolding land_file_def Let_def rel
      by (intro tr_gets_exact) (use dir tmps in \<open>auto intro!: tr_ret\<close>)
  qed
qed

lemma land_tree:
  assumes L: "landing_env vd e s" and f: "sound_store vd s f" "object_tree vd s src f"
  shows "tot e ((=) f) (\<lambda>h. store_inv vd s f h \<and> outside s f h) (land_from_dir src s)
    (\<lambda>_ h. sound_store vd s h \<and> store_inv vd s f h \<and> outside s f h \<and> grows s f h \<and>
       in_store s (tree_dest src s ` set (walk_files f src)) h)"
proof -
  have due: "\<forall>fp \<in> set (walk_files f src). landing_env vd e s \<and> object_at vd s src fp f"
    using L f(2) unfolding object_tree_def by blast
  have U: "\<Union> ((\<lambda>fp. {tree_dest src s fp}) ` A) = tree_dest src s ` A" for A by auto
  show ?thesis unfolding land_from_dir_def
    by (rule tr_gets_exact, rule tr_bnd [OF trees.all_land [OF f(1) due, unfolded U] tr_vlog])
qed

end
