(* ===== verification/NewFiles.thy ===== *)
theory NewFiles
  imports TreeLanding
begin

text \<open>
  New files outside the object store, and the store under changes elsewhere: what the steps that
  build a deployment or fetch a pack have in common.
\<close>

section \<open>New files\<close>

definition added :: "path \<Rightarrow> string \<Rightarrow> bool \<Rightarrow> fs \<Rightarrow> fs \<Rightarrow> bool" where
  "added p b v g h \<longleftrightarrow> lookup h = (lookup g)(p \<mapsto> File (next_ino g)) \<and>
     inodes h = (inodes g)(next_ino g \<mapsto> \<lparr>bytes = b, verity = v\<rparr>) \<and> wf_fs h"

definition free_place :: "path \<Rightarrow> fs \<Rightarrow> bool" where
  "free_place p g \<longleftrightarrow> wf_fs g \<and> lookup g p = None \<and> lookup g (butlast p) = Some Dir"

lemma added_same: "free_place p g \<Longrightarrow> added p b v g h \<Longrightarrow> same_but {p} g h"
  unfolding same_but_def
proof (intro allI impI)
  fix q assume p: "free_place p g" "added p b v g h" "q \<notin> {p}"
  then have "lookup g q \<noteq> Some (File (next_ino g))" using wf_file [of g q "next_ino g"] by (auto simp: free_place_def)
  then show "lookup h q = lookup g q \<and> cat h q = cat g q"
    using p cat_other [of h g "next_ino g" _ q] by (simp add: added_def)
qed

lemma added_cat: "added p b v g h \<Longrightarrow> cat h p = Some b"
  by (simp add: added_def cat_def)

lemma written_new: "free_place p g \<Longrightarrow> written g p b h \<Longrightarrow> wf_fs h \<Longrightarrow> added p b False g h"
  by (simp add: written_def added_def free_place_def ino_for_def)

lemma write1_new:
  assumes p: "free_place p g"
  shows "fst (write1 p b g) = Inr ()" "h \<in> set (snd (write1 p b g)) \<Longrightarrow> same_but {p} g h"
    "added p b False g (last (g # snd (write1 p b g)))"
proof -
  have wf: "wf_fs g" and w: "writable g p" using p by (auto simp: free_place_def writable_def)
  show "fst (write1 p b g) = Inr ()" by (rule writable_write1(1) [OF w])
  show "same_but {p} g h" if h: "h \<in> set (snd (write1 p b g))"
  proof -
    obtain k where "written g p (take k b) h" using writable_write1(2) [OF w h] by blast
    from added_same [OF p written_new [OF p this wf_write1 [OF wf h]]] show ?thesis .
  qed
  have "wf_fs (last (g # snd (write1 p b g)))"
    using wf_write1 [OF wf last_in_set] wf by (cases "snd (write1 p b g) = []") auto
  then show "added p b False g (last (g # snd (write1 p b g)))" by (rule written_new [OF p writable_write1(3) [OF w]])
qed

lemma new_file:
  assumes p: "free_place p g" and op: "op g = write1 p b g" and C: "\<And>h. same_but {p} g h \<Longrightarrow> C h"
  shows "tot e ((=) g) C (syscall op) (\<lambda>_. added p b False g)"
  by (rule tr_syscall) (use write1_new [OF p, where b = b] op C in auto)

lemma copy_new:
  assumes p: "free_place p g" and s: "cat g src = Some b" and C: "\<And>h. same_but {p} g h \<Longrightarrow> C h"
  shows "tot e ((=) g) C (copy2 src p) (\<lambda>_. added p b False g)"
proof -
  have "copy1 src p g = write1 p b g"
    by (rule copy1_plain) (use p s in \<open>auto simp: free_place_def writable_def cat_def\<close>)
  then show ?thesis unfolding copy2_def by (rule new_file [OF p _ C])
qed

lemma added_sealed:
  assumes p: "free_place p g" and h: "added p b False g h"
  shows "added p b True g (seal (next_ino g) h)"
proof -
  have "lookup (seal i h) = lookup h" for i by (simp add: fun_eq_iff seal_obs)
  moreover have "inodes (seal (next_ino g) h) = (inodes g)(next_ino g \<mapsto> \<lparr>bytes = b, verity = True\<rparr>)"
    using h by (simp add: seal_def added_def)
  ultimately show ?thesis using h wf_seal by (simp add: added_def)
qed

lemma root_new:
  assumes T: "fsverity_tool vd e" "plain_path p" "\<not> dry_run e" and p: "free_place p g" and s: "cat g (src_root_cfs src) = Some x"
    and d: "src_digest src = Inr (JStr (vd x))" and C: "\<And>h. same_but {p} g h \<Longrightarrow> C h"
  shows "tot e ((=) g) C (place_root_cfs src p) (\<lambda>_. added p x True g)"
proof -
  note cp = copy_new [where e = e, OF p s C]
  have seal: "tot e (added p x False g) C (enable_verity p) (\<lambda>_. added p x True g)"
  proof (rule tr_enable [OF T])
    show "tmp_file p x h" if "added p x False g h" for h using that by (auto simp: tmp_file_def added_def)
    fix h i assume h: "added p x False g h" "lookup h p = Some (File i)"
    then have "i = next_ino g" by (simp add: added_def)
    then have "added p x True g (seal i h)" using added_sealed [OF p h(1)] by simp
    then show "C (seal i h) \<and> added p x True g (seal i h)" using C [OF added_same [OF p]] by blast
  qed
  have measure: "tot e (added p x True g) C (measure_file p) (\<lambda>got h. added p x True g h \<and> got = vd x)"
    by (rule tr_measure [OF T(1,2)]) (auto simp: added_def read1_def)
  have check: "tot e (\<lambda>h. added p x True g h \<and> got = vd x) C (bnd (lift (src_digest src)) (\<lambda>dg.
       bnd (if_do (dg \<noteq> JStr got) (die (m dg))) (\<lambda>_. vlog n))) (\<lambda>_. added p x True g)" for got m n
    by (rule tr_pure) (auto simp: d triple_def run_simps vlog_def log_def)
  show ?thesis unfolding place_root_cfs_def
    by (rule tr_asks_bnd) (simp only: T(3) if_False, rule tr_bnd [OF cp tr_bnd [OF seal tr_bnd [OF measure check]]])
qed

section \<open>The store under changes elsewhere\<close>

lemma sound_elsewhere:
  assumes g: "sound_store vd s g" and wf: "wf_fs h" and same: "\<And>q. prefix s q \<Longrightarrow> lookup h q = lookup g q \<and> cat h q = cat g q"
    and own: "\<And>p q i. strict_prefix s p \<Longrightarrow> dotted (last p) \<Longrightarrow> lookup g p = Some (File i) \<Longrightarrow>
      inodes h i = inodes g i \<and> (lookup h q = Some (File i) \<longrightarrow> q = p)"
  shows "sound_store vd s h"
proof -
  have ok: "store_ok vd s g" using g by (simp add: sound_store_def)
  have "store_ok vd s h"
  proof (rule store_okI [OF wf])
    show "\<not> is_symlink h p" if "strict_prefix s p" for p
      using store_no_link [OF ok that] same that by (auto simp: is_symlink_def strict_prefix_def)
    show "lookup h p \<noteq> Some Dir" if "strict_prefix s p" "dotted (last p)" for p
      using store_okD(1) [OF ok that] same that by (auto simp: strict_prefix_def)
    show "q = p" if "strict_prefix s p" "dotted (last p)" "lookup h p = Some (File i)" "lookup h q = Some (File i)" for p q i
    proof -
      have "lookup g p = Some (File i)" using same [of p] that(1,3) by (simp add: strict_prefix_def)
      from own [OF that(1,2) this, of q] show ?thesis using that(4) by simp
    qed
    show "vd b = object_name s p" if "stored s p" "cat h p = Some b" for p b
      using store_okD(2) [OF ok that(1)] same [of p] that by (auto simp: stored_def strict_prefix_def)
  qed
  moreover have "open_temps s h"
    unfolding open_temps_def
  proof (intro allI impI)
    fix p i nd assume p: "strict_prefix s p" "dotted (last p)" "lookup h p = Some (File i)" "inodes h i = Some nd"
    have l: "lookup g p = Some (File i)" using p same [of p] by (simp add: strict_prefix_def)
    then have "inodes g i = Some nd" using own [OF p(1,2) l] p(4) by simp
    then show "\<not> verity nd" using g p l by (auto simp: sound_store_def open_temps_def)
  qed
  ultimately show ?thesis using g same [of s] by (auto simp: sound_store_def)
qed

lemma sound_names:
  assumes g: "sound_store vd s g" and h: "wf_fs h" "inodes h = inodes g" "\<And>q. prefix s q \<Longrightarrow> lookup h q = lookup g q"
    "\<And>q i. lookup h q = Some (File i) \<Longrightarrow> lookup g q = Some (File i)"
  shows "sound_store vd s h"
proof (rule sound_elsewhere [OF g h(1)])
  show "lookup h q = lookup g q \<and> cat h q = cat g q" if "prefix s q" for q
    using h(3) [OF that] cat_cong [OF h(3) [OF that] h(2)] by simp
  show "inodes h i = inodes g i \<and> (lookup h q = Some (File i) \<longrightarrow> q = p)"
    if "strict_prefix s p" "dotted (last p)" "lookup g p = Some (File i)" for p q i
    using g h(2) h(4) [of q i] that store_tmp_unique [of vd s g p i q] by (auto simp: sound_store_def)
qed

lemma sound_added:
  assumes g: "sound_store vd s g" and p: "free_place p g" "added p b v g h" "\<not> prefix s p"
  shows "sound_store vd s h"
proof (rule sound_elsewhere [OF g])
  show "wf_fs h" using p(2) by (simp add: added_def)
  show "lookup h q = lookup g q \<and> cat h q = cat g q" if "prefix s q" for q
    using added_same [OF p(1,2)] that p(3) by (auto simp: same_but_def)
  fix t q i assume t: "strict_prefix s t" "dotted (last t)" "lookup g t = Some (File i)"
  have "i \<noteq> next_ino g" using wf_file [OF _ t(3)] p(1) by (auto simp: free_place_def)
  then show "inodes h i = inodes g i \<and> (lookup h q = Some (File i) \<longrightarrow> q = t)"
    using p(2) store_tmp_unique [of vd s g t i q] g t by (auto simp: added_def sound_store_def)
qed

lemma sound_holds:
  assumes g: "sound_store vd s g" and r: "holder_ready s hp g" and h: "holds g s hp R h" "wf_fs h"
    and R: "\<forall>x \<in> R. \<not> dotted (last x) \<and> x \<noteq> []"
  shows "sound_store vd s h"
proof (rule sound_elsewhere [OF g h(2)])
  have i: "inodes h = inodes g" using h(1) by (simp add: holds_def)
  show "lookup h q = lookup g q \<and> cat h q = cat g q" if pq: "prefix s q" for q
  proof -
    obtain x where "q = s @ x" using pq by (auto simp: prefix_def)
    then have "lookup h q = lookup g q" using holds_store [OF r h(1)] by simp
    then show ?thesis using cat_cong [OF _ i] by simp
  qed
  fix t q j assume t: "strict_prefix s t" "dotted (last t)" "lookup g t = Some (File j)"
  have u: "q' = t" if "lookup g q' = Some (File j)" for q'
    using store_tmp_unique [of vd s g t j q'] g t that by (simp add: sound_store_def)
  have "q = t" if q: "lookup h q = Some (File j)"
  proof (cases "strict_prefix hp q")
    case True
    then obtain x where x: "q = hp @ x" "x \<noteq> []" by (metis strict_prefixE' list.discI)
    then have "holder_node g s R x = Some (File j)" using q holds_below [OF h(1)] by simp
    then have "x \<in> R" "lookup g (s @ x) = Some (File j)" by (auto simp: holder_node_def split: if_splits)
    then have "s @ x = t" "\<not> dotted (last x)" "x \<noteq> []" using u R by auto
    then show ?thesis using t(2) by auto
  next
    case False
    then show ?thesis using q u h(1) by (auto simp: holds_def split: if_splits)
  qed
  then show "inodes h j = inodes g j \<and> (lookup h q = Some (File j) \<longrightarrow> q = t)" using i by simp
qed

end
