(* ===== verification/Download.thy ===== *)
theory Download
  imports NewFiles
begin

text \<open>
  What a download relies on and does: temporary directories, the registry's answers, the token, the
  disk while files arrive below a temporary directory, the index, and the objects that are missing.
\<close>

section \<open>Temporary directories\<close>

text \<open>They appear below \<open>t\<close>, under new names.\<close>

definition tempdir :: "path \<Rightarrow> env \<Rightarrow> bool" where
  "tempdir t e \<longleftrightarrow> plain_path t \<and>
     (\<forall>pre g. plain_name pre \<longrightarrow> wf_fs g \<longrightarrow> (\<exists>nm. temp_name e pre g = t @ [nm] \<and> plain_name nm \<and> lookup g (t @ [nm]) = None))"

definition new_below :: "path \<Rightarrow> fs \<Rightarrow> path set" where
  "new_below t f = {q. \<exists>nm. prefix (t @ [nm]) q \<and> lookup f (t @ [nm]) = None}"

lemma new_below_none:
  assumes "wf_fs f" "q \<in> new_below t f"
  shows "lookup f q = None"
proof -
  obtain nm where nm: "prefix (t @ [nm]) q" "lookup f (t @ [nm]) = None" using assms(2) by (auto simp: new_below_def)
  show ?thesis
  proof (cases "lookup f q")
    case (Some n)
    then have "q \<noteq> t @ [nm]" using nm(2) by auto
    then have "lookup f (t @ [nm]) = Some Dir" using wf_prefix_dir [OF assms(1) Some] nm(1) by (simp add: strict_prefix_def)
    then show ?thesis using nm(2) by simp
  qed
qed

lemma new_below_same: "(\<And>nm. lookup g (t @ [nm]) = lookup f (t @ [nm])) \<Longrightarrow> new_below t g = new_below t f"
  by (simp add: new_below_def)

definition removed :: "path \<Rightarrow> fs \<Rightarrow> fs \<Rightarrow> bool" where
  "removed p g h \<longleftrightarrow> wf_fs h \<and> inodes h = inodes g \<and> (\<forall>q. lookup h q = (if prefix p q then None else lookup g q))"

lemma rmtree_tot:
  assumes g: "wf_fs g" "lookup g p = Some Dir" "p \<noteq> []" and C: "\<And>h. shrinks {q. prefix p q} g h \<Longrightarrow> C h"
  shows "tot e ((=) g) C (rmtree_quiet p) (\<lambda>_. removed p g)"
proof -
  have wf: "wf_fs (last (g # snd (rmtree1 p g)))"
    using wf_rmtree1 [OF g(1) last_in_set] g(1) by (cases "snd (rmtree1 p g) = []") auto
  have "tot e ((=) g) C (rmtree p) (\<lambda>_. removed p g)"
    unfolding rmtree_def
    by (rule tr_syscall)
      (use rmtree1_dir [OF g] wf C shrinks_rmtree [OF shrinks_refl [OF g(1)] subset_refl] in \<open>auto simp: removed_def\<close>)
  then show ?thesis unfolding rmtree_quiet_def
    by (rule tr_try [where Y = "\<lambda>_ _. False"]) (simp add: triple_def)
qed

lemma tot_finally:
  assumes m: "tot e P C m R" and c: "\<And>x. tot e (R x) C c (\<lambda>_. Q x)"
  shows "tot e P C (try_finally m c) Q"
  unfolding triple_def
proof (intro allI impI)
  fix w :: world assume P: "P (fsys w)"
  obtain r w1 where mw: "m e w = (r, w1)" by fastforce
  obtain n1 where n1: "hist w1 = n1 @ hist w" "fsys w1 = hd (n1 @ [fsys w])" "\<forall>g \<in> set n1. C g"
    "\<And>x. r = Inl x \<Longrightarrow> False" "\<And>x. r = Inr x \<Longrightarrow> R x (fsys w1)"
    using tripleD [OF m P mw] by metis
  obtain x where r: "r = Inr x" using n1(4) by (cases r) auto
  obtain r2 w2 where kw: "c e w1 = (r2, w2)" by fastforce
  obtain n2 where n2: "hist w2 = n2 @ hist w1" "fsys w2 = hd (n2 @ [fsys w1])" "\<forall>g \<in> set n2. C g"
    "\<And>y. r2 = Inl y \<Longrightarrow> False" "\<And>y. r2 = Inr y \<Longrightarrow> Q x (fsys w2)"
    using tripleD [OF c n1(5) [OF r] kw] by metis
  obtain y where "r2 = Inr y" using n2(4) by (cases r2) auto
  then show "case try_finally m c e w of (r, w') \<Rightarrow>
        (\<exists>new. hist w' = new @ hist w \<and> fsys w' = hd (new @ [fsys w]) \<and> (\<forall>g \<in> set new. C g)) \<and>
        (case r of Inl _ \<Rightarrow> False | Inr x \<Rightarrow> Q x (fsys w'))"
    using mw kw r n1 n2 by (auto simp: try_finally_def hd_append intro!: exI [of _ "n2 @ n1"])
qed

text \<open>A block that works in a temporary directory of its own.\<close>

lemma tot_in_temp:
  assumes t: "tempdir t e" "plain_name pre" and f: "wf_fs f" "lookup f t = Some Dir"
    and C: "\<And>h. same_but (new_below t f) f h \<Longrightarrow> C h"
    and body: "\<And>nm. plain_name nm \<Longrightarrow> lookup f (t @ [nm]) = None \<Longrightarrow>
      tot e ((=) (set_entry (t @ [nm]) Dir f)) C (m (t @ [nm])) (\<lambda>x g. wf_fs g \<and> lookup g (t @ [nm]) = Some Dir \<and>
        (\<forall>h. shrinks {q. prefix (t @ [nm]) q} g h \<longrightarrow> C h) \<and> (\<forall>h. removed (t @ [nm]) g h \<longrightarrow> Q x h))"
  shows "tot e ((=) f) C (bnd (mkdtemp pre) (\<lambda>p. try_finally (m p) (rmtree_quiet p))) Q"
proof -
  obtain nm where nm: "temp_name e pre f = t @ [nm]" "plain_name nm" "lookup f (t @ [nm]) = None"
    using t f(1) unfolding tempdir_def by meson
  let ?p = "t @ [nm]" and ?g = "set_entry (t @ [nm]) Dir f"
  have mk: "mkdir1 ?p f = Inr ?g" using nm(3) f(2) by (simp add: mkdir1_def parent_err_def)
  have "?p \<in> new_below t f" using nm(3) by (auto simp: new_below_def)
  then have "same_but (new_below t f) f ?g"
    unfolding same_but_def using cat_cong [of ?g _ f] by (auto simp: fs_simps)
  then have cg: "C ?g" by (rule C)
  have made: "tot e ((=) f) C (os_mkdir ?p) (\<lambda>_. (=) ?g)"
    unfolding os_mkdir_def by (rule tr_atomic) (use mk cg in auto)
  have fin: "tot e (\<lambda>g. wf_fs g \<and> lookup g ?p = Some Dir \<and> (\<forall>h. shrinks {q. prefix ?p q} g h \<longrightarrow> C h) \<and> (\<forall>h. removed ?p g h \<longrightarrow> Q x h)) C
      (rmtree_quiet ?p) (\<lambda>_. Q x)" for x
    by (rule tr_exact, rule tr_total [OF rmtree_tot]) auto
  have run: "tot e ((=) f) C (bnd (os_mkdir ?p) (\<lambda>_. try_finally (m ?p) (rmtree_quiet ?p))) Q"
    by (rule tr_bnd [OF made tot_finally [OF body [OF nm(2,3)] fin]])
  show ?thesis unfolding mkdtemp_def bnd_assoc bnd_ret
    by (rule tr_asks_bnd, rule tr_gets_exact) (simp only: nm(1) run)
qed

section \<open>The registry\<close>

text \<open>A command that downloads \<open>b\<close> to a new file \<open>p\<close>, and one that prints \<open>out\<close>.\<close>

definition downloads :: "env \<Rightarrow> string list \<Rightarrow> path \<Rightarrow> string \<Rightarrow> bool" where
  "downloads e cmd p b \<longleftrightarrow> has_tool e (hd cmd) \<and>
     (\<forall>g. free_place p g \<longrightarrow> t_rc (tool e cmd g) = 0 \<and> t_fs (tool e cmd g) = snd (write1 p b g))"

definition answers :: "env \<Rightarrow> string list \<Rightarrow> string \<Rightarrow> bool" where
  "answers e cmd out \<longleftrightarrow> has_tool e (hd cmd) \<and>
     (\<forall>g. t_rc (tool e cmd g) = 0 \<and> t_out (tool e cmd g) = out \<and> t_fs (tool e cmd g) = [])"

lemma answers_same: "answers e cmd out \<Longrightarrow> answers e cmd out' \<longleftrightarrow> out' = out"
  by (auto simp: answers_def)

lemma tot_run:
  assumes "has_tool e (hd cmd)" "t_rc (tool e cmd g) = 0" "\<not> dry_run e"
    and "\<And>h. h \<in> set (t_fs (tool e cmd g)) \<Longrightarrow> C h"
    and "Q (if c then strip (univ_nl (t_out (tool e cmd g))) else []) (last (g # t_fs (tool e cmd g)))"
  shows "tot e ((=) g) C (run cmd c True) Q"
proof -
  have ex: "tot e ((=) g) C (exec cmd) (\<lambda>r h. r = tool e cmd g \<and> h = last (g # t_fs r))"
    by (rule tr_exec) (use assms(1,4) in auto)
  have out: "tot e (\<lambda>h. r = tool e cmd g \<and> h = last (g # t_fs r)) C
      (bnd (if_do (t_rc r \<noteq> 0) (steps ms)) (\<lambda>_. ret (if c then strip (univ_nl (t_out r)) else []))) Q" for r ms
    by (rule tr_bnd [OF tr_if_do [where Q = "\<lambda>_ h. r = tool e cmd g \<and> h = last (g # t_fs r)"] tr_ret])
      (use assms(2,5) in \<open>auto simp: triple_def\<close>)
  have block: "tot e ((=) g) C (bnd (exec cmd) (\<lambda>r.
      bnd (if_do (t_rc r \<noteq> 0) (steps (ms r))) (\<lambda>_. ret (if c then strip (univ_nl (t_out r)) else [])))) Q" for ms
    by (rule tr_bnd [OF ex out])
  show ?thesis unfolding run_def Let_def
    by (intro tr_asks_bnd) (simp only: assms(3) simp_thms if_False, rule tr_bnd [OF tr_vlog [where Q = "\<lambda>_. (=) g"] block], simp)
qed

lemma tot_download:
  assumes "downloads e cmd p b" "free_place p g" "\<not> dry_run e" "\<And>h. same_but {p} g h \<Longrightarrow> C h"
  shows "tot e ((=) g) C (run cmd c True) (\<lambda>_. added p b False g)"
  by (rule tot_run) (use assms write1_new [OF assms(2), where b = b] in \<open>auto simp: downloads_def\<close>)

lemma tot_answer:
  assumes "answers e cmd out" "\<not> dry_run e"
  shows "tot e ((=) g) C (run_out cmd) (\<lambda>x h. g = h \<and> x = strip (univ_nl out))"
  by (rule tot_run) (use assms in \<open>auto simp: answers_def\<close>)

text \<open>The registry lets everyone in, or hands out a token.\<close>

definition authorized :: "env \<Rightarrow> string \<Rightarrow> string option \<Rightarrow> bool" where
  "authorized e repo auth \<longleftrightarrow> (\<exists>hdrs.
     answers e [''curl'', ''-sS'', ''-o'', ''/dev/null'', ''-D'', ''-'', ''https://'' @ split1 (CHR ''/'') repo ! 0 @ ''/v2/''] hdrs \<and>
     (case bearer_search True (strip (univ_nl hdrs)) of
        None \<Rightarrow> auth = None
      | Some g \<Rightarrow> CHR ''/'' \<in> set repo \<and> (\<exists>realm service out kvs tok. map_of (rev (find_params g)) ''realm'' = Some realm \<and>
          realm \<noteq> [] \<and> map_of (rev (find_params g)) ''service'' = Some service \<and>
          answers e [''curl'', ''-fsSL'', realm @ ''?'' @ ''service='' @ service @ ''&scope=repository:'' @ split1 (CHR ''/'') repo ! 1 @ '':pull''] out \<and>
          loads (strip (univ_nl out)) = Some (JObj kvs) \<and> map_of kvs ''token'' = Some (JStr tok) \<and> tok \<noteq> [] \<and>
          auth = Some (''Authorization: Bearer '' @ tok))))"

lemma tot_auth:
  assumes a: "authorized e repo auth" and dry: "\<not> dry_run e"
  shows "tot e ((=) g) C (registry_auth_header repo) (\<lambda>x h. g = h \<and> x = auth)"
proof -
  obtain hdrs where h: "answers e [''curl'', ''-sS'', ''-o'', ''/dev/null'', ''-D'', ''-'', ''https://'' @ split1 (CHR ''/'') repo ! 0 @ ''/v2/''] hdrs"
    using a unfolding authorized_def by blast
  show ?thesis
  proof (cases "bearer_search True (strip (univ_nl hdrs))")
    case None
    then have "auth = None" using a answers_same [OF h] by (auto simp: authorized_def)
    then show ?thesis unfolding registry_auth_header_def Let_def
      by (intro tr_bnd [OF tot_answer [OF h dry]] tr_pure) (auto simp: None intro: tr_ret)
  next
    case (Some y)
    then obtain realm service out kvs tok where y: "CHR ''/'' \<in> set repo" "map_of (rev (find_params y)) ''realm'' = Some realm"
        "realm \<noteq> []" "map_of (rev (find_params y)) ''service'' = Some service"
        "answers e [''curl'', ''-fsSL'', realm @ ''?'' @ ''service='' @ service @ ''&scope=repository:'' @ split1 (CHR ''/'') repo ! 1 @ '':pull''] out"
        "loads (strip (univ_nl out)) = Some (JObj kvs)" "map_of kvs ''token'' = Some (JStr tok)" "tok \<noteq> []"
        "auth = Some (''Authorization: Bearer '' @ tok)"
      using a answers_same [OF h] by (auto simp: authorized_def)
    have yn: "(CHR ''/'' \<notin> set repo) = False" "(realm = []) = False" using y(1,3) by auto
    show ?thesis unfolding registry_auth_header_def Let_def
      by (rule tr_bnd [OF tot_answer [OF h dry]], rule tr_pure, simp only: Some y(2,4) option.case yn if_False,
          rule tr_bnd [OF tot_answer [OF y(5) dry]], rule tr_pure, simp only: y(6) option.case)
        (auto simp: meta_get_def y(7,8,9) json_str_def intro!: tr_lift_bnd tr_ret)
  qed
qed

section \<open>The disk while a download is at work\<close>

text \<open>Since the disk \<open>f\<close>, only the store and the temporary directory \<open>p\<close> have changed.\<close>

definition fetching :: "(string \<Rightarrow> string) \<Rightarrow> path \<Rightarrow> path \<Rightarrow> fs \<Rightarrow> fs \<Rightarrow> bool" where
  "fetching vd s p f g \<longleftrightarrow> sound_store vd s g \<and> grows s f g \<and> lookup g p = Some Dir \<and>
     same_but ({q. prefix s q} \<union> {q. prefix p q}) f g"

definition fetch_area :: "path \<Rightarrow> path \<Rightarrow> fs \<Rightarrow> path set" where
  "fetch_area s t f = {q. prefix s q} \<union> new_below t f"

lemma sound_wf: "sound_store vd s g \<Longrightarrow> wf_fs g"
  by (simp add: sound_store_def store_ok_def)

lemma temp_apart:
  assumes "clear_of s t" "prefix (t @ [nm]) q"
  shows "\<not> prefix s q"
proof
  assume "prefix s q"
  then have "prefix s (t @ [nm]) \<or> prefix (t @ [nm]) s" using assms(2) prefix_same_cases by blast
  then show False using assms(1) by (auto simp: clear_of_def dest: append_prefixD)
qed

lemma store_apart: "clear_of s t \<Longrightarrow> prefix s q \<Longrightarrow> \<not> prefix (t @ [nm]) q"
  using temp_apart by blast

lemma fetching_start:
  assumes f: "sound_store vd s f" "lookup f t = Some Dir" and c: "clear_of s t" and p: "lookup f (t @ [nm]) = None"
  shows "fetching vd s (t @ [nm]) f (set_entry (t @ [nm]) Dir f)"
proof -
  let ?g = "set_entry (t @ [nm]) Dir f"
  have mk: "mkdir1 (t @ [nm]) f = Inr ?g" using p f(2) by (simp add: mkdir1_def parent_err_def)
  have l: "lookup ?g q = (if q = t @ [nm] then Some Dir else lookup f q)" for q by (simp add: fs_simps)
  have i: "inodes ?g = inodes f" by (simp add: fs_simps)
  have same: "lookup ?g q = lookup f q \<and> cat ?g q = cat f q" if "q \<noteq> t @ [nm]" for q
    using l cat_cong [OF _ i] that by simp
  have own: "q \<noteq> t @ [nm]" if "prefix s q" for q using store_apart [OF c that, of nm] by auto
  have "sound_store vd s ?g"
    by (rule sound_names [OF f(1) wf_mkdir1 [OF sound_wf [OF f(1)] mk] i]) (use l own in \<open>auto split: if_splits\<close>)
  moreover have "grows s f ?g" by (rule grows_same) (use same own in blast)
  moreover have "same_but ({q. prefix s q} \<union> {q. prefix (t @ [nm]) q}) f ?g"
    unfolding same_but_def using same by auto
  ultimately show ?thesis using l by (simp add: fetching_def)
qed

lemma fetching_added:
  assumes g: "fetching vd s (t @ [nm]) f g" and c: "clear_of s t" and n: "lookup g (t @ [nm, x]) = None"
    and h: "added (t @ [nm, x]) b v g h"
  shows "free_place (t @ [nm, x]) g" "fetching vd s (t @ [nm]) f h"
    "\<And>y. y \<noteq> x \<Longrightarrow> lookup h (t @ [nm, y]) = lookup g (t @ [nm, y]) \<and> cat h (t @ [nm, y]) = cat g (t @ [nm, y])"
proof -
  have G: "sound_store vd s g" "grows s f g" "lookup g (t @ [nm]) = Some Dir" "same_but ({q. prefix s q} \<union> {q. prefix (t @ [nm]) q}) f g"
    using g by (auto simp: fetching_def)
  show fp: "free_place (t @ [nm, x]) g" using G(3) n sound_wf [OF G(1)] by (simp add: free_place_def butlast_append)
  note same = added_same [OF fp h]
  have own: "q \<noteq> t @ [nm, x]" if "prefix s q" for q using store_apart [OF c that, of nm] by auto
  have "sound_store vd s h" by (rule sound_added [OF G(1) fp h]) (use own in blast)
  moreover have "grows s f h"
    by (rule grows_trans [OF G(2) grows_same]) (use same own in \<open>auto simp: same_but_def\<close>)
  moreover have "lookup h (t @ [nm]) = Some Dir" using same G(3) by (simp add: same_but_def)
  moreover have "same_but ({q. prefix s q} \<union> {q. prefix (t @ [nm]) q}) f h"
    by (rule same_but_trans [OF G(4) same]) auto
  ultimately show "fetching vd s (t @ [nm]) f h" by (simp add: fetching_def)
  show "lookup h (t @ [nm, y]) = lookup g (t @ [nm, y]) \<and> cat h (t @ [nm, y]) = cat g (t @ [nm, y])" if "y \<noteq> x" for y
    using same that by (simp add: same_but_def)
qed

lemma fetching_near: "fetching vd s (t @ [nm]) f g \<Longrightarrow> lookup f (t @ [nm]) = None \<Longrightarrow> same_but (fetch_area s t f) f g"
  by (rule same_but_trans [where A = "{q. prefix s q} \<union> {q. prefix (t @ [nm]) q}", OF _ same_but_refl [of "{}"]])
    (auto simp: fetching_def fetch_area_def new_below_def)

lemma fetching_ends:
  assumes g: "fetching vd s (t @ [nm]) f g" and c: "clear_of s t" and f: "wf_fs f" "lookup f (t @ [nm]) = None"
  shows "shrinks {q. prefix (t @ [nm]) q} g h \<Longrightarrow> same_but (fetch_area s t f) f h"
    "removed (t @ [nm]) g h \<Longrightarrow> sound_store vd s h \<and> grows s f h \<and> outside s f h"
proof -
  have G: "sound_store vd s g" "grows s f g" "same_but ({q. prefix s q} \<union> {q. prefix (t @ [nm]) q}) f g"
    using g by (auto simp: fetching_def)
  show "same_but (fetch_area s t f) f h" if h: "shrinks {q. prefix (t @ [nm]) q} g h"
  proof (rule same_but_trans [OF G(3)])
    have "lookup h q = lookup g q \<and> cat h q = cat g q" if "\<not> prefix (t @ [nm]) q" for q
      using h that cat_cong [of h q g] unfolding shrinks_def by blast
    then show "same_but {q. prefix (t @ [nm]) q} g h" by (simp add: same_but_def)
  qed (use f(2) in \<open>auto simp: fetch_area_def new_below_def\<close>)
  assume h: "removed (t @ [nm]) g h"
  then have l: "lookup h q = (if prefix (t @ [nm]) q then None else lookup g q)" and i: "inodes h = inodes g" and wf: "wf_fs h" for q
    by (auto simp: removed_def)
  have own: "lookup h q = lookup g q \<and> cat h q = cat g q" if "\<not> prefix (t @ [nm]) q" for q
    using l that cat_cong [OF _ i] by simp
  have "sound_store vd s h"
    by (rule sound_names [OF G(1) wf i]) (use l store_apart [OF c] in \<open>auto split: if_splits\<close>)
  moreover have "grows s f h"
    by (rule grows_trans [OF G(2) grows_same]) (use own store_apart [OF c] in blast)
  moreover have "lookup h q = lookup f q \<and> cat h q = cat f q" if q: "\<not> prefix s q" for q
  proof (cases "prefix (t @ [nm]) q")
    case True
    then have "lookup f q = None" using new_below_none [OF f(1), of q t] f(2) by (auto simp: new_below_def)
    then show ?thesis using l True by (simp add: cat_def)
  next
    case False
    then show ?thesis using own G(3) q by (simp add: same_but_def)
  qed
  ultimately show "sound_store vd s h \<and> grows s f h \<and> outside s f h" by (simp add: outside_def)
qed

section \<open>The index\<close>

text \<open>The index as it is served, and what it says of the pack.\<close>

definition index_text :: "env \<Rightarrow> json \<Rightarrow> string \<Rightarrow> (string \<times> int \<times> int) list \<Rightarrow> bool" where
  "index_text e im raw index \<longleftrightarrow> (\<exists>enc text. meta_get im ''encoding'' = Inr enc \<and>
     (if enc = Some (JStr ''gzip'') then gunzip e raw = Some text else text = raw) \<and> utf8_ok text \<and> parse_index text = Inr index)"

definition describes :: "(string \<Rightarrow> string) \<Rightarrow> (string \<times> int \<times> int) list \<Rightarrow> string \<Rightarrow> bool" where
  "describes vd index pack \<longleftrightarrow> (\<forall>d offs len. map_of index d = Some (offs, len) \<longrightarrow>
     0 \<le> offs \<and> 1 \<le> len \<and> offs + len \<le> int (length pack) \<and> vd (take (nat len) (drop (nat offs) pack)) = d)"

lemma fetch_index_tot:
  assumes t: "tempdir t e" "clear_of s t" and dry: "\<not> dry_run e" and f: "sound_store vd s f" "lookup f t = Some Dir"
    and ids: "meta_item im ''digest'' = Inr ids" and it: "index_text e im raw index"
    and dl: "\<And>p. plain_path p \<Longrightarrow> strict_prefix t p \<Longrightarrow>
      downloads e [''oras'', ''blob'', ''fetch'', repo @ ''@'' @ json_str ids, ''--output'', path_str p] p raw"
  shows "tot e ((=) f) (same_but (fetch_area s t f) f) (fetch_index repo im)
    (\<lambda>x h. x = index \<and> sound_store vd s h \<and> grows s f h \<and> outside s f h)"
proof -
  let ?C = "same_but (fetch_area s t f) f"
  note wf = sound_wf [OF f(1)]
  obtain enc plain where enc: "meta_get im ''encoding'' = Inr enc" "utf8_ok plain" "parse_index plain = Inr index"
    and dec: "if enc = Some (JStr ''gzip'') then gunzip e raw = Some plain else plain = raw"
    using it by (auto simp: index_text_def)
  have area: "?C h" if "same_but (new_below t f) f h" for h
    using that by (auto simp: same_but_def fetch_area_def)
  show ?thesis unfolding fetch_index_def Let_def ids bnd_lift
  proof (rule tot_in_temp [OF t(1) _ wf f(2) area])
    fix nm assume nm: "plain_name nm" "lookup f (t @ [nm]) = None"
    let ?g = "set_entry (t @ [nm]) Dir f" and ?q = "t @ [nm, ''index'']"
    let ?A = "added ?q raw False ?g"
    note G = fetching_start [OF f t(2) nm(2)]
    have q: "pjoin (t @ [nm]) ''index'' = ?q" by (simp add: plain_name_def)
    have "plain_path ?q" "strict_prefix t ?q" using t(1) nm(1) by (auto simp: tempdir_def plain_path_def plain_name_def strict_prefix_def)
    note dl = dl [OF this]
    have none: "lookup ?g ?q = None"
      using wf_no_child [OF wf, of "t @ [nm]" "''index''"] nm(2) by (simp add: fs_simps)
    have fp: "free_place ?q ?g" using G none sound_wf by (auto simp: free_place_def fetching_def butlast_append)
    have near: "?C h" if "same_but {?q} ?g h" for h
      by (rule same_but_trans [OF fetching_near [OF G nm(2)] that]) (use nm(2) in \<open>auto simp: fetch_area_def new_below_def\<close>)
    have get: "tot e ((=) ?g) ?C (run_out [''oras'', ''blob'', ''fetch'', repo @ ''@'' @ json_str ids, ''--output'', path_str ?q]) (\<lambda>_. ?A)"
      by (rule tot_download [OF dl fp dry near])
    have decoded: "decoded (enc = Some (JStr ''gzip'')) raw e w = (Inr plain, w)" for w
      using dec by (auto simp: decoded_def run_simps split: if_splits)
    have parse: "tot e ?A ?C (bnd (decoded (enc = Some (JStr ''gzip'')) raw) (\<lambda>text. if utf8_ok text then lift (parse_index text) else raise ValueErr))
        (\<lambda>x h. x = index \<and> ?A h)"
      using enc(2,3) by (simp add: triple_def bnd_def decoded lift_def)
    have read: "tot e ?A ?C (bnd (read_bytes ?q) (\<lambda>raw. bnd (lift (meta_get im ''encoding'')) (\<lambda>enc.
        bnd (decoded (enc = Some (JStr ''gzip'')) raw) (\<lambda>text. if utf8_ok text then lift (parse_index text) else raise ValueErr))))
        (\<lambda>x h. x = index \<and> ?A h)"
      unfolding read_bytes_def enc(1) bnd_lift
      by (rule tr_reads_const [where v = raw], simp add: added_def read1_def, rule parse)
    have fin: "wf_fs h \<and> lookup h (t @ [nm]) = Some Dir \<and> (\<forall>k. shrinks {q. prefix (t @ [nm]) q} h k \<longrightarrow> ?C k) \<and>
        (\<forall>k. removed (t @ [nm]) h k \<longrightarrow> x = index \<and> sound_store vd s k \<and> grows s f k \<and> outside s f k)"
      if h: "x = index \<and> ?A h" for x h
    proof -
      have H: "fetching vd s (t @ [nm]) f h" by (rule fetching_added(2) [OF G t(2) none]) (use h in blast)
      note E = fetching_ends [OF H t(2) wf nm(2)]
      have "wf_fs h" "lookup h (t @ [nm]) = Some Dir" using H sound_wf by (auto simp: fetching_def)
      then show ?thesis using E h by blast
    qed
    show "tot e ((=) ?g) ?C (bnd (run_out [''oras'', ''blob'', ''fetch'', repo @ ''@'' @ json_str ids, ''--output'', path_str (pjoin (t @ [nm]) ''index'')])
        (\<lambda>_. bnd (read_bytes (pjoin (t @ [nm]) ''index'')) (\<lambda>raw. bnd (lift (meta_get im ''encoding'')) (\<lambda>enc.
          bnd (decoded (enc = Some (JStr ''gzip'')) raw) (\<lambda>text. if utf8_ok text then lift (parse_index text) else raise ValueErr)))))
        (\<lambda>x g. wf_fs g \<and> lookup g (t @ [nm]) = Some Dir \<and> (\<forall>h. shrinks {q. prefix (t @ [nm]) q} g h \<longrightarrow> ?C h) \<and>
          (\<forall>h. removed (t @ [nm]) g h \<longrightarrow> x = index \<and> sound_store vd s h \<and> grows s f h \<and> outside s f h))"
      unfolding q by (rule tr_conseq_x [OF tr_bnd [OF get read]]) (use fin in auto)
  qed (simp add: plain_name_def)
qed

section \<open>The objects to fetch\<close>

definition digests_of :: "string \<Rightarrow> string set" where
  "digests_of listing = set (filter is_digest (word_runs (strip (univ_nl listing))))"

lemma referenced_digests: "referenced listing = object_path ` digests_of listing"
  by (simp add: referenced_def digests_of_def)

definition to_fetch :: "path \<Rightarrow> (string \<times> int \<times> int) list \<Rightarrow> string \<Rightarrow> fs \<Rightarrow> want set" where
  "to_fetch s index listing g = {(offs, len, d). d \<in> digests_of listing \<and> lookup g (s @ object_path d) = None \<and> map_of index d = Some (offs, len)}"

lemma missing_tot:
  assumes "has_tool e ''composefs-info''" "t_rc (tool e [''composefs-info'', ''dump'', path_str (src_root_cfs src)] g) = 0"
    "t_fs (tool e [''composefs-info'', ''dump'', path_str (src_root_cfs src)] g) = []"
    "t_out (tool e [''composefs-info'', ''dump'', path_str (src_root_cfs src)] g) = listing"
    and o: "\<forall>xs. set (set_order e xs) = set xs" and ok: "store_ok vd s g"
  shows "tot e ((=) g) C (missing_objects src s index) (\<lambda>(want, _) h. g = h \<and> by_offset want \<and> set want = to_fetch s index listing g)"
proof -
  have ex: "path_exists g (s @ object_path d) \<longleftrightarrow> lookup g (s @ object_path d) \<noteq> None" for d
    using store_no_link [OF ok, of "s @ object_path d"] by (simp add: path_exists_def stat_no_link object_path_def strict_prefix_def)
  define refs where "refs = set_order e (remdups (map rel_for_digest (find_digests False (strip (univ_nl listing)))))"
  have refs: "set refs = rel_for_digest ` digests_of listing"
    using o by (simp add: refs_def digests_of_def find_digests_runs)
  have dig: "is_digest d" if "d \<in> digests_of listing" for d using that by (simp add: digests_of_def)
  have at: "pjoin s (rel_for_digest d) = s @ object_path d \<and> no_slash (rel_for_digest d) = d" if "d \<in> digests_of listing" for d
    using digest_names(3,4) [OF dig [OF that]] object_parts(7) [OF dig [OF that]] by (simp add: object_path_def)
  have w: "set (wanted s index refs g) = to_fetch s index listing g"
  proof (intro set_eqI iffI)
    fix x assume "x \<in> to_fetch s index listing g"
    then obtain offs len d where d: "x = (offs, len, d)" "d \<in> digests_of listing" "lookup g (s @ object_path d) = None"
      "map_of index d = Some (offs, len)" by (auto simp: to_fetch_def)
    have "rel_for_digest d \<in> set (filter (\<lambda>r. \<not> path_exists g (pjoin s r)) refs)"
      using d(2,3) by (simp add: refs at [OF d(2)] ex)
    moreover have "x \<in> set (case map_of index (no_slash (rel_for_digest d)) of None \<Rightarrow> [] | Some (offs, len) \<Rightarrow> [(offs, len, no_slash (rel_for_digest d))])"
      using d at [OF d(2)] by simp
    ultimately show "x \<in> set (wanted s index refs g)" unfolding wanted_def set_concat set_map by blast
  qed (auto simp: wanted_def to_fetch_def refs at ex split: option.splits)
  have srt: "by_offset (sort_want xs)" for xs
  proof -
    have "sorted (map fst ys)" if "sorted ys" for ys :: "want list"
      using that by (induction ys) (auto simp: less_eq_prod_def less_le)
    then show ?thesis by (simp add: by_offset_def sort_want_def)
  qed
  show ?thesis unfolding triple_def
  proof (intro allI impI)
    fix w :: world assume g: "g = fsys w"
    obtain w' where r: "referenced_objects (src_root_cfs src) e w = (Inr refs, w')" "fsys w' = fsys w" "hist w' = hist w"
      using referenced_run [of e "src_root_cfs src" w] assms(1-4) g unfolding refs_def by auto
    show "case missing_objects src s index e w of (r, w') \<Rightarrow>
        (\<exists>new. hist w' = new @ hist w \<and> fsys w' = hd (new @ [fsys w]) \<and> (\<forall>g \<in> set new. C g)) \<and>
        (case r of Inl _ \<Rightarrow> False | Inr x \<Rightarrow> (case x of (want, _) \<Rightarrow> \<lambda>h. g = h \<and> by_offset want \<and> set want = to_fetch s index listing g) (fsys w'))"
      using r g w srt [of "wanted s index refs g"] by (simp add: missing_objects_def bnd_def missing_loop ret_def sort_want_def)
  qed
qed

end
