(* ===== verification/PackLanding.thy ===== *)
theory PackLanding
  imports Download
begin

text \<open>
  Landing from the registry to the end: when the registry publishes the pack and an index that
  describes it, \<open>land_from_pack\<close> returns with every object the image refers to and the index lists
  in the store. On the way it touches only the store and new temporary directories, and leaves
  none of these behind.
\<close>

section \<open>The slices of a buffer\<close>

definition slice_due :: "env \<Rightarrow> (string \<Rightarrow> string) \<Rightarrow> path \<Rightarrow> string \<Rightarrow> want \<Rightarrow> fs \<Rightarrow> bool" where
  "slice_due e vd s buf w g \<longleftrightarrow> landing_env vd e s \<and> (case w of (offs, len, d) \<Rightarrow>
     is_digest d \<and> 0 \<le> offs \<and> 0 \<le> len \<and> vd (take (nat len) (drop (nat offs) buf)) = d)"

interpretation placed_slices: total_landing e vd s "place_slice buf s" "\<lambda>w. {slice_dest s w}" "slice_ok e vd s" "slice_due e vd s buf"
  for e vd s buf
proof unfold_locales
  fix w g h and k :: int
  assume W: "slice_due e vd s buf w g"
  then obtain offs len d where w: "w = (offs, len, d)" and L: "landing_env vd e s" and d: "is_digest d"
    and n: "0 \<le> offs" "0 \<le> len" "vd (take (nat len) (drop (nat offs) buf)) = d"
    by (auto simp: slice_due_def)
  show "slice_ok e vd s w" using L d by (simp add: slice_ok_def w)
  show "outside s g h \<Longrightarrow> slice_due e vd s buf w h" using W by (simp add: slice_due_def)
  assume g: "sound_store vd s g"
  then have ok: "store_ok vd s g" and dir: "lookup g s = Some Dir" and tmps: "open_temps s g" by (auto simp: sound_store_def)
  note o = object_parts [OF d] and D = digest_names [OF d]
  have t: "dotted (dot_tmp d)" "plain_name (dot_tmp d)" using dot_tmp_name [OF D(2)] by auto
  have rel: "pjoin s (rel_for_digest d) = s @ object_path d" "no_slash (rel_for_digest d) = d"
    using D(3,4) o(7) by (simp_all add: object_path_def)
  have tp: "pjoin (butlast (s @ object_path d)) (dot_tmp d) = s @ [take 2 d, dot_tmp d]"
    using t(2) by (simp add: object_path_def butlast_append)
  have cs: "copy_slice buf offs len T = write_text T (take (nat len) (drop (nat offs) buf))" for T
    using n(2) by (simp add: copy_slice_def buf_read_def)
  have sk: "lift (seek_ok offs) = ret ()" using n(1) by (intro ext) (simp add: seek_ok_def run_simps)
  show "tot e ((=) g) (outside s g) (place_slice buf s w k) (\<lambda>_ h. outside s g h \<and> lookup h s = Some Dir \<and> open_temps s h \<and> neat s g h)"
  proof (cases "lookup g (s @ object_path d)")
    case None
    have wr: "tot e ((=) g1) (\<lambda>h. \<exists>c. written g1 (s @ [take 2 d, dot_tmp d]) c h)
        (write_text (s @ [take 2 d, dot_tmp d]) (take (nat len) (drop (nat offs) buf)))
        (\<lambda>_. written g1 (s @ [take 2 d, dot_tmp d]) (take (nat len) (drop (nat offs) buf)))"
      if "writable g1 (s @ [take 2 d, dot_tmp d])" for g1
      unfolding write_text_def by (rule write_step [OF that]) (rule refl)
    show ?thesis unfolding place_slice_def w prod.case Let_def rel(1) tp cs sk bnd_ret
      by (rule tr_gets_exact, simp only: None lookup_None_obs if_False)
        (rule tr_total [OF land_at [OF L ok dir tmps d n(3) t rel None wr]], use landed_all [OF _ tmps o(1,2) dir] in auto)
  next
    case (Some x)
    have "\<not> is_symlink g (s @ object_path d)" using store_no_link [OF ok] by (simp add: strict_prefix_def object_path_def)
    then have "path_exists g (s @ object_path d)" using Some by (simp add: path_exists_def stat_no_link)
    then show ?thesis unfolding place_slice_def w prod.case Let_def rel
      by (intro tr_gets_exact) (use dir tmps in \<open>auto intro!: tr_ret\<close>)
  qed
qed

section \<open>The ranges\<close>

definition in_bounds :: "int \<Rightarrow> http_range \<Rightarrow> bool" where
  "in_bounds n r \<longleftrightarrow> (case r of (a, b, _) \<Rightarrow> 0 \<le> a \<and> a \<le> b \<and> b < n)"

lemma coalesce_loop_bounds:
  assumes "\<forall>(offs, len, d) \<in> set w. 0 \<le> offs \<and> 1 \<le> len \<and> offs + len \<le> n" "\<forall>r \<in> set rs. in_bounds n r"
    and "\<And>c. cur = Some c \<Longrightarrow> in_bounds n c"
  shows "\<forall>r \<in> set (coalesce_loop gap w cur rs). in_bounds n r"
  using assms
proof (induction gap w cur rs rule: coalesce_loop.induct)
  case (2 gap offs len d w cur rs)
  have x: "0 \<le> offs" "1 \<le> len" "offs + len \<le> n" and w: "\<forall>(offs, len, d) \<in> set w. 0 \<le> offs \<and> 1 \<le> len \<and> offs + len \<le> n"
    using 2(4) by auto
  have new: "in_bounds n (offs, offs + len - 1, [(0, len, d)])" using x by (simp add: in_bounds_def)
  show ?case
  proof (cases cur)
    case None
    have "\<forall>r \<in> set (coalesce_loop gap w (Some (offs, offs + len - 1, [(0, len, d)])) rs). in_bounds n r"
      by (rule 2(1) [OF None w 2(5)]) (use new in auto)
    then show ?thesis unfolding None by simp
  next
    case (Some c)
    obtain a b objs where c: "c = (a, b, objs)" by (cases c)
    have old: "in_bounds n (a, b, objs)" using 2(6) [OF Some] c by simp
    show ?thesis
    proof (cases "offs - (b + 1) \<le> gap")
      case True
      have "in_bounds n (a, max b (offs + len - 1), objs @ [(offs - a, len, d)])" using old x by (auto simp: in_bounds_def)
      then have "\<forall>r \<in> set (coalesce_loop gap w (Some (a, max b (offs + len - 1), objs @ [(offs - a, len, d)])) rs). in_bounds n r"
        by (intro 2(2) [OF Some c [symmetric] refl True w 2(5)]) auto
      then show ?thesis unfolding Some c using True by simp
    next
      case False
      have "\<forall>r \<in> set (rs @ [(a, b, objs)]). in_bounds n r" using 2(5) old by simp
      then have "\<forall>r \<in> set (coalesce_loop gap w (Some (offs, offs + len - 1, [(0, len, d)])) (rs @ [(a, b, objs)])). in_bounds n r"
        by (intro 2(3) [OF Some c [symmetric] refl False w]) (use new in auto)
      then show ?thesis unfolding Some c using False by simp
    qed
  qed
qed (auto split: option.splits)

text \<open>A range inside the pack whose slices have their digests.\<close>

definition carried :: "(string \<Rightarrow> string) \<Rightarrow> string \<Rightarrow> http_range \<Rightarrow> bool" where
  "carried vd pack r \<longleftrightarrow> in_bounds (int (length pack)) r \<and> (case r of (a, b, objs) \<Rightarrow> \<forall>(offs, len, d) \<in> set objs.
     is_digest d \<and> 0 \<le> offs \<and> 0 \<le> len \<and> vd (take (nat len) (drop (nat offs) (pack_slice pack a b))) = d)"

lemma ranges_carried:
  assumes w: "by_offset w" "\<forall>(offs, len, d) \<in> set w. is_digest d \<and> map_of index d = Some (offs, len)" and i: "describes vd index pack"
    and r: "r \<in> set (coalesce_ranges w gap)"
  shows "carried vd pack r"
proof -
  have ent: "0 \<le> offs \<and> 1 \<le> len \<and> offs + len \<le> int (length pack) \<and> is_digest d \<and> vd (take (nat len) (drop (nat offs) pack)) = d"
    if "(offs, len, d) \<in> set w" for offs len d
    using w(2) that i unfolding describes_def by fastforce
  have win: "in_bounds (int (length pack)) r"
    using coalesce_loop_bounds [of w "int (length pack)" "[]" None gap] ent r by (fastforce simp: coalesce_ranges_def)
  obtain a b objs where abc: "r = (a, b, objs)" by (cases r)
  have ok: "range_ok (a, b, objs)"
    using coalesce_loop_ok [OF w(1), of "[]" None gap] r abc by (simp add: coalesce_ranges_def)
  have "is_digest d \<and> 0 \<le> offs \<and> 0 \<le> len \<and> vd (take (nat len) (drop (nat offs) (pack_slice pack a b))) = d"
    if o: "(offs, len, d) \<in> set objs" for offs len d
  proof -
    have "(a + offs, len, d) \<in> set (in_pack r)" using in_pack_offset [of offs len d r] o abc by simp
    then have "(a + offs, len, d) \<in> set (concat (map in_pack (coalesce_ranges w gap)))" using r by auto
    then have "(a + offs, len, d) \<in> set w"
      using coalesce_loop_covers [of gap w None "[]"] by (simp add: coalesce_ranges_def)
    note e = ent [OF this]
    have "0 \<le> a" using win abc by (simp add: in_bounds_def)
    from slice_of_slice [OF ok o this, of pack] e
    have "take (nat len) (drop (nat offs) (pack_slice pack a b)) = take (nat len) (drop (nat (a + offs)) pack)"
      by (simp add: buf_read_def)
    then show ?thesis using e o ok by (auto simp: range_ok_def)
  qed
  then show ?thesis using win abc by (auto simp: carried_def)
qed

lemma pack_slice_length: "in_bounds (int (length pack)) (a, b, objs) \<Longrightarrow> int (length (pack_slice pack a b)) = b - a + 1"
  by (auto simp: in_bounds_def pack_slice_def)

section \<open>Fetching the ranges\<close>

definition serves :: "env \<Rightarrow> path \<Rightarrow> string \<Rightarrow> string \<Rightarrow> json \<Rightarrow> string \<Rightarrow> string option \<Rightarrow> bool" where
  "serves e t reg rp pd pack auth \<longleftrightarrow> (\<forall>p a b u. plain_path p \<longrightarrow> strict_prefix t p \<longrightarrow> in_bounds (int (length pack)) (a, b, []) \<longrightarrow>
     downloads e (range_cmd reg rp pd a b p auth u) p (pack_slice pack a b))"

text \<open>The name of the \<open>i\<close>-th part, and its data.\<close>

definition part_name :: "nat \<Rightarrow> string" where
  "part_name i = CHR ''r'' # show_nat i"

definition part_data :: "string \<Rightarrow> http_range list \<Rightarrow> nat \<Rightarrow> string" where
  "part_data pack rs i = pack_slice pack (fst (rs ! i)) (fst (snd (rs ! i)))"

lemma part_names: "plain_name (part_name i)" "part_name i = part_name j \<longleftrightarrow> i = j"
proof -
  have "CHR ''/'' \<notin> set (show_nat i)" using show_nat_digits [of "CHR ''/''" i] by (auto simp: is_digit_def code_def)
  then show "plain_name (part_name i)" by (simp add: plain_name_def part_name_def)
  have "i = j" if "show_nat i = show_nat j"
    using arg_cong [OF that, of py_int] by (simp add: py_int_show_nat)
  then show "part_name i = part_name j \<longleftrightarrow> i = j" by (auto simp: part_name_def)
qed

lemma tot_attempt: "tot e P C m Q \<Longrightarrow> tot e P C (attempt m) (\<lambda>y f. \<exists>x. y = Inr x \<and> Q x f)"
  unfolding triple_def
proof (intro allI impI)
  fix w :: world
  assume T: "\<forall>w. P (fsys w) \<longrightarrow> (case m e w of (r, w') \<Rightarrow>
      (\<exists>new. hist w' = new @ hist w \<and> fsys w' = hd (new @ [fsys w]) \<and> (\<forall>g \<in> set new. C g)) \<and>
      (case r of Inl x \<Rightarrow> False | Inr x \<Rightarrow> Q x (fsys w')))" and P: "P (fsys w)"
  obtain r w' where m: "m e w = (r, w')" by fastforce
  show "case attempt m e w of (r, w') \<Rightarrow>
      (\<exists>new. hist w' = new @ hist w \<and> fsys w' = hd (new @ [fsys w]) \<and> (\<forall>g \<in> set new. C g)) \<and>
      (case r of Inl x \<Rightarrow> False | Inr y \<Rightarrow> \<exists>x. y = Inr x \<and> Q x (fsys w'))"
    using T [rule_format, OF P] m by (cases r) (auto simp: attempt_def)
qed

lemma tot_collect:
  assumes "\<And>ys x zs. xs = ys @ x # zs \<Longrightarrow> tot e (J ys) C (m x) (\<lambda>y g. y = v x \<and> J (ys @ [x]) g)"
  shows "tot e (J []) C (collect m xs) (\<lambda>l g. l = map v xs \<and> J xs g)"
proof -
  have "tot e (J ys) C (collect m zs) (\<lambda>l g. l = map v zs \<and> J (ys @ zs) g)" if "xs = ys @ zs" for ys zs
    using that
  proof (induction zs arbitrary: ys)
    case (Cons z zs)
    have a: "tot e (J ys) C (m z) (\<lambda>y g. y = v z \<and> J (ys @ [z]) g)" using assms Cons.prems by blast
    have b: "tot e (J (ys @ [z])) C (collect m zs) (\<lambda>l g. l = map v zs \<and> J ((ys @ [z]) @ zs) g)"
      using Cons.IH [of "ys @ [z]"] Cons.prems by simp
    have "tot e (\<lambda>g. y = v z \<and> J (ys @ [z]) g) C (bnd (collect m zs) (\<lambda>l. ret (y # l))) (\<lambda>l g. l = map v (z # zs) \<and> J (ys @ z # zs) g)" for y
      by (rule tr_pre [where P' = "\<lambda>g. J (ys @ [z]) g \<and> y = v z"], rule tr_pure, rule tr_bnd [OF b]) (auto intro: tr_ret)
    then show ?case unfolding collect.simps by (rule tr_bnd [OF a])
  qed (auto intro: tr_ret)
  from this [of "[]" xs] show ?thesis by simp
qed

lemma job_tot:
  assumes sv: "serves e t reg rp pd pack auth" and c: "clear_of s t" and dry: "\<not> dry_run e" and nm: "plain_path t" "plain_name nm"
    and f: "lookup f (t @ [nm]) = None" and g: "fetching vd s (t @ [nm]) f g" and r: "carried vd pack (rs ! i)"
    and n: "lookup g (t @ [nm, part_name i]) = None"
  shows "tot e ((=) g) (same_but (fetch_area s t f) f) (range_job reg rp pd rs (t @ [nm]) auth u i)
    (\<lambda>y h. y = (rs ! i, Inr (t @ [nm, part_name i])) \<and> added (t @ [nm, part_name i]) (part_data pack rs i) False g h)"
proof -
  let ?p = "t @ [nm, part_name i]" and ?C = "same_but (fetch_area s t f) f"
  obtain a b objs where abc: "rs ! i = (a, b, objs)" by (metis prod.exhaust)
  let ?d = "pack_slice pack a b"
  have w: "in_bounds (int (length pack)) (a, b, objs)" using r abc by (simp add: carried_def)
  have p: "pjoin (t @ [nm]) (CHR ''r'' # show_nat i) = ?p" "plain_path ?p" "strict_prefix t ?p"
    using part_names(1) nm by (simp_all add: part_name_def plain_path_def strict_prefix_def)
  have dl: "downloads e (range_cmd reg rp pd a b ?p auth u) ?p ?d"
    using sv p(2,3) w unfolding serves_def by (simp add: in_bounds_def)
  have fp: "free_place ?p g" using g n sound_wf by (auto simp: free_place_def fetching_def butlast_append)
  have near: "?C h" if "same_but {?p} g h" for h
    by (rule same_but_trans [OF fetching_near [OF g f] that]) (use f in \<open>auto simp: fetch_area_def new_below_def\<close>)
  have get: "tot e ((=) g) ?C (run (range_cmd reg rp pd a b ?p auth u) (\<not> u) True) (\<lambda>_. added ?p ?d False g)"
    by (rule tot_download [OF dl fp dry near])
  have sz: "(int (length ?d) \<noteq> b - a + 1) = False" using pack_slice_length [OF w] by simp
  have "tot e ((=) g) ?C (fetch_range reg rp pd a b ?p auth u) (\<lambda>x h. x = ?p \<and> added ?p ?d False g h)"
    unfolding fetch_range_def
    by (rule tr_bnd [OF get], unfold read_bytes_def, rule tr_reads_const [where v = ?d], simp add: added_def read1_def)
      (simp add: Let_def sz if_do_def bnd_ret triple_def run_simps)
  from tot_attempt [OF this] show ?thesis
    unfolding range_job_def abc prod.case p(1) part_data_def fst_conv snd_conv
    by (rule tr_bnd) (auto intro: tr_ret)
qed

section \<open>Placing what has been fetched\<close>

lemma fetching_shrinks:
  assumes g: "fetching vd s (t @ [nm]) f g" and c: "clear_of s t" and h: "shrinks {t @ [nm, x]} g h"
  shows "fetching vd s (t @ [nm]) f h" "store_kept s g h" "y \<noteq> x \<Longrightarrow> cat h (t @ [nm, y]) = cat g (t @ [nm, y])"
proof -
  have G: "sound_store vd s g" "grows s f g" "lookup g (t @ [nm]) = Some Dir" "same_but ({q. prefix s q} \<union> {q. prefix (t @ [nm]) q}) f g"
    using g by (auto simp: fetching_def)
  have same: "lookup h q = lookup g q \<and> cat h q = cat g q" if "q \<noteq> t @ [nm, x]" for q
    using h that cat_cong [of h q g] unfolding shrinks_def by blast
  have own: "q \<noteq> t @ [nm, x]" if "prefix s q" for q using store_apart [OF c that, of nm] by auto
  have i: "inodes h = inodes g" and less: "lookup h q = lookup g q \<or> lookup h q = None" for q
    using h by (auto simp: shrinks_def)
  have "sound_store vd s h"
    by (rule sound_names [OF G(1) shrinks_wf [OF h] i]) (use same own less in \<open>metis option.distinct(1)\<close>)+
  moreover have gr: "grows s g h" by (rule grows_same) (use same own in blast)
  moreover have "same_but ({q. prefix s q} \<union> {q. prefix (t @ [nm]) q}) f h"
    by (rule same_but_trans [where B = "{t @ [nm, x]}", OF G(4)]) (use same in \<open>auto simp: same_but_def\<close>)
  ultimately show "fetching vd s (t @ [nm]) f h" using same [of "t @ [nm]"] G(3) grows_trans [OF G(2) gr] by (simp add: fetching_def)
  show "store_kept s g h" using gr by (simp add: grows_def)
  show "y \<noteq> x \<Longrightarrow> cat h (t @ [nm, y]) = cat g (t @ [nm, y])" using same by simp
qed

lemma fetching_stored:
  assumes g: "fetching vd s (t @ [nm]) f g" and c: "clear_of s t" and h: "sound_store vd s h" "grows s g h" "outside s g h"
  shows "fetching vd s (t @ [nm]) f h"
proof -
  have G: "grows s f g" "lookup g (t @ [nm]) = Some Dir" "same_but ({q. prefix s q} \<union> {q. prefix (t @ [nm]) q}) f g"
    using g by (auto simp: fetching_def)
  have "\<not> prefix s (t @ [nm])" by (rule temp_apart [OF c]) simp
  then have "lookup h (t @ [nm]) = Some Dir" using h(3) G(2) by (simp add: outside_def)
  moreover have "same_but {q. prefix s q} g h" using h(3) by (simp add: same_but_def outside_def)
  ultimately show ?thesis using h(1) grows_trans [OF G(1) h(2)] same_but_trans [OF G(3)] by (auto simp: fetching_def)
qed

lemma place_tot:
  assumes L: "landing_env vd e s" and c: "clear_of s t" and f: "wf_fs f" "lookup f (t @ [nm]) = None"
    and g: "fetching vd s (t @ [nm]) f g" and r: "carried vd pack (rs ! i)"
    and d: "cat g (t @ [nm, part_name i]) = Some (part_data pack rs i)"
  shows "tot e ((=) g) (same_but (fetch_area s t f) f) (place_range s (rs ! i, Inr (t @ [nm, part_name i])) st)
    (\<lambda>_ h. fetching vd s (t @ [nm]) f h \<and> in_store s (slice_dest s ` set (snd (snd (rs ! i)))) h \<and> store_kept s g h \<and>
       (\<forall>y. y \<noteq> part_name i \<longrightarrow> cat h (t @ [nm, y]) = cat g (t @ [nm, y])))"
proof -
  let ?q = "t @ [nm, part_name i]" and ?C = "same_but (fetch_area s t f) f" and ?D = "part_data pack rs i"
  obtain a b objs where abc: "rs ! i = (a, b, objs)" by (metis prod.exhaust)
  obtain new prog where st: "st = (new, prog)" by fastforce
  let ?A = "slice_dest s ` set objs"
  have sg: "sound_store vd s g" using g by (simp add: fetching_def)
  have due: "\<forall>w \<in> set objs. slice_due e vd s ?D w g"
    using r L abc by (auto simp: carried_def slice_due_def part_data_def)
  have U: "\<Union> ((\<lambda>w. {slice_dest s w}) ` set objs) = ?A" by auto
  have out: "fetching vd s (t @ [nm]) f h \<Longrightarrow> ?C h" for h by (rule fetching_near [OF _ f(2)])
  have apart: "\<not> prefix s (t @ nm # y)" for y by (rule temp_apart [OF c, of nm]) simp
  have near: "?C h" if "outside s g h" for h
    by (rule same_but_trans [where B = "{q. prefix s q}", OF out [OF g]]) (use that in \<open>auto simp: same_but_def outside_def fetch_area_def\<close>)
  let ?R = "\<lambda>h. fetching vd s (t @ [nm]) f h \<and> in_store s ?A h \<and> store_kept s g h \<and> (\<forall>y. cat h (t @ [nm, y]) = cat g (t @ [nm, y]))"
  have slices: "tot e ((=) g) ?C (for_acc (place_slice ?D s) objs 0) (\<lambda>_. ?R)"
  proof (rule tr_total [OF placed_slices.all_land [OF sg due, unfolded U]])
    fix h assume h: "sound_store vd s h \<and> store_inv vd s g h \<and> outside s g h \<and> grows s g h \<and> in_store s ?A h"
    then have H: "sound_store vd s h" "grows s g h" "outside s g h" "in_store s ?A h" by auto
    have "cat h (t @ [nm, y]) = cat g (t @ [nm, y])" for y using H(3) apart by (simp add: outside_def)
    then show "?R h" using fetching_stored [OF g c H(1-3)] H(2,4) by (simp add: grows_def)
  qed (use near in auto)
  have buf: "tot e ((=) g) ?C (place_from_buffer ?q objs s) (\<lambda>_. ?R)"
    unfolding place_from_buffer_def read_bytes_def
    by (rule tr_reads_const [where v = ?D], use cat_read [OF d] in simp, rule slices)
  let ?S = "\<lambda>h. fetching vd s (t @ [nm]) f h \<and> in_store s ?A h \<and> store_kept s g h \<and>
      (\<forall>y. y \<noteq> part_name i \<longrightarrow> cat h (t @ [nm, y]) = cat g (t @ [nm, y]))"
  have del: "tot e ?R ?C (os_unlink ?q) (\<lambda>_. ?S)"
    unfolding os_unlink_def
  proof (rule tr_atomic)
    fix k h assume k: "?R k" and u: "unlink1 ?q k = Inr h"
    then have K: "fetching vd s (t @ [nm]) f k" by blast
    have "wf_fs k" using K sound_wf by (auto simp: fetching_def)
    then have sh: "shrinks {?q} k h" using shrinks_unlink [OF shrinks_refl _ u] by simp
    note F = fetching_shrinks [OF K c sh]
    show "?C h \<and> ?S h" using out [OF F(1)] F k in_store_kept [OF F(2)] store_kept_trans [OF _ F(2)] by simp
  next
    fix k x assume k: "?R k" and u: "unlink1 ?q k = Inl x"
    obtain j where "lookup k ?q = Some (File j)" using k d cat_Some_lookup by metis
    then show False using u by (simp add: unlink1_def)
  qed
  have tried: "tot e ?R ?C (try_except (os_unlink ?q) (\<lambda>x. if x = OSErr ENOENT ?q then ret () else raise x)) (\<lambda>_. ?S)"
    by (rule tr_try [OF del]) (simp add: triple_def)
  show ?thesis
    unfolding place_range_def abc st prod.case bnd_lift snd_conv
    by (rule tr_bnd [OF buf tr_bnd [OF tried tr_bnd [OF tr_progress(1) tr_ret]]]) auto
qed

section \<open>The pool\<close>

text \<open>Every job once, the objects of a set once.\<close>

definition pool_runs :: "env \<Rightarrow> bool" where
  "pool_runs e \<longleftrightarrow> (\<forall>n. distinct (done_order e n) \<and> set (done_order e n) = {..<n})"

lemma pool_order:
  assumes "pool_runs e" "done_order e n = ys @ i # zs"
  shows "i \<notin> set ys" "i < n"
proof -
  have "distinct (done_order e n)" "set (done_order e n) = {..<n}" using assms(1) by (simp_all add: pool_runs_def)
  then have "distinct (ys @ i # zs)" "set (ys @ i # zs) = {..<n}" using assms(2) by simp_all
  then show "i \<notin> set ys" "i < n" by auto
qed

lemma for_acc_map: "for_acc m (map h xs) = for_acc (\<lambda>x. m (h x)) xs"
  by (induction xs) (auto intro!: ext)

definition range_objects :: "path \<Rightarrow> http_range list \<Rightarrow> nat \<Rightarrow> path set" where
  "range_objects s rs i = slice_dest s ` set (snd (snd (rs ! i)))"

text \<open>The parts \<open>ys\<close> are fetched, the others not yet.\<close>

definition fetched :: "(string \<Rightarrow> string) \<Rightarrow> path \<Rightarrow> path \<Rightarrow> string \<Rightarrow> http_range list \<Rightarrow> fs \<Rightarrow> nat list \<Rightarrow> fs \<Rightarrow> bool" where
  "fetched vd s a pack rs f ys h \<longleftrightarrow> fetching vd s a f h \<and> (\<forall>i \<in> set ys. cat h (a @ [part_name i]) = Some (part_data pack rs i)) \<and>
     (\<forall>i. i \<notin> set ys \<longrightarrow> lookup h (a @ [part_name i]) = None)"

lemma jobs_tot:
  assumes L: "\<not> dry_run e" and pool: "pool_runs e" and sv: "serves e t reg rp pd pack auth" and c: "clear_of s t"
    and nm: "plain_path t" "plain_name nm" and f: "lookup f (t @ [nm]) = None" and rs: "\<forall>r \<in> set rs. carried vd pack r"
  shows "tot e (fetched vd s (t @ [nm]) pack rs f []) (same_but (fetch_area s t f) f)
    (collect (range_job reg rp pd rs (t @ [nm]) auth u) (done_order e (length rs)))
    (\<lambda>l h. l = map (\<lambda>i. (rs ! i, Inr (t @ [nm, part_name i]))) (done_order e (length rs)) \<and>
       fetched vd s (t @ [nm]) pack rs f (done_order e (length rs)) h)"
proof (rule tot_collect, rule tr_exact)
  let ?a = "t @ [nm]" and ?C = "same_but (fetch_area s t f) f" and ?q = "\<lambda>i. t @ [nm, part_name i]"
  fix ys i zs h assume w: "done_order e (length rs) = ys @ i # zs" and h: "fetched vd s ?a pack rs f ys h"
  have i: "i \<notin> set ys" "carried vd pack (rs ! i)" using pool_order [OF pool w] rs by auto
  then have H: "fetching vd s ?a f h" "lookup h (?q i) = None" using h by (auto simp: fetched_def)
  show "tot e ((=) h) ?C (range_job reg rp pd rs ?a auth u i) (\<lambda>y k. y = (rs ! i, Inr (?q i)) \<and> fetched vd s ?a pack rs f (ys @ [i]) k)"
  proof (rule tr_total [OF job_tot [OF sv c L nm f H(1) i(2) H(2)]])
    fix y k assume k: "y = (rs ! i, Inr (?q i)) \<and> added (?q i) (part_data pack rs i) False h k"
    note A = fetching_added [OF H(1) c H(2), of "part_data pack rs i" False k]
    have "cat k (?q i) = Some (part_data pack rs i)" using added_cat k by blast
    moreover have "lookup k (?q j) = lookup h (?q j) \<and> cat k (?q j) = cat h (?q j)" if "j \<noteq> i" for j
      using A(3) k part_names(2) that by blast
    ultimately show "y = (rs ! i, Inr (?q i)) \<and> fetched vd s ?a pack rs f (ys @ [i]) k"
      using A(2) k h unfolding fetched_def append_assoc append_Cons append_Nil
      by (metis (no_types, lifting) Un_iff set_append list.set_intros(1) set_ConsD empty_iff empty_set)
  qed auto
qed

text \<open>The objects of the parts \<open>ys\<close> are in the store, the parts of \<open>zs\<close> wait.\<close>

definition unpacked :: "(string \<Rightarrow> string) \<Rightarrow> path \<Rightarrow> path \<Rightarrow> string \<Rightarrow> http_range list \<Rightarrow> fs \<Rightarrow> nat set \<Rightarrow> nat set \<Rightarrow> fs \<Rightarrow> bool" where
  "unpacked vd s a pack rs f Y Z h \<longleftrightarrow> fetching vd s a f h \<and> in_store s (\<Union>i \<in> Y. range_objects s rs i) h \<and>
     (\<forall>i \<in> Z. cat h (a @ [part_name i]) = Some (part_data pack rs i))"

lemma places_tot:
  assumes L: "landing_env vd e s" and pool: "pool_runs e" and c: "clear_of s t" and f: "wf_fs f" "lookup f (t @ [nm]) = None"
    and rs: "\<forall>r \<in> set rs. carried vd pack r" and o: "o' = done_order e (length rs)"
  shows "tot e (unpacked vd s (t @ [nm]) pack rs f {} (set o')) (same_but (fetch_area s t f) f)
    (for_acc (\<lambda>i. place_range s (rs ! i, Inr (t @ [nm, part_name i]))) o' st) (\<lambda>_. unpacked vd s (t @ [nm]) pack rs f (set o') {})"
proof -
  let ?a = "t @ [nm]" and ?C = "same_but (fetch_area s t f) f" and ?q = "\<lambda>i. t @ [nm, part_name i]"
  let ?J = "\<lambda>ys. unpacked vd s ?a pack rs f (set ys) (set o' - set ys)"
  have "tot e (?J []) ?C (for_acc (\<lambda>i. place_range s (rs ! i, Inr (?q i))) o' st) (\<lambda>_. ?J o')"
  proof (rule tr_for_acc_inv [where J = "\<lambda>ys _. ?J ys"], rule tr_exact)
    fix ys i zs h and st :: "int \<times> progress" assume w: "o' = ys @ i # zs" and h: "?J ys h"
    have i: "i \<in> set o' - set ys" "carried vd pack (rs ! i)" using pool_order [OF pool w [unfolded o]] rs w by auto
    then have H: "fetching vd s ?a f h" "cat h (?q i) = Some (part_data pack rs i)" using h by (auto simp: unpacked_def)
    show "tot e ((=) h) ?C (place_range s (rs ! i, Inr (?q i)) st) (\<lambda>_. ?J (ys @ [i]))"
    proof (rule tr_total [OF place_tot [OF L c f H(1) i(2) H(2)]])
      fix k assume k: "fetching vd s ?a f k \<and> in_store s (slice_dest s ` set (snd (snd (rs ! i)))) k \<and> store_kept s h k \<and>
         (\<forall>y. y \<noteq> part_name i \<longrightarrow> cat k (t @ [nm, y]) = cat h (t @ [nm, y]))"
      then have "in_store s (\<Union>i \<in> set ys. range_objects s rs i) k"
        using in_store_kept [of s h k] h by (simp add: unpacked_def)
      moreover have "in_store s (range_objects s rs i) k" using k by (simp add: range_objects_def)
      ultimately have "in_store s (\<Union>i \<in> set (ys @ [i]). range_objects s rs i) k" by (auto simp: in_store_def)
      moreover have "cat k (?q j) = Some (part_data pack rs j)" if "j \<in> set o' - set (ys @ [i])" for j
      proof -
        have "part_name j \<noteq> part_name i" using that part_names(2) by auto
        then have "cat k (?q j) = cat h (?q j)" using k by blast
        then show ?thesis using h that by (simp add: unpacked_def)
      qed
      ultimately show "?J (ys @ [i]) k" using k by (simp add: unpacked_def)
    qed auto
  qed
  then show ?thesis by simp
qed

lemma fetch_and_place_tot:
  assumes L: "landing_env vd e s" and pool: "pool_runs e" and sv: "serves e t reg rp pd pack auth" and c: "clear_of s t"
    and nm: "plain_path t" "plain_name nm" and f: "wf_fs f" "lookup f (t @ [nm]) = None" and rs: "\<forall>r \<in> set rs. carried vd pack r"
    and g: "fetching vd s (t @ [nm]) f g" "\<And>y. lookup g (t @ [nm, y]) = None"
  shows "tot e ((=) g) (same_but (fetch_area s t f) f) (fetch_and_place reg rp pd rs s present auth (t @ [nm]))
    (\<lambda>_ h. fetching vd s (t @ [nm]) f h \<and> in_store s (\<Union>i < length rs. range_objects s rs i) h)"
proof -
  let ?C = "same_but (fetch_area s t f) f" and ?o = "done_order e (length rs)" and ?a = "t @ [nm]"
  let ?Q = "\<lambda>_. unpacked vd s ?a pack rs f (set ?o) {}" and ?job = "\<lambda>i. (rs ! i, Inr (t @ [nm, part_name i]))"
  have dry: "\<not> dry_run e" using L by (simp add: landing_env_def)
  have o: "set ?o = {..<length rs}" using pool by (simp add: pool_runs_def)
  note jobs = jobs_tot [OF dry pool sv c nm f(2) rs] and places = places_tot [OF L pool c f rs refl]
  have sum: "tot e (?Q x) ?C (summary x' y z j pr) ?Q" for x x' y z j pr
    unfolding summary_def by (rule tr_bnd [OF tr_elapsed tr_bnd [OF tr_elapsed tr_status(1)]]) auto
  have tail: "tot e (\<lambda>h. l = map ?job ?o \<and> fetched vd s ?a pack rs f ?o h) ?C
      (bnd (for_acc (place_range s) l (0, pr)) (\<lambda>st. summary present (fst st) n j (snd st))) ?Q" for l pr n j
  proof (rule tr_pre [where P' = "\<lambda>h. unpacked vd s ?a pack rs f {} (set ?o) h \<and> l = map ?job ?o"], rule tr_pure)
    assume l: "l = map ?job ?o"
    show "tot e (unpacked vd s ?a pack rs f {} (set ?o)) ?C (bnd (for_acc (place_range s) l (0, pr)) (\<lambda>st. summary present (fst st) n j (snd st))) ?Q"
      unfolding l for_acc_map by (rule tr_bnd [OF places sum])
  qed (auto simp: fetched_def unpacked_def in_store_def)
  have "fetched vd s ?a pack rs f [] g" using g by (simp add: fetched_def)
  then have start: "tot e ((=) g) ?C (progress_new n l) (\<lambda>_. fetched vd s ?a pack rs f [])" for n l by (intro tr_progress(2)) auto
  have fin: "fetching vd s ?a f h \<and> in_store s (\<Union>i < length rs. range_objects s rs i) h" if "?Q x h" for x h
    using that by (simp add: unpacked_def o lessThan_def [symmetric])
  show ?thesis unfolding fetch_and_place_def Let_def
    by (intro tr_asks_bnd, rule tr_bnd [OF start], intro tr_asks_bnd, rule tr_conseq_x [OF tr_bnd [OF jobs tail]]) (use fin in auto)
qed

section \<open>The whole landing\<close>

definition fetch_env :: "(string \<Rightarrow> string) \<Rightarrow> env \<Rightarrow> path \<Rightarrow> bool" where
  "fetch_env vd e s \<longleftrightarrow> landing_env vd e s \<and> pool_runs e \<and> (\<forall>xs. set (set_order e xs) = set xs) \<and>
     has_tool e ''oras'' \<and> has_tool e ''composefs-info'' \<and> has_tool e ''curl''"

lemma tot_require: "has_tool e nm \<Longrightarrow> (\<And>f. P f \<Longrightarrow> Q () f) \<Longrightarrow> xtriple e P C X (require_tool nm) Q"
  by (auto simp: require_tool_def triple_def run_simps)

lemma pack_by_range_tot:
  assumes E: "fetch_env vd e s" and t: "tempdir t e" "clear_of s t" and f: "sound_store vd s f" "lookup f t = Some Dir"
    and repo: "split1 (CHR ''/'') repo = [reg, rp]" and auth: "authorized e repo auth" and sv: "serves e t reg rp pd pack auth"
    and w: "by_offset want" "\<forall>(offs, len, d) \<in> set want. is_digest d \<and> map_of index d = Some (offs, len)" and i: "describes vd index pack"
  shows "tot e ((=) f) (same_but (fetch_area s t f) f) (land_pack_by_range repo pd want s present)
    (\<lambda>_ h. sound_store vd s h \<and> grows s f h \<and> outside s f h \<and> in_store s (slice_dest s ` set want) h)"
proof -
  let ?C = "same_but (fetch_area s t f) f" and ?Q = "\<lambda>_ h. sound_store vd s h \<and> grows s f h \<and> outside s f h \<and> in_store s (slice_dest s ` set want) h"
  have L: "landing_env vd e s" and pool: "pool_runs e" and curl: "has_tool e ''curl''" and dry: "\<not> dry_run e"
    using E by (auto simp: fetch_env_def landing_env_def)
  note wf = sound_wf [OF f(1)]
  define rs where "rs = coalesce_ranges want (COALESCE_GAP e)"
  have rs: "\<forall>r \<in> set rs. carried vd pack r" using ranges_carried [OF w i] by (simp add: rs_def)
  have covers: "slice_dest s ` set want \<subseteq> (\<Union>i < length rs. range_objects s rs i)"
  proof
    fix p assume "p \<in> slice_dest s ` set want"
    then obtain offs len d where x: "(offs, len, d) \<in> set want" "p = s @ [take 2 d, drop 2 d]" by (auto simp: slice_dest_def)
    obtain r y where r: "r \<in> set rs" "y \<in> set (snd (snd r))" "slice_dest s y = p"
      using ranges_carry(1) [OF x(1), of "COALESCE_GAP e"] x(2) by (fastforce simp: rs_def slice_dest_def)
    obtain i where "i < length rs" "r = rs ! i" using r(1) by (auto simp: in_set_conv_nth)
    then show "p \<in> (\<Union>i < length rs. range_objects s rs i)" using r(2,3) by (auto simp: range_objects_def)
  qed
  have area: "?C h" if "same_but (new_below t f) f h" for h
    using that by (auto simp: same_but_def fetch_area_def)
  have temp: "tot e ((=) f) ?C (bnd (mkdtemp ''zerith-pack-'') (\<lambda>stg.
      try_finally (fetch_and_place reg rp pd rs s present auth stg) (rmtree_quiet stg))) ?Q"
  proof (rule tot_in_temp [OF t(1) _ wf f(2) area])
    fix nm assume nm: "plain_name nm" "lookup f (t @ [nm]) = None"
    note G = fetching_start [OF f t(2) nm(2)]
    have none: "lookup (set_entry (t @ [nm]) Dir f) (t @ [nm, y]) = None" for y
      using wf_no_child [OF wf, of "t @ [nm]" y] nm(2) by (simp add: fs_simps)
    have pt: "plain_path t" using t(1) by (simp add: tempdir_def)
    show "tot e ((=) (set_entry (t @ [nm]) Dir f)) ?C (fetch_and_place reg rp pd rs s present auth (t @ [nm]))
        (\<lambda>x g. wf_fs g \<and> lookup g (t @ [nm]) = Some Dir \<and> (\<forall>h. shrinks {q. prefix (t @ [nm]) q} g h \<longrightarrow> ?C h) \<and>
          (\<forall>h. removed (t @ [nm]) g h \<longrightarrow> ?Q x h))"
    proof (rule tr_total [OF fetch_and_place_tot [OF L pool sv t(2) pt nm(1) wf nm(2) rs G none]])
      fix g assume g: "fetching vd s (t @ [nm]) f g \<and> in_store s (\<Union>i < length rs. range_objects s rs i) g"
      then have H: "fetching vd s (t @ [nm]) f g" by blast
      note E = fetching_ends [OF H t(2) wf nm(2)]
      have "in_store s (slice_dest s ` set want) h" if "removed (t @ [nm]) g h" for h
      proof -
        have "lookup h q = lookup g q" if "stored s q" for q
        proof -
          have "\<not> prefix (t @ [nm]) q" by (rule store_apart [OF t(2)]) (use that in \<open>simp add: stored_def strict_prefix_def\<close>)
          then show ?thesis using \<open>removed (t @ [nm]) g h\<close> by (simp add: removed_def)
        qed
        then have "in_store s (\<Union>i < length rs. range_objects s rs i) h" using g unfolding in_store_def by metis
        then show ?thesis using covers unfolding in_store_def by blast
      qed
      moreover have "wf_fs g" "lookup g (t @ [nm]) = Some Dir" using H sound_wf by (auto simp: fetching_def)
      ultimately show "wf_fs g \<and> lookup g (t @ [nm]) = Some Dir \<and> (\<forall>h. shrinks {q. prefix (t @ [nm]) q} g h \<longrightarrow> ?C h) \<and>
          (\<forall>h. removed (t @ [nm]) g h \<longrightarrow> ?Q x h)" for x :: unit using E by blast
    qed auto
  qed (simp add: plain_name_def)
  show ?thesis unfolding land_pack_by_range_def Let_def rs_def [symmetric]
    by (rule tr_bnd [OF tot_require [OF curl, where Q = "\<lambda>_. (=) f"]], simp, intro tr_asks_bnd, simp only: dry if_False,
        rule tr_bnd [OF tot_auth [OF auth dry]], rule tr_pure) (simp only: repo list.case rs_def [symmetric] temp)
qed

text \<open>The registry publishes what the source's metadata refers to.\<close>

definition published :: "env \<Rightarrow> path \<Rightarrow> source \<Rightarrow> (string \<times> int \<times> int) list \<Rightarrow> string \<Rightarrow> bool" where
  "published e t src index pack \<longleftrightarrow> (\<exists>oref reg rp pm pd im ids raw auth.
     src_objects_ref src = Inr (JStr oref) \<and> oref \<noteq> [] \<and> split1 (CHR ''/'') (ref_repo oref) = [reg, rp] \<and>
     src_objects_pack src = Inr pm \<and> meta_item pm ''digest'' = Inr pd \<and>
     src_objects_index src = Inr im \<and> meta_item im ''digest'' = Inr ids \<and> index_text e im raw index \<and>
     authorized e (ref_repo oref) auth \<and> serves e t reg rp pd pack auth \<and>
     (\<forall>p. plain_path p \<longrightarrow> strict_prefix t p \<longrightarrow>
        downloads e [''oras'', ''blob'', ''fetch'', ref_repo oref @ ''@'' @ json_str ids, ''--output'', path_str p] p raw))"

text \<open>The objects of the image that the index lists; the others are inlined in the image.\<close>

definition packed :: "path \<Rightarrow> (string \<times> int \<times> int) list \<Rightarrow> string \<Rightarrow> path set" where
  "packed s index listing = (\<lambda>d. s @ object_path d) ` {d \<in> digests_of listing. map_of index d \<noteq> None}"

lemma packed_landed:
  assumes w: "in_store s (slice_dest s ` to_fetch s index listing g) h" and k: "store_kept s g h"
  shows "in_store s (packed s index listing) h"
  unfolding in_store_def
proof
  fix q assume "q \<in> packed s index listing"
  then obtain d offs len where x: "d \<in> digests_of listing" "map_of index d = Some (offs, len)" "q = s @ object_path d"
    by (auto simp: packed_def)
  have sq: "stored s q" using stored_names digest_names(1) x(1,3) by (simp add: digests_of_def object_path_def)
  show "stored s q \<and> lookup h q \<noteq> None"
  proof (cases "lookup g q")
    case None
    then have "(offs, len, d) \<in> to_fetch s index listing g" using x by (simp add: to_fetch_def)
    moreover have "slice_dest s (offs, len, d) = q" by (simp add: slice_dest_def x(3) object_path_def)
    ultimately show ?thesis using w unfolding in_store_def by (metis image_eqI)
  next
    case (Some n)
    then show ?thesis using k sq by (simp add: store_kept_def)
  qed
qed

text \<open>From the index on.\<close>

lemma land_missing_tot:
  assumes E: "fetch_env vd e s" and t: "tempdir t e" "clear_of s t" and g: "sound_store vd s g" "lookup g t = Some Dir"
    and repo: "split1 (CHR ''/'') repo = [reg, rp]" and auth: "authorized e repo auth" and sv: "serves e t reg rp pd pack auth"
    and i: "describes vd index pack" and d: "dump_tool e (src_root_cfs src) listing g"
  shows "tot e ((=) g) (same_but (fetch_area s t g) g) (bnd (missing_objects src s index) (\<lambda>(want, inlined, present).
       bnd (if_do (inlined \<noteq> 0) (vlog (m inlined))) (\<lambda>_.
       if want = [] then log (n present) else land_pack_by_range repo pd want s present)))
    (\<lambda>_ h. sound_store vd s h \<and> grows s g h \<and> outside s g h \<and> in_store s (packed s index listing) h)"
proof -
  let ?C = "same_but (fetch_area s t g) g"
  let ?Q = "\<lambda>(_::unit) h. sound_store vd s h \<and> grows s g h \<and> outside s g h \<and> in_store s (packed s index listing) h"
  have o: "has_tool e ''composefs-info''" "\<forall>xs. set (set_order e xs) = set xs" using E by (auto simp: fetch_env_def)
  have ok: "store_ok vd s g" using g(1) by (simp add: sound_store_def)
  have miss: "tot e ((=) g) ?C (missing_objects src s index) (\<lambda>(want, _) h. g = h \<and> by_offset want \<and> set want = to_fetch s index listing g)"
    by (rule missing_tot [OF o(1) _ _ _ o(2) ok]) (use d in \<open>simp_all add: dump_tool_def\<close>)
  have land: "tot e (\<lambda>h. g = h \<and> by_offset want \<and> set want = to_fetch s index listing g) ?C
      (bnd (if_do (inlined \<noteq> 0) (vlog (m inlined))) (\<lambda>_.
        if want = [] then log (n present) else land_pack_by_range repo pd want s present)) ?Q" for want inlined present
  proof (rule tr_pure, rule tr_bnd [where R = "\<lambda>_. (=) g"])
    assume w: "by_offset want \<and> set want = to_fetch s index listing g"
    show "tot e ((=) g) ?C (if_do (inlined \<noteq> 0) (vlog (m inlined))) (\<lambda>_. (=) g)" by (intro tr_if_do tr_vlog) auto
    show "tot e ((=) g) ?C (if want = [] then log (n present) else land_pack_by_range repo pd want s present) ?Q"
    proof (cases "want = []")
      case True
      then have "to_fetch s index listing g = {}" using w by (metis empty_set)
      then have "in_store s (packed s index listing) g" by (intro packed_landed [where g = g]) (simp_all add: in_store_def store_kept_def)
      then have "?Q () g" using g(1) grows_same [of s g g] by simp
      then show ?thesis using True by (auto intro!: tr_log)
    next
      case False
      have wd: "\<forall>(offs, len, d) \<in> set want. is_digest d \<and> map_of index d = Some (offs, len)"
        using w by (auto simp: to_fetch_def digests_of_def)
      show ?thesis unfolding if_not_P [OF False]
        by (rule tr_total [OF pack_by_range_tot [OF E t g repo auth sv w [THEN conjunct1] wd i]])
          (use w packed_landed in \<open>auto simp: grows_def\<close>)
    qed
  qed
  show ?thesis by (rule tr_bnd [OF miss]) (use land in \<open>auto split: prod.split\<close>)
qed

lemma land_from_pack_tot:
  assumes E: "fetch_env vd e s" and t: "tempdir t e" "clear_of s t" and p: "published e t src index pack" "describes vd index pack"
    and d: "dump_tool e (src_root_cfs src) listing f" "\<not> prefix s (src_root_cfs src)"
    and f: "sound_store vd s f" "lookup f t = Some Dir"
  shows "tot e ((=) f) (same_but (fetch_area s t f) f) (land_from_pack src s)
    (\<lambda>_ h. sound_store vd s h \<and> grows s f h \<and> outside s f h \<and> in_store s (packed s index listing) h)"
proof -
  let ?C = "same_but (fetch_area s t f) f" and ?I = "\<lambda>h. sound_store vd s h \<and> grows s f h \<and> outside s f h"
  let ?Q = "\<lambda>(_::unit) h. sound_store vd s h \<and> grows s f h \<and> outside s f h \<and> in_store s (packed s index listing) h"
  obtain oref reg rp pm pd im ids raw auth where P: "src_objects_ref src = Inr (JStr oref)" "oref \<noteq> []"
      "split1 (CHR ''/'') (ref_repo oref) = [reg, rp]" "src_objects_pack src = Inr pm" "meta_item pm ''digest'' = Inr pd"
      "src_objects_index src = Inr im" "meta_item im ''digest'' = Inr ids" "index_text e im raw index"
      "authorized e (ref_repo oref) auth" "serves e t reg rp pd pack auth"
    and dl: "\<And>p. plain_path p \<Longrightarrow> strict_prefix t p \<Longrightarrow>
        downloads e [''oras'', ''blob'', ''fetch'', ref_repo oref @ ''@'' @ json_str ids, ''--output'', path_str p] p raw"
    using p(1) unfolding published_def by blast
  have tools: "has_tool e ''oras''" "has_tool e ''composefs-info''" "has_tool e ''curl''" "\<not> dry_run e"
    using E by (auto simp: fetch_env_def landing_env_def)
  have far: "\<not> prefix s t" "\<And>nm. \<not> prefix s (t @ [nm])" using t(2) temp_apart [OF t(2)] by (auto simp: clear_of_def)
  have rest: "tot e (\<lambda>h. x = index \<and> ?I h) ?C (bnd (missing_objects src s x) (\<lambda>(want, inlined, present).
       bnd (if_do (inlined \<noteq> 0) (vlog (m inlined))) (\<lambda>_.
       if want = [] then log (n present) else land_pack_by_range (ref_repo oref) pd want s present))) ?Q" for x m n
  proof (rule tr_exact)
    fix g assume "x = index \<and> ?I g"
    then have x: "x = index" and G: "sound_store vd s g" "grows s f g" "outside s f g" by auto
    have tg: "lookup g t = Some Dir" and "lookup g (t @ [nm]) = lookup f (t @ [nm])" for nm
      using G(3) f(2) far by (auto simp: outside_def)
    note nb = new_below_same [OF this(2)]
    have dump: "dump_tool e (src_root_cfs src) listing g" using d G(3) by (simp add: dump_tool_def outside_def)
    show "tot e ((=) g) ?C (bnd (missing_objects src s x) (\<lambda>(want, inlined, present).
       bnd (if_do (inlined \<noteq> 0) (vlog (m inlined))) (\<lambda>_.
       if want = [] then log (n present) else land_pack_by_range (ref_repo oref) pd want s present))) ?Q"
      unfolding x
    proof (rule tr_conseq_x [OF land_missing_tot [OF E t G(1) tg P(3,9,10) p(2) dump]])
      show "?C h" if "same_but (fetch_area s t g) g h" for h
        using that G(3) nb by (auto simp: same_but_def outside_def fetch_area_def)
    qed (use grows_trans [OF G(2)] outside_trans [OF G(3)] in auto)
  qed
  have req: "tot e ((=) f) ?C (steps [require_tool ''oras'', require_tool ''composefs-info'', require_tool ''curl'']) (\<lambda>_. (=) f)"
    unfolding steps.simps
    by (rule tr_bnd [OF tot_require [OF tools(1)] tr_bnd [OF tot_require [OF tools(2)] tr_bnd [OF tot_require [OF tools(3)] tr_ret]]]) auto
  have tr: "truthy (JStr oref)" using P(2) by simp
  note index = fetch_index_tot [OF t tools(4) f P(7,8) dl]
  have no: "if_do False k = ret ()" for k by (simp add: if_do_def)
  show ?thesis unfolding land_from_pack_def P(1,4-6) bnd_lift json.case
    by (rule tr_bnd [OF req], simp only: tr not_True_eq_False no bnd_ret,
        rule tr_bnd [OF index rest])
qed

end
