(* ===== verification/Bootloader.thy ===== *)
theory Bootloader
  imports Runtime
begin

text \<open>
  \<open>zerith/bootloader.py\<close>: the static Limine configuration, the loader on the ESP fallback
  path and the NVRAM entry. \<open>/proc\<close> and \<open>/sys\<close> are read through the same file system as
  everything else; \<open>/sys/class/block/NAME\<close> is a link, resolved before what is below it.
\<close>

section \<open>The static configuration\<close>

definition LIMINE_CONF :: string where
  "LIMINE_CONF = concat (map (\<lambda>l. l @ [NL])
     [''timeout: 3'', ''default_entry: 1'', [],
      ''/Zerith'', ''    protocol: efi_chainload'', ''    path: boot():/zerith/current.efi'', [],
      ''/Zerith (previous)'', ''    protocol: efi_chainload'', ''    path: boot():/zerith/fallback.efi''])"

definition write_limine_conf :: "path \<Rightarrow> unit proc" where
  "write_limine_conf efi =
     (let p = pjoin efi ''limine.conf'' in
      bnd (asks dry_run) (\<lambda>dry.
      if dry then steps
        [log (''[dry-run] write '' @ path_str p @ '' (static current/fallback)''), vlog LIMINE_CONF]
      else
        bnd (gets (\<lambda>f. path_exists f p)) (\<lambda>there.
        if there then vlog (path_str p @ '' already present, leaving it'')
        else steps [write_text p LIMINE_CONF, vlog (''wrote '' @ path_str p)])))"

section \<open>The partition behind the ESP\<close>

text \<open>\<open>s.replace(old, new)\<close>, for a non-empty \<open>old\<close>.\<close>

function replace_all :: "string \<Rightarrow> string \<Rightarrow> string \<Rightarrow> string" where
  "replace_all old new s =
     (if s = [] \<or> old = [] then s
      else if startswith s old then new @ replace_all old new (drop (length old) s)
      else hd s # replace_all old new (tl s))"
  by pat_completeness auto
termination by (relation "measure (\<lambda>(_, _, s). length s)") auto

declare replace_all.simps [simp del]

definition unescape :: "string \<Rightarrow> string" where
  "unescape p =
     replace_all (BACKSLASH # ''134'') [BACKSLASH]
       (replace_all (BACKSLASH # ''012'') [NL]
         (replace_all (BACKSLASH # ''011'') [CHR 0x09]
           (replace_all (BACKSLASH # ''040'') '' '' p)))"

text \<open>\<open>os.path.realpath\<close>; a chain of links that does not end stays as it is.\<close>

definition real :: "fs \<Rightarrow> path \<Rightarrow> path" where
  "real f p = (case realpath f p of Some q \<Rightarrow> q | None \<Rightarrow> p)"

definition mount_line :: "fs \<Rightarrow> path \<Rightarrow> string \<Rightarrow> string option \<Rightarrow> string option" where
  "mount_line f target line found =
     (case split_ws line of
        dev # mnt # _ \<Rightarrow>
          if startswith dev ''/dev/'' \<and> real f (comps (unescape mnt)) = target then Some dev else found
      | _ \<Rightarrow> found)"

definition esp_block_device :: "path \<Rightarrow> string option proc" where
  "esp_block_device efi =
     bnd (gets (\<lambda>f. real f efi)) (\<lambda>target.
     bnd (read_text [''proc'', ''mounts'']) (\<lambda>text.
     gets (\<lambda>f. fold (mount_line f target) (splitlines text) None)))"

definition disk_and_partnum :: "string \<Rightarrow> (string \<times> string) option proc" where
  "disk_and_partnum part_dev =
     (let sysblk = pjoin [''sys'', ''class'', ''block''] (basename part_dev) in
      bnd (gets (\<lambda>f. real f sysblk)) (\<lambda>dev.
      let pfile = dev @ [''partition''] in
      bnd (gets (\<lambda>f. is_file f pfile)) (\<lambda>there.
      if \<not> there then ret None
      else
        bnd (read_text pfile) (\<lambda>text.
        let parent = (if butlast dev = [] then [] else last (butlast dev)) in
        ret (if parent = [] then None else Some (''/dev/'' @ parent, strip text))))))"

text \<open>\<open>re.search(r"p?(\d+)$", s)\<close>: the digits at the end, a last line end not counted.\<close>

definition part_number :: "string \<Rightarrow> string option" where
  "part_number s =
     (let t = (if s \<noteq> [] \<and> last s = NL then butlast s else s);
          d = rev (takeWhile is_digit (rev t))
      in if d = [] then None else Some d)"

definition resolve_disk_partition ::
  "path \<Rightarrow> path option \<Rightarrow> string option \<Rightarrow> (path option \<times> string option) proc" where
  "resolve_disk_partition efi disk esp_part =
     (let part_num = (case esp_part of None \<Rightarrow> None | Some s \<Rightarrow> part_number s) in
      if disk = None \<or> part_num = None then
        bnd (esp_block_device efi) (\<lambda>dev.
        bnd (case dev of None \<Rightarrow> ret None | Some d \<Rightarrow> disk_and_partnum d) (\<lambda>resolved.
        case resolved of
          None \<Rightarrow> ret (disk, part_num)
        | Some (d, n) \<Rightarrow> ret (Some (case disk of Some p \<Rightarrow> p | None \<Rightarrow> comps d),
                             (case part_num of Some k \<Rightarrow> Some k | None \<Rightarrow> Some n))))
      else ret (disk, part_num))"

section \<open>Installing the loader\<close>

definition resolve_loader :: "path option \<Rightarrow> path option proc" where
  "resolve_loader loader_src =
     bnd (gets (\<lambda>f. case loader_src of Some p \<Rightarrow> is_file f p | None \<Rightarrow> False)) (\<lambda>there.
     if there then ret loader_src
     else bnd (log (''warning: deployment artifact has no Limine loader; skipping bootloader ''
            @ ''install (boot relies on an already-present loader)'')) (\<lambda>_. ret None))"

text \<open>\<open>sub in s\<close>\<close>

fun contains :: "string \<Rightarrow> string \<Rightarrow> bool" where
  "contains sub [] \<longleftrightarrow> sub = []"
| "contains sub (c # s) \<longleftrightarrow> startswith (c # s) sub \<or> contains sub s"

definition create_nvram_entry :: "path \<Rightarrow> string \<Rightarrow> unit proc" where
  "create_nvram_entry disk part_num =
     bnd (asks (\<lambda>e. has_tool e ''efibootmgr'')) (\<lambda>have.
     if \<not> have then log ''note: efibootmgr not found; booting via the fallback path only''
     else
       bnd (gets (\<lambda>f. path_exists f [''sys'', ''firmware'', ''efi'', ''efivars''])) (\<lambda>vars.
       if \<not> vars then log ''note: efivars not mounted; booting via the fallback path only''
       else
         bnd (run_out [''efibootmgr'']) (\<lambda>entries.
         if contains EFI_LABEL entries then
           vlog (''UEFI boot entry '' @ CHR 0x27 # EFI_LABEL @ CHR 0x27 # '' already present, leaving it'')
         else steps
           [run_do [''efibootmgr'', ''--create'', ''--disk'', path_str disk, ''--part'', part_num,
              ''--label'', EFI_LABEL,
              ''--loader'', BACKSLASH # ''EFI'' @ BACKSLASH # ''BOOT'' @ BACKSLASH # ''BOOTX64.EFI'', ''--unicode''],
            log ''Limine boot entry created''])))"

definition install_limine :: "path \<Rightarrow> path option \<Rightarrow> string option \<Rightarrow> path option \<Rightarrow> unit proc" where
  "install_limine efi disk esp_part loader_src =
     bnd (asks dry_run) (\<lambda>dry.
     if dry then log ''[dry-run] install Limine (copy loader + efibootmgr entry)''
     else
       bnd (resolve_loader loader_src) (\<lambda>loader. case loader of
         None \<Rightarrow> ret ()
       | Some l \<Rightarrow>
           (let dest = pjoin (pjoin (pjoin efi ''EFI'') ''BOOT'') BOOTLOADER_NAME in
            bnd (mkdirs (butlast dest)) (\<lambda>_.
            bnd (copy2 l dest) (\<lambda>_.
            bnd (vlog (''copied Limine loader to '' @ path_str dest)) (\<lambda>_.
            bnd (resolve_disk_partition efi disk esp_part) (\<lambda>(dsk, num).
            case (dsk, num) of
              (Some d, Some n) \<Rightarrow> create_nvram_entry d n
            | _ \<Rightarrow> log (''note: could not resolve ESP disk/partition; booting via the ''
                 @ ''fallback path only (no labelled NVRAM entry)''))))))))"

section \<open>Partition numbers\<close>

text \<open>The number is read off the end of a partition node's name.\<close>

lemma part_number_suffix:
  assumes "\<forall>c \<in> set n. is_digit c" "n \<noteq> []" "s = [] \<or> \<not> is_digit (last s)"
  shows "part_number (s @ n) = Some n"
proof -
  have "\<not> is_digit NL" by (simp add: is_digit_def code_def)
  then have "last n \<noteq> NL" using assms(1) last_in_set [OF assms(2)] by metis
  then have l: "(if s @ n \<noteq> [] \<and> last (s @ n) = NL then butlast (s @ n) else s @ n) = s @ n"
    using assms(2) by simp
  have "takeWhile is_digit (rev n @ rev s) = rev n"
  proof (cases "rev s")
    case Nil
    then show ?thesis using assms(1) takeWhile_all_app [of "rev n" is_digit] by simp
  next
    case (Cons c r)
    then have "s = rev r @ [c]" by (simp add: rev_eq_Cons_iff)
    then have "last s = c" "s \<noteq> []" by simp_all
    then show ?thesis using assms(1,3) Cons takeWhile_app_stop [of "rev n" is_digit c r] by simp
  qed
  then show ?thesis using assms(2) unfolding part_number_def l Let_def by simp
qed

section \<open>Disk invariants\<close>

lemma keeps_resolving [tr_rules]:
  "keeps e I (esp_block_device p)" "keeps e I (disk_and_partnum d)" "keeps e I (resolve_disk_partition p q r)"
  "keeps e I (resolve_loader q)"
proof -
  show a: "keeps e I (esp_block_device p)" for p
    unfolding esp_block_device_def by (intro tr_rules)
  show b: "keeps e I (disk_and_partnum d)" for d
    unfolding disk_and_partnum_def Let_def by (intro tr_rules)
  show "keeps e I (resolve_disk_partition p q r)"
    unfolding resolve_disk_partition_def Let_def by (intro tr_rules a b) (auto intro!: tr_rules split: prod.split)
  show "keeps e I (resolve_loader q)"
    unfolding resolve_loader_def by (intro tr_rules)
qed

context disk_invariant
begin

lemma keeps_bootloader [tr_rules]:
  assumes "tools_keep I e"
  shows "keeps e I (write_limine_conf p)" "keeps e I (install_limine p d q l)"
proof -
  show "keeps e I (write_limine_conf p)"
    unfolding write_limine_conf_def Let_def by (intro tr_rules keeps_steps) (auto intro: tr_rules)
  have n: "keeps e I (create_nvram_entry d k)" for d k
    unfolding create_nvram_entry_def by (intro tr_rules assms keeps_steps) (auto intro!: tr_rules assms)
  show "keeps e I (install_limine p d q l)"
    unfolding install_limine_def Let_def case_prod_unfold
    by (intro tr_rules) (auto intro!: tr_rules n split: option.split)
qed

end

end
