(* ===== verification/Installer.thy ===== *)
theory Installer
  imports Lifecycle Bootloader
begin

text \<open>
  \<open>zerith/installer.py\<close>: the layout of a fresh system and its first deployment.
\<close>

definition ensure_subvolume :: "path \<Rightarrow> string \<Rightarrow> unit proc" where
  "ensure_subvolume sysroot sub =
     (let p = pjoin sysroot sub in
      bnd (asks dry_run) (\<lambda>dry.
      bnd (gets (\<lambda>f. path_exists f p)) (\<lambda>there.
      if \<not> dry \<and> there then vlog (''subvolume '' @ sub @ '' already present'')
      else run_do [''btrfs'', ''subvolume'', ''create'', path_str p])))"

definition ensure_dir :: "path \<Rightarrow> unit proc" where
  "ensure_dir d =
     bnd (asks dry_run) (\<lambda>dry.
     if dry then log (''[dry-run] mkdir -p '' @ path_str d)
     else steps [mkdirs d, vlog (''ensured dir '' @ path_str d)])"

definition init_layout :: "path \<Rightarrow> path \<Rightarrow> unit proc" where
  "init_layout sysroot efi = steps
     [for_each (ensure_subvolume sysroot) [''@var'', ''@home'', ''@deploy''],
      for_each ensure_dir
        [pjoin (pjoin (pjoin sysroot ''@deploy'') ''shared'') ''objects'', pjoin efi ''zerith'']]"

definition install_deploy :: "path \<Rightarrow> path \<Rightarrow> source \<Rightarrow> unit proc" where
  "install_deploy sysroot efi src =
     (let deploy = pjoin sysroot ''@deploy'' in
      bnd (lift (src_deploy_id src)) (\<lambda>did.
      let ddir = deploy_dir deploy did; cur = esp_uki efi ''current'' in
      bnd (asks dry_run) (\<lambda>dry.
      bnd (gets (\<lambda>f. path_exists f ddir)) (\<lambda>there.
      bnd (steps
        [if_do (\<not> dry \<and> there) (die (''deployment '' @ did @ '' already installed at '' @ path_str ddir)),
         materialize deploy src,
         if dry then log (''[dry-run] cp '' @ path_str (src_uki src) @ '' -> '' @ path_str cur)
         else steps [mkdirs (butlast cur), atomic_copy (pjoin ddir UKI_NAME) cur],
         set_role deploy ''current'' did,
         (case src_ref src of
            Some r \<Rightarrow> if_do (r \<noteq> []) (write_source (pjoin deploy SOURCE_CONF_NAME) r)
          | None \<Rightarrow> ret ()),
         write_limine_conf efi]) (\<lambda>_.
      bnd (lift (src_version src)) (\<lambda>ver.
      log (''installed deployment '' @ did @ '' (version '' @ json_str ver @ '') as current'')))))))"

context disk_invariant
begin

lemma keeps_installer [tr_rules]:
  assumes "tools_keep I e"
  shows "keeps e I (init_layout s p)" "keeps e I (install_deploy s p src)"
proof -
  have a: "keeps e I (ensure_subvolume s x)" for x
    unfolding ensure_subvolume_def Let_def by (intro tr_rules assms)
  have b: "keeps e I (ensure_dir x)" for x
    unfolding ensure_dir_def by (intro tr_rules keeps_steps) (auto intro: tr_rules)
  show "keeps e I (init_layout s p)"
    unfolding init_layout_def steps.simps by (intro tr_rules a b)
  show "keeps e I (install_deploy s p src)"
    unfolding install_deploy_def Let_def
    by (intro tr_rules keeps_steps) (auto intro!: tr_rules assms split: option.split)
qed

end

end
