(* ===== verification/Disk.thy ===== *)
theory Disk
  imports Runtime
begin

text \<open>
  \<open>zerith/disk.py\<close>: partitioning, formatting and mounting for \<open>install --disk\<close>. The
  partitioning tools are commands of the environment.
\<close>

definition partition_names :: "path \<Rightarrow> string \<times> string" where
  "partition_names disk =
     (let d = path_str disk; sep = (if is_digit (last d) then ''p'' else [])
      in (d @ sep @ ''1'', d @ sep @ ''2''))"

definition check_mount :: "path \<Rightarrow> string \<Rightarrow> unit proc" where
  "check_mount disk line =
     (case split_ws line of
        [] \<Rightarrow> raise IndexErr
      | dev # _ \<Rightarrow> if_do (dev = path_str disk \<or> startswith dev (path_str disk))
          (die (dev @ '' is mounted '' @ [CHR 0xE2, CHR 0x80, CHR 0x94] @ '' refusing to partition '' @ path_str disk)))"

definition assert_disk_free :: "path \<Rightarrow> unit proc" where
  "assert_disk_free disk =
     bnd (asks dry_run) (\<lambda>dry.
     if dry then ret ()
     else bnd (read_text [''proc'', ''mounts'']) (\<lambda>text. for_each (check_mount disk) (splitlines text)))"

text \<open>\<open>input(prompt)\<close>; no line is the end of the input.\<close>

definition confirm_wipe :: "path \<Rightarrow> bool \<Rightarrow> unit proc" where
  "confirm_wipe disk yes =
     bnd (asks dry_run) (\<lambda>dry.
     if yes \<or> dry then ret ()
     else
       bnd (print (''WARNING: this will ERASE ALL DATA on '' @ path_str disk @ ''.'')) (\<lambda>_.
       bnd (print (''Type '' @ CHR 0x27 # ''yes'' @ CHR 0x27 # '' to continue: '')) (\<lambda>_.
       bnd (asks stdin_line) (\<lambda>resp. case resp of
         None \<Rightarrow> die ''no terminal to confirm on; pass --yes to proceed''
       | Some r \<Rightarrow> if_do (lower (strip r) \<noteq> ''yes'') (die ''aborted'')))))"

definition partition_disk :: "path \<Rightarrow> string \<Rightarrow> string \<Rightarrow> (string \<times> string) proc" where
  "partition_disk disk esp_size label =
     (let parts = partition_names disk in
      bnd (steps
        [run_do [''sgdisk'', ''--zap-all'', path_str disk],
         run_do [''sgdisk'', ''-n1:0:+'' @ esp_size, ''-t1:EF00'', ''-c1:ESP'', path_str disk],
         run_do [''sgdisk'', ''-n2:0:0'', ''-t2:8300'', ''-c2:'' @ label, path_str disk],
         run_do [''partprobe'', path_str disk],
         run_do [''mkfs.fat'', ''-F32'', ''-n'', ''efi-'' @ label, fst parts],
         run_do [''mkfs.btrfs'', ''-f'', ''-L'', label, snd parts]]) (\<lambda>_.
      ret parts))"

text \<open>The mount points, and the closure that unmounts them.\<close>

definition unmount_targets :: "path \<Rightarrow> unit proc" where
  "unmount_targets base = steps
     [run_do [''umount'', path_str (pjoin base ''efi'')],
      run_do [''umount'', path_str (pjoin base ''sysroot'')],
      rmtree_quiet base]"

definition mount_targets :: "string \<Rightarrow> string \<Rightarrow> (path \<times> path \<times> unit proc) proc" where
  "mount_targets esp_part btrfs_part =
     bnd (asks dry_run) (\<lambda>dry.
     if dry then
       (let base = [''run'', ''zerith-install''] in
        bnd (steps
          [log (''[dry-run] mount '' @ btrfs_part @ '' '' @ path_str (pjoin base ''sysroot'')),
           log (''[dry-run] mount '' @ esp_part @ '' '' @ path_str (pjoin base ''efi''))]) (\<lambda>_.
        ret (pjoin base ''sysroot'', pjoin base ''efi'', ret ())))
     else
       bnd (mkdtemp ''zerith-install-'') (\<lambda>base.
       let sysroot = pjoin base ''sysroot''; efi = pjoin base ''efi'' in
       bnd (steps
         [os_mkdir sysroot,
          os_mkdir efi,
          run_do [''mount'', btrfs_part, path_str sysroot],
          run_do [''mount'', esp_part, path_str efi],
          vlog (''mounted sysroot='' @ path_str sysroot @ '' efi='' @ path_str efi)]) (\<lambda>_.
       ret (sysroot, efi, unmount_targets base))))"

section \<open>Nothing is partitioned under a mounted file system\<close>

text \<open>The mounted devices the table lists on the disk.\<close>

definition mounted_on :: "path \<Rightarrow> string \<Rightarrow> bool" where
  "mounted_on disk text \<longleftrightarrow> (\<exists>line \<in> set (splitlines text). \<exists>dev rest. split_ws line = dev # rest \<and> startswith dev (path_str disk))"

lemma startswith_refl: "startswith s s"
  by (simp add: startswith_def)

lemma check_mounts_run:
  "(fst (for_each (check_mount disk) ls e w) = Inr () \<longleftrightarrow>
      (\<forall>l \<in> set ls. \<exists>dev rest. split_ws l = dev # rest \<and> \<not> startswith dev (path_str disk))) \<and>
   fsys (snd (for_each (check_mount disk) ls e w)) = fsys w \<and> hist (snd (for_each (check_mount disk) ls e w)) = hist w"
proof (induction ls arbitrary: w)
  case (Cons l ls)
  show ?case
  proof (cases "split_ws l")
    case Nil
    then show ?thesis by (simp add: check_mount_def run_simps)
  next
    case (Cons dev r)
    then show ?thesis using Cons.IH [of w] by (auto simp: check_mount_def run_simps startswith_refl)
  qed
qed (simp add: run_simps)

section \<open>Disk invariants\<close>

lemma keeps_disk_checks [tr_rules]:
  "keeps e I (assert_disk_free d)" "keeps e I (confirm_wipe d y)"
  "tools_keep I e \<Longrightarrow> keeps e I (partition_disk d z l)"
proof -
  have "keeps e I (check_mount d l)" for l
    unfolding check_mount_def by (intro tr_rules)
  then show "keeps e I (assert_disk_free d)"
    unfolding assert_disk_free_def by (intro tr_rules)
  show "keeps e I (confirm_wipe d y)"
    unfolding confirm_wipe_def by (intro tr_rules)
  show "tools_keep I e \<Longrightarrow> keeps e I (partition_disk d z l)"
    unfolding partition_disk_def Let_def by (intro tr_rules keeps_steps) (auto intro!: tr_rules)
qed

context disk_invariant
begin

lemma keeps_mounts [tr_rules]:
  assumes "tools_keep I e"
  shows "keeps e I (unmount_targets b)"
    "triple e I I (mount_targets p q) (\<lambda>(_, _, m) f. I f \<and> keeps e I m)"
proof -
  show u: "keeps e I (unmount_targets b)" for b
    unfolding unmount_targets_def by (intro keeps_steps) (auto intro!: tr_rules assms)
  have live: "triple e I I (bnd (mkdtemp t) (\<lambda>base. bnd (ms base) (\<lambda>_. ret (a base, b base, unmount_targets base))))
      (\<lambda>(_, _, m) f. I f \<and> keeps e I m)" if "\<And>base. keeps e I (ms base)" for t ms a b
    by (rule tr_bnd [OF keeps_mkdtemp tr_bnd [OF that]]) (use u in \<open>auto intro: tr_ret\<close>)
  have dry: "triple e I I (bnd ms (\<lambda>_. ret (a, b, ret ()))) (\<lambda>(_, _, m) f. I f \<and> keeps e I m)"
    if "keeps e I ms" for ms a b
    by (rule tr_bnd [OF that]) (auto intro: tr_ret)
  show "triple e I I (mount_targets p q) (\<lambda>(_, _, m) f. I f \<and> keeps e I m)"
    unfolding mount_targets_def Let_def
  proof (rule tr_asks_bnd, cases "dry_run e", simp_all only: if_True if_False)
    show "triple e I I (bnd (steps
          [log (''[dry-run] mount '' @ q @ '' '' @ path_str (pjoin [''run'', ''zerith-install''] ''sysroot'')),
           log (''[dry-run] mount '' @ p @ '' '' @ path_str (pjoin [''run'', ''zerith-install''] ''efi''))]) (\<lambda>_.
        ret (pjoin [''run'', ''zerith-install''] ''sysroot'', pjoin [''run'', ''zerith-install''] ''efi'', ret ())))
      (\<lambda>(_, _, m) f. I f \<and> keeps e I m)"
      by (rule dry [OF keeps_steps]) (auto intro!: tr_rules)
    show "triple e I I (bnd (mkdtemp ''zerith-install-'') (\<lambda>base. bnd (steps
         [os_mkdir (pjoin base ''sysroot''), os_mkdir (pjoin base ''efi''),
          run_do [''mount'', q, path_str (pjoin base ''sysroot'')],
          run_do [''mount'', p, path_str (pjoin base ''efi'')],
          vlog (''mounted sysroot='' @ path_str (pjoin base ''sysroot'') @ '' efi='' @ path_str (pjoin base ''efi''))]) (\<lambda>_.
       ret (pjoin base ''sysroot'', pjoin base ''efi'', unmount_targets base)))) (\<lambda>(_, _, m) f. I f \<and> keeps e I m)"
      by (rule live [OF keeps_steps]) (auto intro!: tr_rules assms)
  qed
qed

end

end
