(* ===== verification/Cli.thy ===== *)
theory Cli
  imports Installer Disk
begin

text \<open>
  \<open>zerith/cli.py\<close>: the defaults of the options, the checks on the arguments, and the commands.
  The model starts from the namespace \<open>argparse\<close> returns; the run-mode flags of the namespace
  become the environment's.
\<close>

section \<open>Arguments\<close>

definition DEFAULT_DEPLOY :: path where "DEFAULT_DEPLOY = [''deploy'']"
definition DEFAULT_ESP :: path where "DEFAULT_ESP = [''efi'']"
definition DEFAULT_ESP_SIZE :: string where "DEFAULT_ESP_SIZE = ''1GiB''"
definition DEFAULT_LABEL :: string where "DEFAULT_LABEL = ''zerith''"
definition DEFAULT_COSIGN_ISSUER :: string where
  "DEFAULT_COSIGN_ISSUER = ''https://token.actions.githubusercontent.com''"

record args =
  a_cmd :: string
  a_dry_run :: bool
  a_verbose :: bool
  a_cosign_identity :: "string option"
  a_cosign_issuer :: string
  a_skip_verify :: bool
  a_deploy :: path
  a_esp :: path
  a_config :: "path option"
  a_ref :: "string option"
  a_sysroot :: "path option"
  a_efi :: "path option"
  a_disk :: "path option"
  a_yes :: bool
  a_esp_size :: string
  a_label :: string
  a_local :: "path option"
  a_no_limine :: bool

text \<open>What each option is when the command line does not give it.\<close>

definition default_args :: "env \<Rightarrow> string \<Rightarrow> args" where
  "default_args e cmd =
     \<lparr>a_cmd = cmd, a_dry_run = False, a_verbose = False,
      a_cosign_identity = getenv e ''ZERITH_COSIGN_IDENTITY'',
      a_cosign_issuer = (case getenv e ''ZERITH_COSIGN_ISSUER'' of Some s \<Rightarrow> s | None \<Rightarrow> DEFAULT_COSIGN_ISSUER),
      a_skip_verify = False,
      a_deploy = DEFAULT_DEPLOY, a_esp = DEFAULT_ESP, a_config = None, a_ref = None,
      a_sysroot = None, a_efi = None, a_disk = None, a_yes = False,
      a_esp_size = DEFAULT_ESP_SIZE, a_label = DEFAULT_LABEL, a_local = None, a_no_limine = False\<rparr>"

text \<open>A string argument counts as given when it is not empty.\<close>

definition given :: "string option \<Rightarrow> bool" where
  "given s \<longleftrightarrow> (case s of Some r \<Rightarrow> r \<noteq> [] | None \<Rightarrow> False)"

section \<open>Commands on an installed host\<close>

text \<open>A channel that is no string cannot become an argument of a command.\<close>

definition host_update :: "args \<Rightarrow> path \<Rightarrow> unit proc" where
  "host_update a config_path =
     bnd (read_source config_path) (\<lambda>ref. case ref of
       None \<Rightarrow> die (''no update channel configured in '' @ path_str config_path @ ''; run '' @ CHR 0x27 # ''deploy REF'' @ CHR 0x27 # '' first'')
     | Some r \<Rightarrow>
         if \<not> truthy r then
           die (''no update channel configured in '' @ path_str config_path @ ''; run '' @ CHR 0x27 # ''deploy REF'' @ CHR 0x27 # '' first'')
         else
           bnd (log (''update: pulling configured channel '' @ json_str r)) (\<lambda>_.
           case r of
             JStr s \<Rightarrow> do_deploy (a_deploy a) (a_esp a) s (a_cosign_identity a) (a_cosign_issuer a) (a_skip_verify a)
           | _ \<Rightarrow> raise TypeErr))"

definition host_body :: "args \<Rightarrow> path \<Rightarrow> unit proc" where
  "host_body a config_path =
     (if a_cmd a = ''gc'' then gc (a_deploy a)
      else if a_cmd a = ''rollback'' \<or> a_cmd a = ''swap'' then rollback (a_deploy a) (a_esp a)
      else if a_cmd a = ''deploy'' then
        (let ref = (case a_ref a of Some r \<Rightarrow> r | None \<Rightarrow> []) in
         bnd (do_deploy (a_deploy a) (a_esp a) ref (a_cosign_identity a) (a_cosign_issuer a) (a_skip_verify a)) (\<lambda>_.
         write_source config_path ref))
      else if a_cmd a = ''update'' then host_update a config_path
      else ret ())"

definition cmd_host :: "args \<Rightarrow> int proc" where
  "cmd_host a =
     (let config_path = (case a_config a of Some p \<Rightarrow> p | None \<Rightarrow> pjoin (a_deploy a) SOURCE_CONF_NAME) in
      if a_cmd a = ''status'' then bnd (status (a_deploy a) config_path) (\<lambda>_. ret 0)
      else
        bnd (steps
          [require_root,
           check_layout (a_deploy a) (a_esp a),
           deploy_lock (a_deploy a) (host_body a config_path)]) (\<lambda>_. ret 0))"

section \<open>The initial install\<close>

definition check_install :: "args \<Rightarrow> unit proc" where
  "check_install a = steps
     [if_do (a_disk a \<noteq> None \<and> (a_sysroot a \<noteq> None \<or> a_efi a \<noteq> None))
        (die ''give either --disk OR sysroot+efi, not both''),
      if_do (a_disk a = None \<and> \<not> (a_sysroot a \<noteq> None \<and> a_efi a \<noteq> None))
        (die ''provide --disk DEV, or both sysroot and efi mountpoints''),
      if_do (given (a_ref a) \<longleftrightarrow> a_local a \<noteq> None)
        (die ''provide exactly one source: --ref REF  or  --local DIR'')]"

text \<open>The mount points to install to, how to unmount them, and where Limine goes.\<close>

definition install_targets :: "args \<Rightarrow> (path \<times> path \<times> unit proc \<times> path option \<times> string option) proc" where
  "install_targets a = (case a_disk a of
     Some d \<Rightarrow>
       bnd (assert_disk_free d) (\<lambda>_.
       bnd (confirm_wipe d (a_yes a)) (\<lambda>_.
       bnd (partition_disk d (a_esp_size a) (a_label a)) (\<lambda>(esp_part, btrfs_part).
       bnd (mount_targets esp_part btrfs_part) (\<lambda>(sysroot, efi, unmount).
       ret (sysroot, efi, unmount, Some d, Some esp_part)))))
   | None \<Rightarrow> ret (case a_sysroot a of Some p \<Rightarrow> p | None \<Rightarrow> [],
                  case a_efi a of Some p \<Rightarrow> p | None \<Rightarrow> [], ret (), None, None))"

definition install_body :: "args \<Rightarrow> path \<Rightarrow> path \<Rightarrow> path option \<Rightarrow> string option \<Rightarrow> unit proc" where
  "install_body a sysroot efi limine_disk limine_part =
     bnd (init_layout sysroot efi) (\<lambda>_.
     bnd (case a_ref a of
            Some r \<Rightarrow> if r \<noteq> [] then source_from_ref r (a_cosign_identity a) (a_cosign_issuer a) (a_skip_verify a)
                      else source_from_local (case a_local a of Some p \<Rightarrow> p | None \<Rightarrow> [])
          | None \<Rightarrow> source_from_local (case a_local a of Some p \<Rightarrow> p | None \<Rightarrow> [])) (\<lambda>src.
     try_finally
       (bnd (install_deploy sysroot efi src) (\<lambda>_.
        if_do (\<not> a_no_limine a) (install_limine efi limine_disk limine_part (Some (src_bootloader src)))))
       (src_cleanup src)))"

definition cmd_install :: "args \<Rightarrow> int proc" where
  "cmd_install a =
     bnd (steps [check_install a, require_root]) (\<lambda>_.
     bnd (install_targets a) (\<lambda>(sysroot, efi, unmount, limine_disk, limine_part).
     bnd (try_finally (install_body a sysroot efi limine_disk limine_part) unmount) (\<lambda>_.
     bnd (log ''done.'') (\<lambda>_. ret 0))))"

section \<open>Dispatch\<close>

definition main :: "args \<Rightarrow> int proc" where
  "main a e = (let e' = e\<lparr>dry_run := a_dry_run a, verbose := a_verbose a\<rparr> in
     if a_cmd a = ''install'' then cmd_install a e' else cmd_host a e')"

section \<open>Disk invariants\<close>

lemma keeps_check_install [tr_rules]: "keeps e I (check_install a)"
  unfolding check_install_def by (rule keeps_steps) (auto intro!: tr_rules)

context disk_invariant
begin

lemma keeps_host [tr_rules]:
  assumes t: "tools_keep I e" and o: "others_keep I e"
  shows "keeps e I (cmd_host a)"
proof -
  have j: "keeps e I (case r of JStr s \<Rightarrow> m s | _ \<Rightarrow> raise TypeErr)" if "\<And>s. keeps e I (m s)" for r m
    by (cases r) (simp_all add: that tr_raise)
  have "keeps e I (host_update a p)" for p
    unfolding host_update_def by (intro tr_rules j t)
  then have "keeps e I (host_body a p)" for p
    unfolding host_body_def Let_def by (intro tr_rules t)
  then show ?thesis
    unfolding cmd_host_def Let_def
    by (intro tr_rules keeps_steps t) (auto intro!: tr_rules t o)
qed

lemma keeps_install [tr_rules]:
  assumes t: "tools_keep I e"
  shows "keeps e I (cmd_install a)"
proof -
  have targets: "triple e I I (install_targets a) (\<lambda>(_, _, m, _) f. I f \<and> keeps e I m)"
  proof (cases "a_disk a")
    case None
    then show ?thesis by (auto simp: install_targets_def intro: tr_ret)
  next
    case (Some d)
    have "triple e I I (bnd (mount_targets p q) (\<lambda>(s, b, m). ret (s, b, m, Some d, Some p)))
        (\<lambda>(_, _, m, _) f. I f \<and> keeps e I m)" for p q
      by (rule tr_bnd [OF keeps_mounts(2) [OF t]]) (auto intro: tr_ret split: prod.split)
    then show ?thesis unfolding install_targets_def Some option.case
      by (intro tr_bnd [OF keeps_disk_checks(1)] tr_bnd [OF keeps_disk_checks(2)] tr_bnd [OF keeps_disk_checks(3) [OF t]])
        (auto split: prod.split)
  qed
  have body: "keeps e I (install_body a s b d p)" for s b d p
    unfolding install_body_def by (auto intro!: tr_rules t split: option.split)
  have fin: "triple e (case x of (_, _, m, _) \<Rightarrow> \<lambda>f. I f \<and> keeps e I m) I
     (case x of (s, b, m, d, p) \<Rightarrow> bnd (try_finally (install_body a s b d p) m) (\<lambda>_. bnd (log t) (\<lambda>_. ret 0))) (\<lambda>_. I)" for x t
    by (cases x) (auto intro!: tr_pure tr_rules body)
  show ?thesis unfolding cmd_install_def
    by (rule tr_bnd [OF keeps_steps tr_bnd [OF targets fin]]) (auto intro!: tr_rules)
qed

lemma keeps_main:
  assumes "tools_keep I e" "others_keep I e"
  shows "keeps e I (main a)"
proof -
  let ?e = "e\<lparr>dry_run := a_dry_run a, verbose := a_verbose a\<rparr>"
  have "tools_keep I ?e = tools_keep I e" "others_keep I ?e = others_keep I e"
    by (simp_all add: tools_keep_def others_keep_def)
  then have t: "tools_keep I ?e" "others_keep I ?e" using assms by blast+
  have "keeps ?e I (if a_cmd a = ''install'' then cmd_install a else cmd_host a)"
    by (intro keeps_if keeps_install keeps_host t)
  moreover have "main a e = (if a_cmd a = ''install'' then cmd_install a else cmd_host a) ?e"
    by (simp add: main_def)
  ultimately show ?thesis unfolding triple_def by (simp only:)
qed

end

end
