(* ===== verification/HostSpec.thy ===== *)
theory HostSpec
  imports Cli Promotion StoreSpec
begin

text \<open>
  What the smaller operations promise: files written are read back, the update channel
  changes atomically, the root image is the one the metadata names, a dry run leaves the disk
  alone, and bad arguments stop before anything is touched.
\<close>

section \<open>Text that is read back as written\<close>

definition plain_char :: "char \<Rightarrow> bool" where
  "plain_char c \<longleftrightarrow> code c < 128 \<and> c \<noteq> CR"

lemma hex_digit_plain: "n < 16 \<Longrightarrow> plain_char (hex_digit n)"
proof -
  have "list_all (\<lambda>n. plain_char (hex_digit n)) [0..<16]" by code_simp
  then show "n < 16 \<Longrightarrow> plain_char (hex_digit n)" by (simp add: list_all_iff)
qed

lemma plain_consts_chars: "plain_char BACKSLASH" "plain_char QUOTE" "plain_char NL" "list_all plain_char ''unrtfb null true false[]{},:-'' "
  by code_simp+

lemma u4_plain: "list_all plain_char (u4 n)"
  using plain_consts_chars by (auto simp: u4_def intro: hex_digit_plain)

lemma esc_plain: "ascii s \<Longrightarrow> list_all plain_char (esc s)"
proof (induction s rule: esc.induct)
  case (2 c cs)
  have c: "code c < 128" and cs: "list_all plain_char (esc cs)" using 2 by (auto simp: ascii_def)
  have "list_all plain_char (esc_ascii c)"
    using plain_consts_chars u4_plain [of "code c"] c by (auto simp: esc_ascii_def plain_char_def)
  then show ?case using c cs by simp
qed simp

lemma digits_plain: "is_digit c \<Longrightarrow> plain_char c"
  by (auto simp: is_digit_def plain_char_def code_def)

lemma show_int_plain: "list_all plain_char (show_int i)"
  using plain_consts_chars by (auto simp: show_int_def list_all_iff dest!: show_nat_digits intro: digits_plain)

lemma nl_plain: "list_all plain_char (nl l)"
  using plain_consts_chars by (auto simp: nl_def list_all_iff)

lemma dump_plain:
  "wf_json j \<Longrightarrow> list_all plain_char (dump l j)"
  "list_all wf_json xs \<Longrightarrow> list_all plain_char (dump_list l xs)"
  "list_all (\<lambda>kv. ascii (fst kv) \<and> wf_json (snd kv)) kvs \<Longrightarrow> list_all plain_char (dump_items l kvs)"
  by (induction l j and l xs and l kvs rule: dump_dump_list_dump_items.induct)
    (use plain_consts_chars esc_plain show_int_plain nl_plain in \<open>auto simp: dump_str_def\<close>)

lemma dumps_text:
  assumes "wf_json j"
  shows "utf8_ok (dumps j @ [NL])" "univ_nl (dumps j @ [NL]) = dumps j @ [NL]"
proof -
  have p: "\<forall>c \<in> set (dumps j @ [NL]). plain_char c"
    using dump_plain(1) [OF assms, of 0] plain_consts_chars by (simp add: dumps_def list_all_iff)
  then show "utf8_ok (dumps j @ [NL])" by (intro utf8_ok_ascii) (simp add: plain_char_def)
  show "univ_nl (dumps j @ [NL]) = dumps j @ [NL]" using p by (intro univ_nl_id) (auto simp: plain_char_def)
qed

lemma read_text_json:
  assumes "wf_json j" "read1 p (fsys w) = Inr (dumps j @ [NL])"
  shows "read_text p e w = (Inr (dumps j @ [NL]), w)"
  using assms dumps_text [OF assms(1)] by (simp add: read_text_def read_bytes_def run_simps)

section \<open>Deployment metadata\<close>

lemma write_text_run:
  assumes "writable (fsys w) p"
  shows "\<exists>w'. write_text p b e w = (Inr (), w') \<and> written (fsys w) p b (fsys w')"
proof -
  have "fst (write1 p b (fsys w)) = Inr ()" "written (fsys w) p b (last (fsys w # snd (write1 p b (fsys w))))"
    by (rule writable_write1(1) [OF assms], rule writable_write1(3) [OF assms])
  then show ?thesis by (cases "write1 p b (fsys w)") (simp add: write_text_def syscall_def del: last.simps)
qed

lemma meta_path: "plain_name did \<Longrightarrow> pjoin (deploy_dir d did) META_NAME = d @ [did, META_NAME]"
  by (simp add: deploy_dir_def)

lemma write_meta_run:
  assumes "plain_name did" "writable (fsys w) (d @ [did, META_NAME])" "build_meta src (clock e) = Inr m" "\<not> dry_run e"
  shows "\<exists>w'. write_meta (deploy_dir d did) src e w = (Inr (), w') \<and> written (fsys w) (d @ [did, META_NAME]) (dumps m @ [NL]) (fsys w')"
proof -
  obtain w' where w': "write_text (d @ [did, META_NAME]) (dumps m @ [NL]) e w = (Inr (), w')"
    "written (fsys w) (d @ [did, META_NAME]) (dumps m @ [NL]) (fsys w')"
    using write_text_run [OF assms(2)] by blast
  then show ?thesis using assms(1,3,4)
    by (simp add: write_meta_def now_def deploy_dir_def Let_def run_simps)
qed

lemma load_meta_run:
  assumes "plain_name did" "wf_json m" "cat (fsys w) (d @ [did, META_NAME]) = Some (dumps m @ [NL])"
  shows "load_meta d (Some did) e w = (Inr m, w)"
proof -
  have "did \<noteq> []" using assms(1) by (simp add: plain_name_def)
  then show ?thesis using read_text_json [OF assms(2) cat_read [OF assms(3)]] loads_dumps [OF assms(2)]
    by (simp add: load_meta_def meta_path [OF assms(1)] run_simps)
qed

section \<open>The update channel\<close>

definition channel_text :: "string \<Rightarrow> string \<Rightarrow> string" where
  "channel_text ref t = dumps (JObj [(''schema'', JInt CONFIG_SCHEMA), (''ref'', JStr ref), (''updated_at'', JStr t)]) @ [NL]"

definition channel_tmp :: "path \<Rightarrow> path" where
  "channel_tmp p = butlast p @ [last p @ ''.tmp'']"

definition channel_ready :: "path \<Rightarrow> fs \<Rightarrow> bool" where
  "channel_ready p f \<longleftrightarrow> wf_fs f \<and> p \<noteq> [] \<and> lookup f (butlast p) = Some Dir \<and> lookup f p \<noteq> Some Dir \<and>
     writable f (channel_tmp p) \<and> (\<forall>i. lookup f (channel_tmp p) = Some (File i) \<longrightarrow> lookup f p \<noteq> Some (File i))"

lemma channel_tmp_ne: "channel_tmp p \<noteq> p" "channel_tmp p \<noteq> []" "butlast (channel_tmp p) = butlast p"
proof -
  have "last (channel_tmp p) \<noteq> last p"
    by (simp add: channel_tmp_def)
  then show "channel_tmp p \<noteq> p" by auto
qed (simp_all add: channel_tmp_def)

lemma write_source_spec:
  fixes ref
  assumes r: "channel_ready p f" and dry: "\<not> dry_run e"
  defines "b \<equiv> channel_text ref (clock e)"
  shows "tot e ((=) f) (\<lambda>g. cat g p = cat f p \<or> cat g p = Some b) (write_source p ref)
    (\<lambda>_ g. cat g p = Some b \<and> lookup g (channel_tmp p) = None)"
proof -
  let ?t = "channel_tmp p" and ?C = "\<lambda>g. cat g p = cat f p \<or> cat g p = Some b"
  have wf: "wf_fs f" and dir: "lookup f (butlast p) = Some Dir" "lookup f p \<noteq> Some Dir" "p \<noteq> []" and w: "writable f ?t"
    and sole: "\<And>i. lookup f ?t = Some (File i) \<Longrightarrow> lookup f p \<noteq> Some (File i)"
    using r by (auto simp: channel_ready_def)
  note T = channel_tmp_ne [of p]
  have frame: "lookup g p = lookup f p" "cat g p = cat f p" if "written f ?t x g" for x g
    using written_frame [OF that T(1) [symmetric] wf sole] by auto
  have wr: "tot e ((=) f) ?C (write_text ?t b) (\<lambda>_. written f ?t b)"
    unfolding write_text_def
  proof (rule tr_syscall)
    fix f' g x assume f': "f = f'"
    show "g \<in> set (snd (write1 ?t b f')) \<Longrightarrow> ?C g"
      using writable_write1(2) [OF w] frame(2) unfolding f' by blast
    show "fst (write1 ?t b f') = Inl x \<Longrightarrow> False" using writable_write1(1) [OF w] f' by simp
    show "written f ?t b (last (f' # snd (write1 ?t b f')))" using writable_write1(3) [OF w] unfolding f' .
  qed
  have rep: "tot e (written f ?t b) ?C (os_replace ?t p) (\<lambda>_ g. cat g p = Some b \<and> lookup g ?t = None)"
    unfolding os_replace_def
  proof (rule tr_atomic)
    fix g assume g: "written f ?t b g"
    let ?i = "ino_for f ?t"
    have lk: "lookup g ?t = Some (File ?i)" "lookup g p = lookup f p" "inodes g ?i = Some \<lparr>bytes = b, verity = False\<rparr>"
      using g T(1) by (auto simp: written_def)
    have pd: "lookup g (butlast p) = Some Dir"
    proof (cases "butlast p = ?t")
      case True
      then show ?thesis using T(3) dir(3) by (metis T(2) append_butlast_last_id not_Cons_self2 self_append_conv)
    next
      case False
      then show ?thesis using g dir(1) by (simp add: written_def)
    qed
    have ns: "lookup f p \<noteq> Some (File ?i)"
    proof
      assume p: "lookup f p = Some (File ?i)"
      then have "?i < next_ino f" using wf_file [OF wf] by blast
      then have "lookup f ?t = Some (File ?i)" by (auto simp: ino_for_def split: option.splits node.splits)
      then show False using sole p by blast
    qed
    have rr: "replace1 ?t p g = Inr (set_entry p (File ?i) (del_entry ?t g))"
      using lk dir(2) pd T(1) ns by (simp add: replace1_def parent_err_def)
    show "replace1 ?t p g = Inr h \<Longrightarrow> ?C h \<and> cat h p = Some b \<and> lookup h ?t = None" for h
      using rr lk(3) T dir(3) by (auto simp: cat_def fs_simps)
    show "replace1 ?t p g = Inl x \<Longrightarrow> False" for x using rr by simp
  qed
  have body: "tot e ((=) f) ?C (steps [mkdirs (butlast p), write_text ?t b, os_replace ?t p, vlog m])
     (\<lambda>_ g. cat g p = Some b \<and> lookup g ?t = None)" for m
    unfolding steps.simps
    by (rule tr_bnd [OF tot_mkdirs_existing tr_bnd [OF wr tr_bnd [OF rep tr_bnd [OF tr_vlog tr_ret]]]])
      (use dir in auto)
  show ?thesis unfolding write_source_def now_def Let_def channel_tmp_def [symmetric] channel_text_def [symmetric]
    by (intro tr_asks_bnd) (simp only: dry if_False body [unfolded b_def] b_def)
qed

lemma read_source_run:
  assumes "ascii ref" "ascii t" "cat (fsys w) p = Some (channel_text ref t)"
  shows "read_source p e w = (Inr (Some (JStr ref)), w)"
proof -
  let ?j = "JObj [(''schema'', JInt CONFIG_SCHEMA), (''ref'', JStr ref), (''updated_at'', JStr t)]"
  have j: "wf_json ?j" using assms by (simp add: ascii_def code_def)
  show ?thesis
    using read_text_json [OF j cat_read] assms(3) loads_dumps [OF j]
    by (simp add: read_source_def channel_text_def meta_get_def run_simps)
qed

section \<open>The root image\<close>

text \<open>\<open>place_root_cfs\<close> returns exactly when the image has the digest the metadata names; what
  it leaves then is the image, sealed.\<close>

lemma place_root_cfs_spec:
  assumes T: "fsverity_tool vd e" "plain_path p" "\<not> dry_run e" and w: "writable f p"
    and s: "cat f (src_root_cfs src) = Some x" "src_root_cfs src \<noteq> p"
    and u: "\<And>i. lookup f p = Some (File i) \<Longrightarrow> lookup f (src_root_cfs src) \<noteq> Some (File i)"
  shows "xtriple e ((=) f) (\<lambda>_. True) (\<lambda>_ g. src_digest src \<noteq> Inr (JStr (vd x)) \<and> placed p x g) (place_root_cfs src p)
    (\<lambda>_ g. src_digest src = Inr (JStr (vd x)) \<and> placed p x g)"
    (is "xtriple e _ ?C ?X _ ?Q")
proof -
  have copy: "xtriple e ((=) f) ?C ?X (copy2 (src_root_cfs src) p) (\<lambda>_. tmp_file p x)"
    unfolding copy2_def
  proof (rule tr_syscall)
    fix f' y assume f': "f = f'"
    have c: "copy1 (src_root_cfs src) p f = write1 p x f" by (rule copy1_plain [OF w s u])
    show "fst (copy1 (src_root_cfs src) p f') = Inl y \<Longrightarrow> ?X y (last (f' # snd (copy1 (src_root_cfs src) p f')))"
      unfolding f' [symmetric] c using writable_write1(1) [OF w, of x] by simp
    have "written f p x (last (f # snd (write1 p x f)))" by (rule writable_write1(3) [OF w])
    then show "tmp_file p x (last (f' # snd (copy1 (src_root_cfs src) p f')))"
      unfolding f' [symmetric] c by (simp add: written_def tmp_file_def del: last.simps)
  qed simp
  have seal: "xtriple e (tmp_file p x) ?C ?X (enable_verity p) (\<lambda>_. placed p x)"
    by (rule tr_enable [OF T]) (auto simp: tmp_file_sealed)
  have read: "placed p x g \<Longrightarrow> read1 p g = Inr x" for g by (auto simp: placed_def read1_def)
  have measure: "xtriple e (placed p x) ?C ?X (measure_file p) (\<lambda>got g. placed p x g \<and> got = vd x)"
    by (rule tr_measure [OF T(1,2) read])
  have check: "xtriple e (\<lambda>g. placed p x g \<and> got = vd x) ?C ?X (bnd (lift (src_digest src)) (\<lambda>dg.
       bnd (if_do (dg \<noteq> JStr got) (die (m dg))) (\<lambda>_. vlog n))) ?Q" for got m n
  proof (rule tr_pure, rule tr_lift_bnd)
    fix dg assume dg: "got = vd x" "src_digest src = Inr dg"
    have "xtriple e (placed p x) ?C ?X (if_do (dg \<noteq> JStr got) (die (m dg))) (\<lambda>_ g. placed p x g \<and> dg = JStr got)"
      by (rule tr_if_do) (use dg in \<open>auto intro: tr_die\<close>)
    then show "xtriple e (placed p x) ?C ?X (bnd (if_do (dg \<noteq> JStr got) (die (m dg))) (\<lambda>_. vlog n)) ?Q"
      by (rule tr_bnd) (use dg in \<open>auto intro: tr_vlog\<close>)
  qed auto
  show ?thesis unfolding place_root_cfs_def
    by (rule tr_asks_bnd) (simp only: T(3) if_False, rule tr_bnd [OF copy tr_bnd [OF seal tr_bnd [OF measure check]]])
qed

section \<open>Sealing\<close>

lemma sealed_as_seal: "sealed_as j b f \<Longrightarrow> sealed_as j b (seal i f)"
  by (auto simp: sealed_as_def wf_seal) (auto simp: seal_def)

section \<open>Partition numbers\<close>

lemma part_number_named:
  assumes "\<forall>c \<in> set n. is_digit c" "n \<noteq> []"
  shows "part_number (path_str disk @ (if is_digit (last (path_str disk)) then ''p'' else []) @ n) = Some n"
proof (cases "is_digit (last (path_str disk))")
  case True
  have "\<not> is_digit (CHR ''p'')" by (simp add: is_digit_def code_def)
  then show ?thesis using True part_number_suffix [OF assms, of "path_str disk @ ''p''"] by simp
next
  case False
  then show ?thesis using part_number_suffix [OF assms, of "path_str disk"] by simp
qed

section \<open>Dry runs\<close>

text \<open>Under \<open>--dry-run\<close> the commands that need no artifact only log.\<close>

lemma dry_bnd: "dry_run e \<Longrightarrow> keeps e I (k True) \<Longrightarrow> keeps e I (bnd (asks dry_run) k)"
  by (rule tr_asks_bnd) simp

lemma dry_roles:
  assumes "dry_run e"
  shows "keeps e I (read_role d r)" "keeps e I (set_role d r i)" "keeps e I (clear_role d r)" "keeps e I (atomic_copy p q)"
  unfolding read_role_def set_role_def clear_role_def atomic_copy_def Let_def
  by (auto intro!: tr_rules dry_bnd assms)

lemma dry_gc:
  assumes "dry_run e"
  shows "keeps e I (gc d)"
proof -
  have "keeps e I (collect_stale d)"
    unfolding collect_stale_def by (intro tr_rules tr_collect dry_roles assms)
  then show ?thesis unfolding gc_def Let_def
    by (intro keeps_bnd dry_bnd assms) (auto intro!: tr_rules)
qed

lemma dry_promote:
  assumes "dry_run e"
  shows "keeps e I (promote d b n)"
  unfolding promote_def Let_def
  by (intro tr_rules dry_bnd assms keeps_steps dry_roles)
    (auto intro!: tr_rules dry_roles dry_gc assms split: option.split)

lemma dry_rollback:
  assumes "dry_run e"
  shows "keeps e I (rollback d b)"
  unfolding rollback_def Let_def
  by (intro tr_rules dry_bnd assms keeps_steps dry_roles)
    (auto intro!: tr_rules dry_roles assms split: option.split)

lemma keeps_status: "keeps e I (status d c)"
proof -
  have "keeps e I (read_role d r)" for r unfolding read_role_def Let_def by (intro tr_rules)
  moreover have "keeps e I (load_meta d i)" for i
    unfolding load_meta_def by (auto intro!: tr_rules split: option.split)
  moreover have "keeps e I (read_source c)"
    unfolding read_source_def by (auto intro!: tr_rules split: option.split)
  ultimately show ?thesis unfolding status_def status_role_def by (intro tr_rules)
qed

lemma dry_main:
  assumes "a_cmd a = ''status'' \<or> (a_dry_run a \<and> a_cmd a \<in> {''gc'', ''rollback'', ''swap''})"
  shows "keeps e I (main a)"
proof -
  let ?e = "e\<lparr>dry_run := a_dry_run a, verbose := a_verbose a\<rparr>"
  have d: "dry_run ?e" if "a_cmd a \<noteq> ''status''" using assms that by simp
  have layout: "keeps ?e I (check_layout x y)" for x y
    unfolding check_layout_def by (intro tr_rules)
  have body: "keeps ?e I (host_body a p)" if "a_cmd a \<noteq> ''status''" for p
    unfolding host_body_def using assms that by (auto intro: dry_gc dry_rollback d)
  have lock: "keeps ?e I (deploy_lock x m)" if "a_cmd a \<noteq> ''status''" "keeps ?e I m" for x and m :: "unit proc"
    unfolding deploy_lock_def by (intro dry_bnd d) (simp_all add: that)
  have "keeps ?e I (cmd_host a)"
  proof (cases "a_cmd a = ''status''")
    case True
    then show ?thesis unfolding cmd_host_def Let_def by (simp, intro tr_rules keeps_status)
  next
    case False
    then show ?thesis unfolding cmd_host_def Let_def
      by (simp only: if_False) (intro keeps_bnd keeps_steps, auto intro: tr_rules lock body layout)
  qed
  moreover have "main a e = cmd_host a ?e" using assms by (auto simp: main_def)
  ultimately show ?thesis unfolding triple_def by (simp only:)
qed

section \<open>Stopping before anything is touched\<close>

lemma stops:
  assumes "outcome m e f = Inl x"
  shows "outcome (bnd m k) e f = Inl x" "crash_states (bnd m k) e f = crash_states m e f"
  using assms by (auto simp: outcome_def crash_states_def bnd_def split: prod.split)

lemma quiet:
  assumes "\<And>I. keeps e I m"
  shows "crash_states m e f = {f}"
proof -
  have "g = f" if "g \<in> crash_states m e f" for g
    using triple_crash [OF assms [of "\<lambda>g. g = f"] refl refl that] .
  then show ?thesis by (auto simp: crash_states_def)
qed

lemma check_install_run:
  "outcome (check_install a) e f = (if (a_disk a \<noteq> None \<and> (a_sysroot a \<noteq> None \<or> a_efi a \<noteq> None)) \<or>
       (a_disk a = None \<and> (a_sysroot a = None \<or> a_efi a = None)) \<or> (given (a_ref a) \<longleftrightarrow> a_local a \<noteq> None)
     then Inl SystemExit else Inr ())"
  by (auto simp: check_install_def outcome_def run_simps)

text \<open>A mounted partition of the disk is found, whatever else the mount table holds.\<close>

lemma assert_disk_free_run:
  assumes "\<not> dry_run e" "read1 [''proc'', ''mounts''] (fsys w) = Inr t" "utf8_ok t" "mounted_on d (univ_nl t)"
  shows "\<exists>x w'. assert_disk_free d e w = (Inl x, w')"
proof -
  have "fst (for_each (check_mount d) (splitlines (univ_nl t)) e w) \<noteq> Inr ()"
    using check_mounts_run [of d "splitlines (univ_nl t)" e w] assms(4) by (fastforce simp: mounted_on_def)
  then have "fst (assert_disk_free d e w) \<noteq> Inr ()"
    using assms(1-3) by (simp add: assert_disk_free_def read_text_def read_bytes_def run_simps)
  then show ?thesis by (cases "assert_disk_free d e w"; cases "fst (assert_disk_free d e w)") auto
qed

lemma refuses_mounted:
  assumes a: "a_disk a = Some d" and m: "\<not> dry_run e" "read1 [''proc'', ''mounts''] f = Inr t" "utf8_ok t" "mounted_on d (univ_nl t)"
  shows "\<exists>x. outcome (bnd (steps [check_install a, require_root])
    (\<lambda>_. case a_disk a of Some d \<Rightarrow> assert_disk_free d | None \<Rightarrow> ret ())) e f = Inl x"
proof -
  let ?p = "steps [check_install a, require_root]"
  obtain r w where r: "?p e (boot f) = (r, w)" by fastforce
  have "keeps e ((=) f) ?p" by (rule keeps_steps) (auto intro!: tr_rules)
  from xtriple_outcome [OF this refl] have "f = disk_after ?p e f" by (simp split: sum.splits)
  then have w: "fsys w = f" unfolding disk_after_def r by simp
  show ?thesis
  proof (cases r)
    case (Inl x)
    then show ?thesis using r by (auto simp: outcome_def bnd_def)
  next
    case (Inr u)
    obtain x w' where "assert_disk_free d e w = (Inl x, w')"
      using assert_disk_free_run [OF m(1) _ m(3,4), of w] m(2) w by blast
    then show ?thesis using r Inr a by (simp add: outcome_def bnd_def)
  qed
qed

text \<open>The checks come first.\<close>

lemma keeps_require_root: "keeps e I require_root"
  by (rule keeps_require)

lemma install_refuses:
  assumes "outcome (bnd (steps [check_install a, require_root]) (\<lambda>_. case a_disk a of Some d \<Rightarrow> assert_disk_free d | None \<Rightarrow> ret ())) e f = Inl x"
  shows "outcome (cmd_install a) e f = Inl x" "crash_states (cmd_install a) e f = {f}"
proof -
  let ?pre = "bnd (steps [check_install a, require_root]) (\<lambda>_. case a_disk a of Some d \<Rightarrow> assert_disk_free d | None \<Rightarrow> ret ())"
  have q: "keeps e I ?pre" for I
    by (intro keeps_bnd keeps_steps) (auto intro!: tr_rules split: option.split)
  obtain k where k: "cmd_install a = bnd ?pre k"
  proof (cases "a_disk a")
    case None
    have "cmd_install a = bnd ?pre (\<lambda>_. bnd (install_targets a) (\<lambda>(sysroot, efi, unmount, limine_disk, limine_part).
     bnd (try_finally (install_body a sysroot efi limine_disk limine_part) unmount) (\<lambda>_.
     bnd (log ''done.'') (\<lambda>_. ret 0))))"
      unfolding cmd_install_def by (simp only: None option.case bnd_assoc bnd_ret)
    then show ?thesis by (rule that)
  next
    case (Some d)
    show ?thesis
      by (rule that [of "\<lambda>_. bnd (bnd (confirm_wipe d (a_yes a)) (\<lambda>_.
       bnd (partition_disk d (a_esp_size a) (a_label a)) (\<lambda>(esp_part, btrfs_part).
       bnd (mount_targets esp_part btrfs_part) (\<lambda>(sysroot, efi, unmount).
       ret (sysroot, efi, unmount, Some d, Some esp_part))))) (\<lambda>(sysroot, efi, unmount, limine_disk, limine_part).
     bnd (try_finally (install_body a sysroot efi limine_disk limine_part) unmount) (\<lambda>_.
     bnd (log ''done.'') (\<lambda>_. ret 0)))"])
        (simp only: cmd_install_def install_targets_def Some option.case bnd_assoc)
  qed
  show "outcome (cmd_install a) e f = Inl x" unfolding k by (rule stops(1) [OF assms])
  show "crash_states (cmd_install a) e f = {f}" unfolding k stops(2) [OF assms] by (rule quiet [OF q])
qed

text \<open>The partition number read off a partition node is the one the node was named with, on disks
  whose own name ends in a digit and on the others.\<close>

lemma partition_numbers:
  "part_number (fst (partition_names disk)) = Some ''1'' \<and> part_number (snd (partition_names disk)) = Some ''2''"
  using part_number_named [of "''1''" disk] part_number_named [of "''2''" disk]
  by (simp add: partition_names_def Let_def is_digit_def code_def)

text \<open>\<open>install\<close> refuses contradictory arguments before anything else: a disk together with mount
  points, neither of the two, both sources or none end it with an error and an untouched disk.\<close>

lemma install_checks_arguments:
  assumes "(a_disk a \<noteq> None \<and> (a_sysroot a \<noteq> None \<or> a_efi a \<noteq> None)) \<or>
     (a_disk a = None \<and> (a_sysroot a = None \<or> a_efi a = None)) \<or> (given (a_ref a) \<longleftrightarrow> a_local a \<noteq> None)"
  shows "outcome (cmd_install a) e f = Inl SystemExit \<and> crash_states (cmd_install a) e f = {f}"
proof -
  have "outcome (check_install a) e f = Inl SystemExit" using check_install_run [of a e f] assms by simp
  then have "outcome (bnd (steps [check_install a, require_root]) (\<lambda>_. case a_disk a of Some d \<Rightarrow> assert_disk_free d | None \<Rightarrow> ret ())) e f = Inl SystemExit"
    by (simp add: stops bnd_assoc)
  from install_refuses [OF this] show ?thesis by simp
qed

text \<open>\<open>rollback\<close> dies without touching the disk when there is no fallback deployment, or when
  its kernel image is missing on the ESP.\<close>

lemma rollback_needs_fallback:
  assumes "roles_of d f ''fallback'' = None \<or> \<not> is_file f (fb_efi b)" "\<not> dry_run e"
  shows "outcome (rollback d b) e f = Inl SystemExit \<and> crash_states (rollback d b) e f = {f}"
proof (cases "roles_of d f ''fallback''")
  case None
  then show ?thesis using read_role_run [OF roles_in(1), of d e "boot f"] read_role_run [OF roles_in(2), of d e "boot f"]
    by (simp add: rollback_def outcome_def crash_states_def roles_of_def roles_in boot_def run_simps)
next
  case (Some i)
  then have "\<not> is_file f (esp_uki b ''fallback'')" using assms(1) by (simp add: fb_efi_def)
  then show ?thesis using Some assms(2) read_role_run [OF roles_in(1), of d e "boot f"] read_role_run [OF roles_in(2), of d e "boot f"]
    by (simp add: rollback_def outcome_def crash_states_def roles_of_def roles_in boot_def Let_def run_simps)
qed

end
