(* ===== verification/CommandSpec.thy ===== *)
theory CommandSpec
  imports HostSpec Rollback
begin

text \<open>
  Whole commands: an artifact whose signature does not verify never reaches the host, a command
  waits for the one that holds the lock and works on the disk that one left, and a promotion
  that is started again after a crash loses the fallback image.
\<close>

section \<open>Signatures\<close>

text \<open>cosign does not accept the artifact, whatever the disk holds: no identity is configured, or
  the tool fails.\<close>

definition unsigned :: "env \<Rightarrow> string \<Rightarrow> string option \<Rightarrow> string \<Rightarrow> bool" where
  "unsigned e ref cos_id issuer \<longleftrightarrow> (case cos_id of None \<Rightarrow> True | Some i \<Rightarrow> i = [] \<or>
     (\<forall>f. let r = tool e [''cosign'', ''verify'', ''--certificate-identity-regexp'', i, ''--certificate-oidc-issuer'', issuer, ref] f
          in t_rc r \<noteq> 0 \<and> t_fs r = []))"

text \<open>Raising on an unchanged disk.\<close>

abbreviation refuses :: "env \<Rightarrow> fs \<Rightarrow> 'a proc \<Rightarrow> bool" where
  "refuses e f m \<equiv> xtriple e ((=) f) ((=) f) (\<lambda>_. (=) f) m (\<lambda>_ _. False)"

lemma refuses_bnd: "refuses e f m \<Longrightarrow> refuses e f (bnd m k)"
  by (rule tr_bnd) (auto simp: triple_def)

lemma refuses_after: "keeps e ((=) f) m \<Longrightarrow> (\<And>x. refuses e f (k x)) \<Longrightarrow> refuses e f (bnd m k)"
  by (rule tr_bnd)

lemma refuses_result:
  assumes "refuses e f m"
  shows "(\<exists>x. outcome m e f = Inl x) \<and> crash_states m e f = {f}"
proof -
  have "g = f" if "g \<in> crash_states m e f" for g
  proof -
    have "triple e ((=) f) ((=) f) m (\<lambda>_ _. True)" by (rule tr_conseq_x [OF assms]) auto
    from triple_crash [OF this refl refl that] show ?thesis by simp
  qed
  then have "crash_states m e f = {f}" by (auto simp: crash_states_def)
  then show ?thesis using xtriple_outcome [OF assms refl] by (auto split: sum.splits)
qed

lemma refuses_die: "refuses e f (die t)"
  by (auto simp: die_def triple_def run_simps)

lemma refuses_run:
  assumes "\<And>g. t_rc (tool e cmd g) \<noteq> 0 \<and> t_fs (tool e cmd g) = []"
  shows "refuses e f (run cmd True True)"
proof -
  have ex: "xtriple e ((=) f) ((=) f) (\<lambda>_. (=) f) (exec cmd) (\<lambda>r g. f = g \<and> t_rc r \<noteq> 0)"
    using assms by (auto simp: triple_def exec_def Let_def)
  have fail: "xtriple e (\<lambda>g. f = g \<and> t_rc r \<noteq> 0) ((=) f) (\<lambda>_. (=) f)
      (bnd (if_do (t_rc r \<noteq> 0) (steps [if_do (t_err r \<noteq> []) (eprint (t_err r)), die t])) k) (\<lambda>_ _. False)"
    for r t k
    by (auto simp: triple_def run_simps die_def)
  show ?thesis unfolding run_def Let_def
    by (rule tr_asks_bnd, simp only: simp_thms if_False) (rule refuses_after [OF _ tr_bnd [OF ex fail]], auto intro: tr_vlog)
qed

lemma unsigned_refused:
  assumes "unsigned e ref ci iss"
  shows "refuses e f (cosign_verify ref ci iss False)"
proof (cases "ci = None \<or> ci = Some []")
  case True
  then show ?thesis by (auto simp: cosign_verify_def intro: refuses_die)
next
  case False
  then obtain i where i: "ci = Some i" "i \<noteq> []" by auto
  then have "refuses e f (run [''cosign'', ''verify'', ''--certificate-identity-regexp'', i, ''--certificate-oidc-issuer'', iss, ref] True True)"
    using assms by (intro refuses_run) (auto simp: unsigned_def Let_def)
  then show ?thesis using i
    by (simp add: cosign_verify_def) (rule refuses_after [OF keeps_require(2) refuses_bnd [OF refuses_bnd]])
qed

lemma unsigned_source:
  assumes "unsigned e ref ci iss"
  shows "refuses e f (source_from_ref ref ci iss False)" "refuses e f (do_deploy d b ref ci iss False)"
proof -
  show s: "refuses e f (source_from_ref ref ci iss False)"
    unfolding source_from_ref_def
    by (rule refuses_after [OF keeps_require(2) refuses_bnd [OF unsigned_refused [OF assms]]])
  show "refuses e f (do_deploy d b ref ci iss False)"
    unfolding do_deploy_def by (rule refuses_bnd [OF s])
qed

section \<open>The lock\<close>

text \<open>The states the holder of the lock takes the disk through, and the one it leaves.\<close>

definition held :: "env \<Rightarrow> fs \<Rightarrow> fs list" where
  "held e f = (case lock_holder e of None \<Rightarrow> [] | Some work \<Rightarrow> work f)"

definition lock_file :: "path \<Rightarrow> fs \<Rightarrow> bool" where
  "lock_file d f \<longleftrightarrow> (case lookup f (d @ [LOCK_NAME]) of
     Some (File i) \<Rightarrow> (case inodes f i of Some nd \<Rightarrow> \<not> verity nd | None \<Rightarrow> False) | _ \<Rightarrow> False)"

lemma lock_path: "pjoin d LOCK_NAME = d @ [LOCK_NAME]"
proof -
  have "plain_name LOCK_NAME" by code_simp
  then show ?thesis by simp
qed

lemma open_lock:
  assumes "lock_file d f"
  shows "open_rw1 (d @ [LOCK_NAME]) f = (Inr (), [])"
proof -
  obtain i nd where "lookup f (d @ [LOCK_NAME]) = Some (File i)" "inodes f i = Some nd" "\<not> verity nd"
    using assms by (auto simp: lock_file_def split: option.splits node.splits)
  then show ?thesis by (simp add: open_rw1_def realpath_no_link is_symlink_def)
qed

lemma locked_tot:
  assumes l: "lock_file d f" and dry: "\<not> dry_run e" and m: "tot e ((=) (last (f # held e f))) C m Q"
  shows "tot e ((=) f) (\<lambda>g. g \<in> set (held e f) \<or> C g) (deploy_lock d m) Q"
proof -
  let ?C = "\<lambda>g. g \<in> set (held e f) \<or> C g" and ?h = "last (f # held e f)"
  have o: "tot e ((=) f) ?C (syscall (open_rw1 (d @ [LOCK_NAME]))) (\<lambda>_. (=) f)"
    by (rule tr_syscall) (auto simp: open_lock [OF l])
  have fl: "tot e ((=) f) ?C flock (\<lambda>_. (=) ?h)"
  proof (cases "lock_holder e")
    case None
    then show ?thesis by (auto simp: flock_def held_def triple_def run_simps)
  next
    case (Some work)
    have "tot e ((=) f) ?C (syscall (\<lambda>f. (Inr (), work f))) (\<lambda>_. (=) ?h)"
      by (rule tr_syscall) (auto simp: held_def Some)
    then show ?thesis unfolding flock_def
      by (intro tr_asks_bnd) (auto simp: Some intro: tr_bnd [OF tr_log])
  qed
  have run: "tot e ((=) f) ?C (bnd flock (\<lambda>_. m)) Q"
    by (rule tr_bnd [OF fl tr_total [OF m]]) auto
  have fin: "tot e ((=) f) ?C (try_finally (bnd flock (\<lambda>_. m)) (ret ())) Q"
    using run by (auto simp: triple_def try_finally_def ret_def split: prod.splits sum.splits)
  show ?thesis unfolding deploy_lock_def lock_path
    by (rule tr_asks_bnd) (simp only: dry if_False, rule tr_bnd [OF o fin])
qed

text \<open>\<open>zerithctl rollback\<close> on an installed host, another command holding the lock or not.\<close>

definition command_ready :: "args \<Rightarrow> env \<Rightarrow> fs \<Rightarrow> bool" where
  "command_ready a e f \<longleftrightarrow> euid e = 0 \<and> \<not> a_dry_run a \<and> is_dir f (shared_objects (a_deploy a)) \<and>
     is_dir f (pjoin (a_esp a) ''zerith'') \<and> lock_file (a_deploy a) f"

lemma command_tot:
  assumes r: "command_ready a e f" and c: "a_cmd a \<notin> {''install'', ''status''}"
    and m: "\<And>p. tot (e\<lparr>dry_run := a_dry_run a, verbose := a_verbose a\<rparr>) ((=) (last (f # held e f))) C (host_body a p) Q"
  shows "tot e ((=) f) (\<lambda>g. g \<in> set (held e f) \<or> C g) (main a) (\<lambda>x g. x = 0 \<and> Q () g)"
proof -
  let ?e = "e\<lparr>dry_run := a_dry_run a, verbose := a_verbose a\<rparr>" and ?C = "\<lambda>g. g \<in> set (held e f) \<or> C g"
  have h: "held ?e f = held e f" and dry: "\<not> dry_run ?e" using r by (simp_all add: held_def command_ready_def)
  have root: "tot ?e ((=) f) ?C require_root (\<lambda>_. (=) f)"
    using r by (auto simp: require_root_def triple_def run_simps command_ready_def)
  have layout: "tot ?e ((=) f) ?C (check_layout (a_deploy a) (a_esp a)) (\<lambda>_. (=) f)"
    using r by (auto simp: check_layout_def triple_def run_simps command_ready_def)
  have lock: "tot ?e ((=) f) ?C (deploy_lock (a_deploy a) (host_body a p)) Q" for p
    using locked_tot [OF _ dry, of "a_deploy a" f C "host_body a p" Q] m r by (simp add: h command_ready_def)
  have "tot ?e ((=) f) ?C (cmd_host a) (\<lambda>x g. x = 0 \<and> Q () g)"
    unfolding cmd_host_def Let_def using c
    by (simp only: insert_iff empty_iff de_Morgan_disj simp_thms if_False)
      (simp only: steps.simps bnd_assoc bnd_ret, rule tr_bnd [OF root tr_bnd [OF layout tr_bnd [OF lock]]], auto intro: tr_ret)
  moreover have "main a e = cmd_host a ?e" using c by (auto simp: main_def)
  ultimately show ?thesis unfolding triple_def by (simp only:)
qed

section \<open>A promotion started again\<close>

lemma promote_run:
  assumes p: "promote_ready d b new f" and dry: "\<not> dry_run e" and old: "roles_of d f ''current'' = Some old"
  defines "tail \<equiv> \<lambda>_::unit. bnd (role_flip d new (Some old)) (\<lambda>_. steps
     [gc d, log (''promoted '' @ new @ (if old \<noteq> [] then '' (previous current '' @ old @ '' -> fallback)'' else []))])"
  shows "promote d b new e (boot f) = bnd (promote_copies d b new) tail e (boot f)"
proof -
  have n: "plain_name new" "old \<noteq> new" using p old by (auto simp: promote_ready_def)
  have files: "is_file f (uki_of d new)" "is_file f (cur_efi b)" using p cat_is_file by (auto simp: promote_ready_def)
  have r: "read_role d ''current'' e (boot f) = (Inr (Some old), boot f)"
    using read_role_run [OF roles_in(1), of d e "boot f"] old by (simp add: roles_of_def roles_in boot_def)
  have rr: "bnd (read_role d ''current'') k e (boot f) = k (Some old) e (boot f)" for k :: "string option \<Rightarrow> unit proc"
    using r by (simp add: bnd_def)
  have a: "bnd (asks dry_run) k e w = k False e w" for k :: "bool \<Rightarrow> unit proc" and w using dry by (simp add: run_simps)
  have g: "bnd (gets h) k e (boot f) = k (h f) e (boot f)" for h and k :: "bool \<Rightarrow> unit proc" by (simp add: run_simps boot_def)
  have ne: "(Some old = Some new) = False" "(Some old \<noteq> None) = True" using n(2) by auto
  show ?thesis
    unfolding promote_def Let_def deploy_paths [OF n(1)] cur_efi_def [symmetric] fb_efi_def [symmetric]
      tail_def promote_copies_def role_flip_def
    by (simp only: rr ne if_False a g files simp_thms if_do_def if_True bnd_ret bnd_assoc option.case)
qed

lemma state_between:
  assumes m: "tot e ((=) f) C m R" and k: "\<And>x. xtriple e P D X (k x) Q" and P: "P (disk_after m e f)"
  shows "disk_after m e f \<in> crash_states (bnd m k) e f"
proof -
  obtain r w where mw: "m e (boot f) = (r, w)" by fastforce
  have bf: "f = fsys (boot f)" by (simp add: boot_def)
  obtain n where n: "hist w = n @ hist (boot f)" "fsys w = hd (n @ [fsys (boot f)])" "\<And>x. r \<noteq> Inl x"
    using tripleD [OF m bf mw] by metis
  obtain x where x: "r = Inr x" using n(3) by (cases r) auto
  obtain r2 w2 where kw: "k x e w = (r2, w2)" by fastforce
  have "P (fsys w)" using P mw by (simp add: disk_after_def)
  from tripleD [OF k this kw] obtain n2 where n2: "hist w2 = n2 @ hist w" by metis
  have "bnd m k e (boot f) = (r2, w2)" using mw x kw by (simp add: bnd_def)
  then show ?thesis using n n2 mw by (cases n) (auto simp: crash_states_def disk_after_def boot_def)
qed

lemma tail_goes: "triple e wf_fs (\<lambda>_. True) (bnd (role_flip d new old) (\<lambda>_. steps [gc d, log m])) (\<lambda>_ _. True)"
proof -
  have r: "keeps e wf_fs (role_flip d new old)"
    unfolding role_flip_def by (auto intro!: tr_rules wf.keeps_layout split: option.split)
  have g: "triple e wf_fs (\<lambda>_. True) (gc d) (\<lambda>_ _. True)"
  proof (rule tr_exact)
    fix f assume "wf_fs f"
    from gc_frame [OF this] show "triple e ((=) f) (\<lambda>_. True) (gc d) (\<lambda>_ _. True)"
      by (rule tr_conseq) auto
  qed
  have "triple e wf_fs (\<lambda>_. True) (role_flip d new old) (\<lambda>_. wf_fs)"
    by (rule tr_conseq_x [OF r]) auto
  moreover have "triple e wf_fs (\<lambda>_. True) (steps [gc d, log m]) (\<lambda>_ _. True)"
    unfolding steps.simps by (rule tr_bnd [OF g]) (auto intro: tr_bnd [OF tr_log] tr_ret)
  ultimately show ?thesis by (rule tr_bnd)
qed

text \<open>A crash between the copies and the role flip leaves the new image in the place of the
  current one, and the host ready for the promotion to be started again.\<close>

lemma copied_ready:
  assumes p: "promote_ready d b new f" and g: "esp_state b f (cat f (uki_of d new)) k g"
  shows "promote_ready d b new g"
proof -
  have s: "separate d b" using p by (simp add: promote_ready_def)
  have o: "outside b f g" and r: "esp_ready b g" using g by (auto simp: esp_state_def)
  have same: "lookup g (d @ x) = lookup f (d @ x)" "cat g (d @ x) = cat f (d @ x)" for x
    using o not_inside [OF s, of x] by (auto simp: outside_def)
  have wf: "wf_fs g" using r by (auto simp: esp_ready_def copy_ready_def esp_fat_wf)
  have "plain_store (shared_objects d) g"
  proof -
    have "lookup g q = lookup f q" if q: "prefix (shared_objects d) q" for q
    proof -
      obtain x where "q = d @ x" using q by (auto simp: shared_objects_path prefix_def)
      then show ?thesis using same by simp
    qed
    then show ?thesis using p wf unfolding promote_ready_def plain_store_def
      by (simp add: is_symlink_def strict_prefix_def)
  qed
  moreover have "roles_of d g = roles_of d f" "roles_free d g" using outside_roles [OF s o] p wf by (auto simp: promote_ready_def)
  ultimately show ?thesis
    using p r g same by (simp add: promote_ready_def esp_state_def is_symlink_def uki_of_def)
qed

lemma promote_again:
  assumes p: "promote_ready d b new f" and dry: "\<not> dry_run e" and old: "roles_of d f ''current'' = Some old"
  shows "\<exists>g \<in> crash_states (promote d b new) e f. promote_ready d b new g \<and> roles_of d g = roles_of d f \<and>
     cat g (cur_efi b) = cat f (uki_of d new) \<and> cat g (uki_of d new) = cat f (uki_of d new)"
proof -
  obtain n' o' where cats: "cat f (uki_of d new) = Some n'" "cat f (cur_efi b) = Some o'"
    using p by (auto simp: promote_ready_def)
  have s: "separate d b" "esp_ready b f" "\<not> is_symlink f (d @ [new, BOOTLOADER_NAME])"
    using p by (auto simp: promote_ready_def)
  note C = copies_tot [OF s(1) dry s(2) cats(2,1) s(3)]
  let ?g = "disk_after (promote_copies d b new) e f"
  have g: "esp_state b f (cat f (uki_of d new)) (Some o') ?g" using tot_outcome [OF C refl] cats by auto
  then have wf: "wf_fs ?g" by (auto simp: esp_state_def esp_ready_def copy_ready_def esp_fat_wf)
  have "?g \<in> crash_states (promote d b new) e f"
    unfolding crash_states_def promote_run [OF p dry old]
    by (rule state_between [OF C tail_goes wf, unfolded crash_states_def])
  moreover have "roles_of d ?g = roles_of d f" "cat ?g (uki_of d new) = cat f (uki_of d new)"
    using g outside_roles(1) [OF s(1)] not_inside [OF s(1)] by (auto simp: esp_state_def outside_def uki_of_def)
  ultimately show ?thesis using copied_ready [OF p g] g by (auto simp: esp_state_def)
qed

end
