(* ===== verification/Materialize.thy ===== *)
theory Materialize
  imports PackLanding CommandSpec
begin

text \<open>
  Materializing a deployment from a local build directory, from the check for a kernel image to
  the metadata: it returns with a complete deployment, and on the way touches nothing but the
  deployment's own directory and the object store.
\<close>

section \<open>The deployment while it is built\<close>

text \<open>The disk before is \<open>f\<close>; \<open>D\<close> are the objects to land.\<close>

definition touched :: "path \<Rightarrow> string \<Rightarrow> path set" where
  "touched d did = {q. prefix (d @ [did]) q \<or> prefix (shared_objects d) q}"

definition base :: "(string \<Rightarrow> string) \<Rightarrow> path \<Rightarrow> string \<Rightarrow> path set \<Rightarrow> fs \<Rightarrow> fs \<Rightarrow> bool" where
  "base vd d did D f g \<longleftrightarrow> sound_store vd (shared_objects d) g \<and> same_but (touched d did) f g \<and>
     grows (shared_objects d) f g \<and> in_store (shared_objects d) D g \<and> lookup g (d @ [did]) = Some Dir"

definition holder_done :: "path \<Rightarrow> string \<Rightarrow> path set \<Rightarrow> fs \<Rightarrow> bool" where
  "holder_done d did R g \<longleftrightarrow> (\<forall>y. y \<noteq> [] \<longrightarrow> lookup g (d @ [did, ''objects''] @ y) = holder_node g (shared_objects d) R y)"

lemma base_place:
  assumes "base vd d did D f g" "lookup g (d @ [did, nm]) = None"
  shows "free_place (d @ [did, nm]) g"
  using assms by (auto simp: free_place_def base_def sound_store_def store_ok_def butlast_append)

lemma in_touched: "d @ did # x \<in> touched d did"
proof -
  have "prefix (d @ [did]) ((d @ [did]) @ x)" by (rule prefixI [OF refl])
  then show ?thesis by (simp add: touched_def)
qed

lemma own_not_shared: "did \<noteq> ''shared'' \<Longrightarrow> \<not> prefix (shared_objects d) (d @ did # x)" "did \<noteq> ''shared'' \<Longrightarrow> d @ did # x \<noteq> shared_objects d @ y"
  by (auto simp: shared_objects_path)

lemma grows_own: "did \<noteq> ''shared'' \<Longrightarrow> same_but {d @ [did, nm]} g h \<Longrightarrow> grows (shared_objects d) g h"
  using own_not_shared(1) [of did d "[nm]"] by (intro grows_same) (auto simp: same_but_def)

lemma base_step: "base vd d did D f g \<Longrightarrow> same_but {d @ [did, nm]} g h \<Longrightarrow> same_but (touched d did) f h"
  using in_touched [of d did "[nm]"] by (auto simp: base_def elim!: same_but_trans)

lemma base_added:
  assumes g: "base vd d did D f g" and n: "did \<noteq> ''shared''" and p: "lookup g (d @ [did, nm]) = None" and h: "added (d @ [did, nm]) b v g h"
  shows "base vd d did D f h"
proof -
  note fp = base_place [OF g p]
  note same = added_same [OF fp h]
  have "sound_store vd (shared_objects d) h"
    by (rule sound_added [OF _ fp h own_not_shared(1) [OF n]]) (use g in \<open>simp add: base_def\<close>)
  moreover have "in_store (shared_objects d) D h"
    unfolding in_store_def
  proof
    fix q assume "q \<in> D"
    then have q: "stored (shared_objects d) q" "lookup g q \<noteq> None" using g by (auto simp: base_def in_store_def)
    then have "q \<noteq> d @ [did, nm]" using own_not_shared(1) [OF n, of d "[nm]"] by (auto simp: stored_def strict_prefix_def)
    then show "stored (shared_objects d) q \<and> lookup h q \<noteq> None" using q same by (simp add: same_but_def)
  qed
  moreover have "lookup h (d @ [did]) = lookup g (d @ [did])" by (rule same [unfolded same_but_def, rule_format, THEN conjunct1]) simp
  moreover have "lookup g (d @ [did]) = Some Dir" using g by (simp add: base_def)
  moreover have "grows (shared_objects d) f h"
    by (rule grows_trans [OF _ grows_own [OF n same]]) (use g in \<open>simp add: base_def\<close>)
  ultimately show ?thesis unfolding base_def using base_step [OF g same] by simp
qed

lemma holder_node_same:
  assumes "\<And>x. lookup h (s @ x) = lookup g (s @ x)" "\<And>x. x \<noteq> [] \<Longrightarrow> \<not> is_symlink g (s @ x)" "y \<noteq> []"
  shows "holder_node h s R y = holder_node g s R y"
proof -
  have "is_file h (s @ x) = is_file g (s @ x)" if "x \<noteq> []" for x
    by (rule same_file [OF assms(1) assms(2) [OF that]])
  from this [of y] this [of "y @ [b]" for b] show ?thesis using assms(1,3) by (simp add: holder_node_def)
qed

lemma holder_added:
  assumes g: "base vd d did D f g" and n: "did \<noteq> ''shared''" "nm \<noteq> ''objects''" and p: "lookup g (d @ [did, nm]) = None"
    and h: "added (d @ [did, nm]) b v g h" and r: "holder_done d did R g"
  shows "holder_done d did R h"
  unfolding holder_done_def
proof (intro allI impI)
  fix y :: path assume y: "y \<noteq> []"
  note same = added_same [OF base_place [OF g p] h, unfolded same_but_def, rule_format]
  have "lookup h (shared_objects d @ x) = lookup g (shared_objects d @ x)" for x
    by (rule conjunct1 [OF same]) (use own_not_shared(2) [OF n(1), of d "[nm]" x] in auto)
  moreover have "\<not> is_symlink g (shared_objects d @ x)" if "x \<noteq> []" for x
    using store_no_link [of vd "shared_objects d" g] g that by (simp add: base_def sound_store_def strict_prefix_def)
  ultimately have "holder_node h (shared_objects d) R y = holder_node g (shared_objects d) R y"
    using y by (rule holder_node_same)
  then show "lookup h (d @ [did, ''objects''] @ y) = holder_node h (shared_objects d) R y"
    using same [of "d @ [did, ''objects''] @ y"] n(2) r y by (simp add: holder_done_def)
qed

section \<open>The steps\<close>

text \<open>An artifact for deployment \<open>did\<close> with root image \<open>x\<close>, and an environment with tools that do
  their work.\<close>

definition artifact :: "(string \<Rightarrow> string) \<Rightarrow> path \<Rightarrow> source \<Rightarrow> string \<Rightarrow> string \<Rightarrow> fs \<Rightarrow> bool" where
  "artifact vd d src did x f \<longleftrightarrow> src_deploy_id src = Inr did \<and> plain_name did \<and> did \<noteq> ''shared'' \<and> separate d (staging src) \<and>
     cat f (src_root_cfs src) = Some x \<and> src_digest src = Inr (JStr (vd x)) \<and> cat f (src_uki src) \<noteq> None \<and>
     \<not> is_symlink f (src_bootloader src)"

definition deploy_env :: "(string \<Rightarrow> string) \<Rightarrow> env \<Rightarrow> path \<Rightarrow> string \<Rightarrow> string \<Rightarrow> bool" where
  "deploy_env vd e d x listing \<longleftrightarrow> landing_env vd e (shared_objects d) \<and> tools_keep wf_fs e \<and>
     (\<forall>xs. set (set_order e xs) = set xs) \<and> has_tool e ''composefs-info'' \<and>
     (\<forall>rc g. plain_path rc \<longrightarrow> cat g rc = Some x \<longrightarrow> tool e [''composefs-info'', ''dump'', path_str rc] g = \<lparr>t_rc = 0, t_out = listing, t_err = [], t_fs = []\<rparr>)"

definition objects_of :: "path \<Rightarrow> source \<Rightarrow> fs \<Rightarrow> path set" where
  "objects_of d src f = tree_dest (staging src @ [''objects'']) (shared_objects d) ` set (walk_files f (staging src @ [''objects'']))"

text \<open>Where the objects come from: the tree beside the artifact, or the registry. \<open>D\<close> are the
  objects it supplies, \<open>A\<close> the names it may use on the way.\<close>

definition supplies :: "(string \<Rightarrow> string) \<Rightarrow> env \<Rightarrow> path \<Rightarrow> source \<Rightarrow> string \<Rightarrow> path set \<Rightarrow> path set \<Rightarrow> fs \<Rightarrow> bool" where
  "supplies vd e d src listing A D f \<longleftrightarrow> (case local_objects src of
     Some tree \<Rightarrow> tree = staging src @ [''objects''] \<and> object_tree vd (shared_objects d) tree f \<and> A = {} \<and> D = objects_of d src f
   | None \<Rightarrow> plain_path (staging src) \<and> (\<exists>t index pack. fetch_env vd e (shared_objects d) \<and> tempdir t e \<and> separate d t \<and>
       lookup f t = Some Dir \<and> published e t src index pack \<and> describes vd index pack \<and>
       A = new_below t f \<and> D = packed (shared_objects d) index listing))"

lemma staging_kept:
  assumes "artifact vd d src did x f" "same_but (touched d did) f g"
  shows "lookup g (staging src @ y) = lookup f (staging src @ y)" "cat g (staging src @ y) = cat f (staging src @ y)"
proof -
  have "\<not> prefix d (staging src @ y)"
    using assms(1) separate_disjoint [of d "staging src" "staging src @ y"] by (auto simp: artifact_def)
  moreover have "prefix d q" if "q \<in> touched d did" for q
    using that by (auto simp: touched_def shared_objects_path prefix_def)
  ultimately have "staging src @ y \<notin> touched d did" by blast
  then show "lookup g (staging src @ y) = lookup f (staging src @ y)" "cat g (staging src @ y) = cat f (staging src @ y)"
    using assms(2) by (auto simp: same_but_def)
qed

lemma source_paths:
  "src_root_cfs src = staging src @ [CFS_NAME]" "src_uki src = staging src @ [UKI_NAME]" "src_bootloader src = staging src @ [BOOTLOADER_NAME]"
proof -
  have "plain_name CFS_NAME" "plain_name UKI_NAME" "plain_name BOOTLOADER_NAME" by code_simp+
  then show "src_root_cfs src = staging src @ [CFS_NAME]" "src_uki src = staging src @ [UKI_NAME]" "src_bootloader src = staging src @ [BOOTLOADER_NAME]"
    by (simp_all add: src_root_cfs_def src_uki_def src_bootloader_def)
qed

lemma file_names:
  "plain_name CFS_NAME" "plain_name UKI_NAME" "plain_name BOOTLOADER_NAME" "plain_name META_NAME"
  "distinct [CFS_NAME, UKI_NAME, BOOTLOADER_NAME, META_NAME, ''objects'']"
  by code_simp+

text \<open>The directory and the objects.\<close>

lemma tree_same:
  assumes T: "object_tree vd s t f" and wf: "wf_fs f" "wf_fs g"
    and same: "\<And>y. lookup g (t @ y) = lookup f (t @ y) \<and> cat g (t @ y) = cat f (t @ y)"
  shows "object_tree vd s t g" "set (walk_files g t) = set (walk_files f t)"
proof -
  have at: "lookup g p = lookup f p \<and> cat g p = cat f p" if p: "strict_prefix t p" for p
    using same p by (auto simp: strict_prefix_def prefix_def)
  have nl: "\<not> is_symlink f p" "\<not> is_symlink g p" if "strict_prefix t p" for p
    using T at [OF that] that by (auto simp: object_tree_def object_at_def is_symlink_def)
  show w: "set (walk_files g t) = set (walk_files f t)"
    using at nl wf by (auto simp: walk_files_def wf_below is_dir_def stat_no_link)
  have "strict_prefix t fp" if "fp \<in> set (walk_files f t)" for fp
    using that wf by (simp add: walk_files_def wf_below)
  then show "object_tree vd s t g" using T nl at unfolding object_tree_def object_at_def w by metis
qed

lemma separate_store:
  assumes s: "separate d t"
  shows "clear_of (shared_objects d) t"
proof -
  have d: "prefix d (shared_objects d)" by (simp add: shared_objects_path)
  have "\<not> prefix (shared_objects d) t" using s prefix_order.trans [OF d] by (auto simp: separate_def)
  moreover have "\<not> prefix t (shared_objects d)" using separate_disjoint [OF s d] .
  ultimately show ?thesis by (simp add: clear_of_def)
qed

lemma supply_apart:
  assumes "supplies vd e d src listing A D f" "q \<in> A"
  shows "\<not> prefix d q"
proof (cases "local_objects src")
  case None
  then obtain t nm where t: "separate d t" "prefix (t @ [nm]) q" using assms by (auto simp: supplies_def new_below_def)
  then have "prefix t q" by (simp add: append_prefixD)
  then show ?thesis using separate_disjoint [OF t(1)] by blast
qed (use assms in \<open>auto simp: supplies_def\<close>)

lemma supply_same:
  assumes S: "supplies vd e d src listing A D f" and wf: "wf_fs f" "wf_fs g" and same: "same_but {d @ [did]} f g" and a: "separate d (staging src)"
  shows "supplies vd e d src listing A D g"
proof (cases "local_objects src")
  case (Some tree)
  have T: "tree = staging src @ [''objects'']" "object_tree vd (shared_objects d) tree f" "A = {}" "D = objects_of d src f"
    using S Some by (auto simp: supplies_def)
  have "\<not> prefix (staging src) (d @ [did])" by (rule separate_disjoint [OF a]) simp
  then have "staging src @ y \<noteq> d @ [did]" for y by (metis prefixI)
  then have keep: "lookup g (tree @ y) = lookup f (tree @ y) \<and> cat g (tree @ y) = cat f (tree @ y)" for y
    using same by (simp add: T(1) same_but_def)
  note tr = tree_same [OF T(2) wf keep]
  show ?thesis using Some T tr by (simp add: supplies_def objects_of_def)
next
  case None
  then obtain t index pack where T: "plain_path (staging src)" "fetch_env vd e (shared_objects d)" "tempdir t e" "separate d t"
      "lookup f t = Some Dir" "published e t src index pack" "describes vd index pack" "A = new_below t f"
      "D = packed (shared_objects d) index listing"
    using S by (auto simp: supplies_def)
  have ne: "d @ [did] \<noteq> t" "d @ [did] \<noteq> t @ [nm]" for nm using T(4) by (auto simp: separate_def)
  then have tg: "lookup g t = Some Dir" and "lookup g (t @ [nm]) = lookup f (t @ [nm])" for nm
    using same T(5) unfolding same_but_def by (metis singletonD)+
  note nb = new_below_same [OF this(2)]
  show ?thesis unfolding supplies_def None option.case nb [symmetric] T(9)
    using T(1-4,6,7) tg T(8) [folded nb] by blast
qed

lemma supplied_tot:
  assumes S: "supplies vd e d src listing A D f" and E: "deploy_env vd e d x listing" and f: "sound_store vd (shared_objects d) f"
    and a: "separate d (staging src)" "cat f (src_root_cfs src) = Some x"
  shows "tot e ((=) f) (same_but ({q. prefix (shared_objects d) q} \<union> A) f) (land_objects src (shared_objects d))
    (\<lambda>_ h. sound_store vd (shared_objects d) h \<and> outside (shared_objects d) f h \<and> grows (shared_objects d) f h \<and> in_store (shared_objects d) D h)"
proof (cases "local_objects src")
  case (Some tree)
  have T: "tree = staging src @ [''objects'']" "object_tree vd (shared_objects d) tree f" "D = objects_of d src f"
    using S Some by (auto simp: supplies_def)
  have L: "landing_env vd e (shared_objects d)" using E by (simp add: deploy_env_def)
  show ?thesis unfolding land_objects_def Some option.case
    by (rule tr_total [OF land_tree [OF L f T(2)]]) (use T(1,3) in \<open>auto simp: objects_of_def same_but_def outside_def\<close>)
next
  case None
  then obtain t index pack where T: "plain_path (staging src)" "fetch_env vd e (shared_objects d)" "tempdir t e" "separate d t"
      "lookup f t = Some Dir" "published e t src index pack" "describes vd index pack" "A = new_below t f"
      "D = packed (shared_objects d) index listing"
    using S by (auto simp: supplies_def)
  obtain pm pd where p: "src_objects_pack src = Inr pm" "meta_item pm ''digest'' = Inr pd" using T(6) unfolding published_def by blast
  then have pt: "truthy pm" by (cases pm) (auto simp: meta_item_def split: option.splits)
  have rc: "plain_path (src_root_cfs src)" using T(1) file_names(1) by (simp add: source_paths plain_path_def)
  have dump: "dump_tool e (src_root_cfs src) listing f" using E rc a(2) by (simp add: dump_tool_def deploy_env_def)
  have out: "\<not> prefix (shared_objects d) (src_root_cfs src)"
  proof
    assume "prefix (shared_objects d) (src_root_cfs src)"
    then have "prefix d (src_root_cfs src)" unfolding shared_objects_path by (rule append_prefixD)
    from separate_disjoint [OF a(1) this] show False by (simp add: source_paths)
  qed
  show ?thesis unfolding land_objects_def None option.case p(1) bnd_lift if_P [OF pt] T(8,9)
    by (rule tr_total [OF land_from_pack_tot [OF T(2,3) separate_store [OF T(4)] T(6,7) dump out f T(5)]])
      (auto simp: fetch_area_def)
qed

lemma stage_land:
  assumes a: "artifact vd d src did x f" and E: "deploy_env vd e d x listing" and f: "sound_store vd (shared_objects d) f"
    and S: "supplies vd e d src listing A D f" and d: "lookup f d = Some Dir" "lookup f (d @ [did]) = None"
  shows "tot e ((=) f) (same_but (touched d did \<union> A) f) (bnd (mkdirs (d @ [did])) (\<lambda>_. land_objects src (shared_objects d)))
    (\<lambda>_ g. base vd d did D f g \<and> (\<forall>y. y \<noteq> [] \<longrightarrow> lookup g (d @ did # y) = None))"
proof -
  let ?s = "shared_objects d" and ?dd = "d @ [did]" and ?T = "touched d did"
  let ?f1 = "set_entry ?dd Dir f" and ?C = "same_but (touched d did \<union> A) f"
  have n: "did \<noteq> ''shared''" and sep: "separate d (staging src)" and x: "cat f (src_root_cfs src) = Some x"
    using a by (auto simp: artifact_def)
  have wf: "wf_fs f" by (rule sound_wf [OF f])
  have mk: "mkdir1 ?dd f = Inr ?f1" using d by (simp add: mkdir1_def parent_err_def)
  have wf1: "wf_fs ?f1" by (rule wf_mkdir1 [OF wf mk])
  have l1: "lookup ?f1 q = (if q = ?dd then Some Dir else lookup f q)" for q by (simp add: fs_simps)
  have i1: "inodes ?f1 = inodes f" by (simp add: fs_simps)
  have same1: "same_but {?dd} f ?f1" unfolding same_but_def using l1 cat_cong [OF _ i1] by simp
  have dd: "?dd \<in> ?T" using in_touched [of d did "[]"] by simp
  have T1: "same_but ?T f ?f1" by (rule same_but_trans [OF same_but_refl [of "{}"] same1]) (use dd in auto)
  have own: "q \<noteq> ?dd" if "prefix ?s q" for q using that own_not_shared(1) [OF n, of d "[]"] by auto
  have sound: "sound_store vd ?s ?f1"
    by (rule sound_names [OF f wf1 i1]) (use l1 own in \<open>auto split: if_splits\<close>)
  have gr: "grows ?s f ?f1" by (rule grows_same) (use same1 own in \<open>auto simp: same_but_def\<close>)
  note S1 = supply_same [OF S wf wf1 same1 sep]
  have x1: "cat ?f1 (src_root_cfs src) = Some x" using staging_kept(2) [OF a T1, of "[CFS_NAME]"] x by (simp add: source_paths)
  have out: "?C g" if "same_but ({q. prefix ?s q} \<union> A) ?f1 g" for g
    by (rule same_but_trans [OF T1 that]) (auto simp: touched_def)
  have land: "tot e ((=) ?f1) ?C (land_objects src ?s) (\<lambda>_ g. base vd d did D f g \<and> (\<forall>y. y \<noteq> [] \<longrightarrow> lookup g (d @ did # y) = None))"
  proof (rule tr_conseq_x [OF supplied_tot [OF S1 E sound sep x1]])
    fix u g assume "sound_store vd ?s g \<and> outside ?s ?f1 g \<and> grows ?s ?f1 g \<and> in_store ?s D g"
    then have g: "sound_store vd ?s g" "outside ?s ?f1 g" "grows ?s ?f1 g" "in_store ?s D g" by auto
    have at: "lookup g (d @ did # y) = lookup ?f1 (d @ did # y)" for y
      using g(2) own_not_shared(1) [OF n] by (simp add: outside_def)
    have none: "lookup g (d @ did # y) = None" if "y \<noteq> []" for y
    proof -
      have "lookup f (d @ did # y) = None"
        using wf_prefix_dir [OF wf, of "d @ did # y" _ ?dd] d(2) that by (cases "lookup f (d @ did # y)") (auto simp: strict_prefix_def)
      then show ?thesis using at that l1 by simp
    qed
    have "same_but ?T f g"
      by (rule same_but_trans [OF T1, of "{q. prefix ?s q}"]) (use g(2) in \<open>auto simp: same_but_def outside_def touched_def\<close>)
    then show "base vd d did D f g \<and> (\<forall>y. y \<noteq> [] \<longrightarrow> lookup g (d @ did # y) = None)"
      using none g grows_trans [OF gr g(3)] at [of "[]"] l1 by (simp add: base_def)
  qed (use out in auto)
  have "?C ?f1" by (rule same_but_trans [OF T1 same_but_refl [of "{}"]]) auto
  then have mkd: "tot e ((=) f) ?C (mkdirs ?dd) (\<lambda>_. (=) ?f1)"
    using mkdirs_one [of f ?dd ?C e] d by simp
  show ?thesis by (rule tr_bnd [OF mkd land])
qed

text \<open>The root image.\<close>

lemma stage_root:
  assumes a: "artifact vd d src did x f" and E: "deploy_env vd e d x listing" and g: "base vd d did D f g"
    and free: "\<forall>y. y \<noteq> [] \<longrightarrow> lookup g (d @ did # y) = None"
  shows "tot e ((=) g) (same_but (touched d did) f) (place_root_cfs src (d @ [did, CFS_NAME]))
    (\<lambda>_ h. base vd d did D f h \<and> placed (d @ [did, CFS_NAME]) x h \<and>
       (\<forall>y. y \<noteq> [] \<longrightarrow> y \<noteq> [CFS_NAME] \<longrightarrow> lookup h (d @ did # y) = None))"
proof -
  have L: "fsverity_tool vd e" "plain_path (d @ [did, CFS_NAME])" "\<not> dry_run e" and n: "did \<noteq> ''shared''"
    using E a file_names(1) by (auto simp: deploy_env_def landing_env_def artifact_def plain_path_def shared_objects_path)
  have p: "lookup g (d @ [did, CFS_NAME]) = None" using free by simp
  have T: "same_but (touched d did) f g" using g by (simp add: base_def)
  have s: "cat g (src_root_cfs src) = Some x" "src_digest src = Inr (JStr (vd x))"
    using staging_kept(2) [OF a T] a by (auto simp: artifact_def source_paths)
  note R = root_new [OF L base_place [OF g p] s base_step [OF g]]
  show ?thesis
  proof (rule tr_conseq_x [OF R])
    fix u h assume h: "added (d @ [did, CFS_NAME]) x True g h"
    have "placed (d @ [did, CFS_NAME]) x h" using h by (auto simp: placed_def added_def)
    moreover have "lookup h (d @ did # y) = lookup g (d @ did # y)" if "y \<noteq> [CFS_NAME]" for y
      using h that by (simp add: added_def)
    ultimately show "base vd d did D f h \<and> placed (d @ [did, CFS_NAME]) x h \<and>
       (\<forall>y. y \<noteq> [] \<longrightarrow> y \<noteq> [CFS_NAME] \<longrightarrow> lookup h (d @ did # y) = None)"
      using base_added [OF g n p h] free by simp
  qed auto
qed

text \<open>What the later steps keep.\<close>

definition built :: "(string \<Rightarrow> string) \<Rightarrow> path \<Rightarrow> string \<Rightarrow> path set \<Rightarrow> string \<Rightarrow> path set \<Rightarrow> fs \<Rightarrow> fs \<Rightarrow> bool" where
  "built vd d did D x R f g \<longleftrightarrow> base vd d did D f g \<and> placed (d @ [did, CFS_NAME]) x g \<and> holder_done d did R g"

lemma built_added:
  assumes g: "built vd d did D x R f g" and n: "did \<noteq> ''shared''" "nm \<notin> {CFS_NAME, ''objects''}"
    and p: "lookup g (d @ [did, nm]) = None" and h: "added (d @ [did, nm]) b v g h"
  shows "built vd d did D x R f h" "\<And>m. m \<noteq> nm \<Longrightarrow> lookup h (d @ [did, m]) = lookup g (d @ [did, m])"
    "\<And>m. m \<noteq> nm \<Longrightarrow> cat h (d @ [did, m]) = cat g (d @ [did, m])"
proof -
  have b: "base vd d did D f g" and r: "placed (d @ [did, CFS_NAME]) x g" and hd: "holder_done d did R g"
    using g by (auto simp: built_def)
  have wf: "wf_fs g" using base_place [OF b p] by (simp add: free_place_def)
  obtain i where i: "lookup g (d @ [did, CFS_NAME]) = Some (File i)" "inodes g i = Some \<lparr>bytes = x, verity = True\<rparr>"
    using r by (auto simp: placed_def)
  have "i \<noteq> next_ino g" using wf_file [OF wf i(1)] by simp
  then have "placed (d @ [did, CFS_NAME]) x h" using i h n(2) by (auto simp: placed_def added_def)
  then show "built vd d did D x R f h"
    using base_added [OF b n(1) p h] holder_added [OF b n(1) _ p h hd] n(2) by (simp add: built_def)
  note same = added_same [OF base_place [OF b p] h, unfolded same_but_def, rule_format]
  show "lookup h (d @ [did, m]) = lookup g (d @ [did, m])" "cat h (d @ [did, m]) = cat g (d @ [did, m])" if "m \<noteq> nm" for m
    using same [of "d @ [did, m]"] that by simp_all
qed

text \<open>The holder.\<close>

text \<open>What the holder links leave as it was.\<close>

lemma beside_holder:
  assumes T: "same_but (touched d did) f g" and h: "beside (d @ [did, ''objects'']) g h"
  shows "same_but (touched d did) f h"
proof (rule same_but_trans [OF T])
  let ?h = "d @ [did, ''objects'']"
  have "cat h q = cat g q" if "lookup h q = lookup g q" for q
    using cat_cong [OF that] h unfolding beside_def by blast
  then show "same_but {q. prefix ?h q} g h" using h unfolding same_but_def beside_def by blast
  have "prefix (d @ [did]) q" if "prefix ?h q" for q using that by (auto simp: prefix_def)
  then show "{q. prefix ?h q} \<subseteq> touched d did" by (auto simp: touched_def)
qed simp

lemma base_holds:
  assumes g: "base vd d did D f g" and ready: "holder_ready (shared_objects d) (d @ [did, ''objects'']) g"
    and h: "holds g (shared_objects d) (d @ [did, ''objects'']) (referenced listing) h" "wf_fs h"
  shows "base vd d did D f h"
proof -
  let ?s = "shared_objects d" and ?h = "d @ [did, ''objects'']"
  have store: "lookup h (?s @ y) = lookup g (?s @ y)" for y by (rule holds_store [OF ready h(1)])
  have R: "\<forall>y \<in> referenced listing. \<not> dotted (last y) \<and> y \<noteq> []"
    using object_parts(2) by (auto simp: referenced_def object_path_def)
  have sound: "sound_store vd ?s h" by (rule sound_holds [OF _ ready h R]) (use g in \<open>simp add: base_def\<close>)
  have D: "in_store ?s D h"
    unfolding in_store_def
  proof
    fix q assume "q \<in> D"
    then have q: "stored ?s q" "lookup g q \<noteq> None" using g by (auto simp: base_def in_store_def)
    then obtain y where "q = ?s @ y" by (auto simp: stored_def strict_prefix_def prefix_def)
    then show "stored ?s q \<and> lookup h q \<noteq> None" using q store by simp
  qed
  have gr: "grows ?s f h"
  proof (rule grows_trans)
    show "grows ?s f g" using g by (simp add: base_def)
    have i: "inodes h = inodes g" using h(1) by (simp add: holds_def)
    show "grows ?s g h"
    proof (rule grows_same)
      fix q assume "prefix ?s q"
      then have l: "lookup h q = lookup g q" using store by (auto simp: prefix_def)
      show "lookup h q = lookup g q \<and> cat h q = cat g q" using l cat_cong [OF l i] by simp
    qed
  qed
  have "lookup h (d @ [did]) = Some Dir" using h(1) g by (auto simp: base_def holds_def strict_prefix_def)
  then show ?thesis using g sound D gr beside_holder [OF _ holds_beside [OF h(1)]] by (simp add: base_def)
qed

lemma stage_holder:
  assumes a: "artifact vd d src did x f" and E: "deploy_env vd e d x listing" and g: "base vd d did D f g"
    and r: "placed (d @ [did, CFS_NAME]) x g" and free: "\<forall>y. y \<noteq> [] \<longrightarrow> y \<noteq> [CFS_NAME] \<longrightarrow> lookup g (d @ did # y) = None"
  shows "tot e ((=) g) (same_but (touched d did) f) (link_holder (shared_objects d) (d @ [did, ''objects'']) (d @ [did, CFS_NAME]))
    (\<lambda>_ h. built vd d did D x (referenced listing) f h \<and> (\<forall>m. m \<notin> {CFS_NAME, ''objects''} \<longrightarrow> lookup h (d @ [did, m]) = None))"
proof -
  let ?s = "shared_objects d" and ?h = "d @ [did, ''objects'']" and ?R = "referenced listing"
  have n: "did \<noteq> ''shared''" using a by (simp add: artifact_def)
  have ne: "CFS_NAME \<noteq> ''objects''" using file_names(5) by simp
  have ok: "store_ok vd ?s g" and wf: "wf_fs g" and T: "same_but (touched d did) f g"
    using g by (auto simp: base_def sound_store_def store_ok_def)
  have nl: "\<not> is_symlink g p" if "strict_prefix ?s p" for p using store_no_link [OF ok that] .
  have ready: "holder_ready ?s ?h g"
    using wf g free ne nl n by (auto simp: holder_ready_def base_def shared_objects_path butlast_append)
  have tool: "dump_tool e (d @ [did, CFS_NAME]) listing g"
    using E r a file_names(1)
    by (auto simp: dump_tool_def deploy_env_def placed_def cat_def landing_env_def artifact_def plain_path_def shared_objects_path)
  have o: "\<forall>xs. set (set_order e xs) = set xs" and k: "tools_keep wf_fs e" using E by (auto simp: deploy_env_def)
  have rc: "\<not> prefix ?h (d @ [did, CFS_NAME])" using ne by simp
  show ?thesis
  proof (rule tr_conseq_x [OF tr_conj [OF link_holder_spec [OF ready tool o rc] wf.keeps_objects(1) [OF k]]])
    show "same_but (touched d did) f h" if "beside ?h g h \<and> wf_fs h" for h using beside_holder [OF T] that by blast
    show "g = h \<and> wf_fs h" if "g = h" for h using that wf by simp
    fix u h assume "holds g ?s ?h ?R h \<and> wf_fs h"
    then have h: "holds g ?s ?h ?R h" "wf_fs h" by auto
    have at: "lookup h q = lookup g q" if "\<not> prefix ?h q" for q
      using h(1) that by (auto simp: holds_def strict_prefix_def)
    have store: "lookup h (?s @ y) = lookup g (?s @ y)" for y by (rule holds_store [OF ready h(1)])
    have b: "base vd d did D f h" by (rule base_holds [OF g ready h])
    have "placed (d @ [did, CFS_NAME]) x h" using r at [OF rc] h(1) by (simp add: placed_def holds_def)
    moreover have "holder_done d did ?R h"
      unfolding holder_done_def
    proof (intro allI impI)
      fix y :: path assume y: "y \<noteq> []"
      have "holder_node h ?s ?R y = holder_node g ?s ?R y"
        by (rule holder_node_same [OF store _ y]) (use nl in \<open>simp add: strict_prefix_def\<close>)
      then show "lookup h (d @ [did, ''objects''] @ y) = holder_node h ?s ?R y"
        using holds_below [OF h(1) y] by simp
    qed
    moreover have "lookup h (d @ [did, m]) = None" if "m \<notin> {CFS_NAME, ''objects''}" for m
      using at [of "d @ [did, m]"] free that by auto
    ultimately show "built vd d did D x ?R f h \<and> (\<forall>m. m \<notin> {CFS_NAME, ''objects''} \<longrightarrow> lookup h (d @ [did, m]) = None)"
      using b by (simp add: built_def)
  qed auto
qed

text \<open>The boot files and the metadata.\<close>

definition boot_done :: "path \<Rightarrow> source \<Rightarrow> string \<Rightarrow> fs \<Rightarrow> fs \<Rightarrow> bool" where
  "boot_done d src did f g \<longleftrightarrow> cat g (d @ [did, UKI_NAME]) = cat f (src_uki src) \<and>
     (if is_file f (src_bootloader src) then cat g (d @ [did, BOOTLOADER_NAME]) = cat f (src_bootloader src)
      else lookup g (d @ [did, BOOTLOADER_NAME]) = None)"

lemma stage_boot:
  assumes a: "artifact vd d src did x f" and E: "\<not> dry_run e" and g: "built vd d did D x R f g"
    and free: "\<forall>m. m \<notin> {CFS_NAME, ''objects''} \<longrightarrow> lookup g (d @ [did, m]) = None"
  shows "tot e ((=) g) (same_but (touched d did) f) (copy_boot_files src (d @ [did]))
    (\<lambda>_ h. built vd d did D x R f h \<and> boot_done d src did f h \<and> lookup h (d @ [did, META_NAME]) = None)"
proof -
  let ?C = "same_but (touched d did) f" and ?u = "d @ [did, UKI_NAME]" and ?l = "d @ [did, BOOTLOADER_NAME]" and ?sl = "src_bootloader src"
  have ne: "UKI_NAME \<notin> {CFS_NAME, ''objects''}" "BOOTLOADER_NAME \<notin> {CFS_NAME, ''objects''}" "META_NAME \<notin> {CFS_NAME, ''objects''}"
    "BOOTLOADER_NAME \<noteq> UKI_NAME" "META_NAME \<noteq> UKI_NAME" "META_NAME \<noteq> BOOTLOADER_NAME"
    using file_names(5) by auto
  have n: "did \<noteq> ''shared''" and nl: "\<not> is_symlink f ?sl" using a by (auto simp: artifact_def)
  obtain u where u: "cat f (src_uki src) = Some u" using a by (auto simp: artifact_def)
  have src: "cat k (src_uki src) = Some u \<and> cat k ?sl = cat f ?sl \<and> is_file k ?sl = is_file f ?sl" if "built vd d did D x R f k" for k
    using staging_kept [OF a, of k] same_file [of k ?sl f] nl u that by (simp add: built_def base_def source_paths)
  have b: "base vd d did D f g" using g by (simp add: built_def)
  note fu = base_place [OF b free [rule_format, OF ne(1)]]
  have up: "tot e ((=) g) ?C (copy2 (src_uki src) ?u) (\<lambda>_. added ?u u False g)"
    by (rule copy_new [OF fu _ base_step [OF b]]) (use src [OF g] in auto)
  have rest: "tot e (added ?u u False g) ?C (bnd (gets (\<lambda>k. is_file k ?sl)) (\<lambda>l. if_do l (copy2 ?sl ?l)))
      (\<lambda>_ h. built vd d did D x R f h \<and> boot_done d src did f h \<and> lookup h (d @ [did, META_NAME]) = None)"
  proof (rule tr_exact, rule tr_gets_exact)
    fix k assume k: "added ?u u False g k"
    note B = built_added [OF g n ne(1) free [rule_format, OF ne(1)] k]
    have cu: "cat k ?u = cat f (src_uki src)" using added_cat [OF k] u by simp
    have m: "lookup k (d @ [did, META_NAME]) = None" using B(2) [OF ne(5)] free ne(3) by simp
    have lf: "lookup k ?l = None" using B(2) [OF ne(4)] free ne(2) by simp
    have bk: "base vd d did D f k" using B(1) by (simp add: built_def)
    show "tot e ((=) k) ?C (if_do (is_file k ?sl) (copy2 ?sl ?l))
      (\<lambda>_ h. built vd d did D x R f h \<and> boot_done d src did f h \<and> lookup h (d @ [did, META_NAME]) = None)"
    proof (rule tr_if_do)
      assume there: "is_file k ?sl"
      then have "is_file f ?sl" using src [OF B(1)] by simp
      then obtain i where "lookup f ?sl = Some (File i)"
        using nl by (auto simp: is_file_def stat_no_link split: option.splits node.splits)
      moreover have "lookup k ?sl = lookup f ?sl" using staging_kept(1) [OF a, of k] B(1) by (simp add: built_def base_def source_paths)
      moreover have "wf_fs k" using base_place [OF bk lf] by (simp add: free_place_def)
      ultimately obtain y where y: "cat k ?sl = Some y" using wf_file_cat by metis
      show "tot e ((=) k) ?C (copy2 ?sl ?l) (\<lambda>_ h. built vd d did D x R f h \<and> boot_done d src did f h \<and> lookup h (d @ [did, META_NAME]) = None)"
      proof (rule tr_conseq_x [OF copy_new [OF base_place [OF bk lf] y base_step [OF bk]]])
        fix v h assume h: "added ?l y False k h"
        note H = built_added [OF B(1) n ne(2) lf h]
        have "boot_done d src did f h"
          using H(3) [of UKI_NAME] ne(4) cu added_cat [OF h] y src [OF B(1)] there by (simp add: boot_done_def)
        then show "built vd d did D x R f h \<and> boot_done d src did f h \<and> lookup h (d @ [did, META_NAME]) = None"
          using H(1) H(2) [OF ne(6)] m by simp
      qed auto
    next
      fix h assume h: "\<not> is_file k ?sl" "k = h"
      then have "\<not> is_file f ?sl" using src [OF B(1)] by simp
      then show "built vd d did D x R f h \<and> boot_done d src did f h \<and> lookup h (d @ [did, META_NAME]) = None"
        using B(1) cu m lf h(2) by (simp add: boot_done_def)
    qed
  qed
  have paths: "pjoin (d @ [did]) UKI_NAME = ?u" "pjoin (d @ [did]) BOOTLOADER_NAME = ?l" using file_names by simp_all
  show ?thesis unfolding copy_boot_files_def Let_def paths
    by (rule tr_bnd [OF tr_status(2) [where Q = "\<lambda>_. (=) g"]], simp, rule tr_asks_bnd)
      (simp only: E if_False, rule tr_bnd [OF up rest])
qed

lemma stage_meta:
  assumes n: "did \<noteq> ''shared''" and E: "\<not> dry_run e" and m: "build_meta src (clock e) = Inr m" and g: "built vd d did D x R f g" "boot_done d src did f g"
    and free: "lookup g (d @ [did, META_NAME]) = None"
  shows "tot e ((=) g) (same_but (touched d did) f) (write_meta (d @ [did]) src)
    (\<lambda>_ h. built vd d did D x R f h \<and> boot_done d src did f h \<and> cat h (d @ [did, META_NAME]) = Some (dumps m @ [NL]))"
proof -
  let ?p = "d @ [did, META_NAME]" and ?C = "same_but (touched d did) f"
  have ne: "META_NAME \<notin> {CFS_NAME, ''objects''}" "UKI_NAME \<noteq> META_NAME" "BOOTLOADER_NAME \<noteq> META_NAME" using file_names(5) by auto
  have b: "base vd d did D f g" using g(1) by (simp add: built_def)
  have w: "tot e ((=) g) ?C (write_text ?p (dumps m @ [NL])) (\<lambda>_. added ?p (dumps m @ [NL]) False g)"
    unfolding write_text_def by (rule new_file [OF base_place [OF b free]]) (auto intro: base_step [OF b])
  have fin: "built vd d did D x R f h \<and> boot_done d src did f h \<and> cat h ?p = Some (dumps m @ [NL])" if h: "added ?p (dumps m @ [NL]) False g h" for h
  proof -
    note H = built_added [OF g(1) n ne(1) free h]
    have "boot_done d src did f h" using H(3) [OF ne(2)] H(2,3) [OF ne(3)] g(2) by (simp add: boot_done_def)
    then show ?thesis using H(1) added_cat [OF h] by simp
  qed
  have path: "pjoin (d @ [did]) META_NAME = ?p" using file_names by simp
  have "tot e ((=) g) ?C (steps [write_text ?p (dumps m @ [NL]), vlog t])
      (\<lambda>_ h. built vd d did D x R f h \<and> boot_done d src did f h \<and> cat h ?p = Some (dumps m @ [NL]))" for t
    unfolding steps.simps by (rule tr_bnd [OF w tr_bnd [OF tr_vlog [where Q = "\<lambda>_. added ?p (dumps m @ [NL]) False g"] tr_ret]]) (use fin in auto)
  then show ?thesis unfolding write_meta_def now_def Let_def path
    by (intro tr_asks_bnd tr_lift_bnd) (simp_all add: m E)
qed

section \<open>The whole\<close>

definition deployed :: "(string \<Rightarrow> string) \<Rightarrow> path \<Rightarrow> source \<Rightarrow> string \<Rightarrow> path set \<Rightarrow> string \<Rightarrow> string \<Rightarrow> json \<Rightarrow> fs \<Rightarrow> fs \<Rightarrow> bool" where
  "deployed vd d src did D x listing m f g \<longleftrightarrow> built vd d did D x (referenced listing) f g \<and>
     boot_done d src did f g \<and> cat g (d @ [did, META_NAME]) = Some (dumps m @ [NL])"

lemma materialize_tot:
  assumes a: "artifact vd d src did x f" and E: "deploy_env vd e d x listing" and S: "supplies vd e d src listing A D f"
    and f: "sound_store vd (shared_objects d) f" and d: "lookup f d = Some Dir" "lookup f (d @ [did]) = None" and m: "build_meta src (clock e) = Inr m"
  shows "tot e ((=) f) (same_but (touched d did \<union> A) f) (materialize d src) (\<lambda>_. deployed vd d src did D x listing m f)"
proof -
  let ?C = "same_but (touched d did \<union> A) f" and ?R = "referenced listing" and ?s = "shared_objects d"
  have did: "src_deploy_id src = Inr did" "plain_name did" "did \<noteq> ''shared''" using a by (auto simp: artifact_def)
  have dry: "\<not> dry_run e" using E by (simp add: deploy_env_def landing_env_def)
  have uki: "is_file f (src_uki src)" using a cat_is_file by (fastforce simp: artifact_def)
  have paths: "deploy_dir d did = d @ [did]" "pjoin (d @ [did]) ''objects'' = d @ [did, ''objects'']" "pjoin (d @ [did]) CFS_NAME = d @ [did, CFS_NAME]"
    using did(2) file_names by (simp_all add: deploy_dir_def plain_name_def)
  let ?P1 = "\<lambda>g. base vd d did D f g \<and> (\<forall>y. y \<noteq> [] \<longrightarrow> lookup g (d @ did # y) = None)"
  let ?P2 = "\<lambda>g. base vd d did D f g \<and> placed (d @ [did, CFS_NAME]) x g \<and> (\<forall>y. y \<noteq> [] \<longrightarrow> y \<noteq> [CFS_NAME] \<longrightarrow> lookup g (d @ did # y) = None)"
  let ?P3 = "\<lambda>g. built vd d did D x ?R f g \<and> (\<forall>m. m \<notin> {CFS_NAME, ''objects''} \<longrightarrow> lookup g (d @ [did, m]) = None)"
  let ?P4 = "\<lambda>g. built vd d did D x ?R f g \<and> boot_done d src did f g \<and> lookup g (d @ [did, META_NAME]) = None"
  let ?Q = "\<lambda>_. deployed vd d src did D x listing m f"
  have wide: "tot e P ?C k Q" if "\<And>g. P g \<Longrightarrow> tot e ((=) g) (same_but (touched d did) f) k Q" for P Q and k :: "unit proc"
    by (rule tr_exact, rule tr_total [OF that]) (auto simp: same_but_def)
  have show1: "tot e P ?C (status_show t) (\<lambda>_. P)" "tot e P ?C (status_done t) (\<lambda>_. P)" for P t by (rule tr_status, simp)+
  have root: "tot e ?P1 ?C (place_root_cfs src (d @ [did, CFS_NAME])) (\<lambda>_. ?P2)"
    by (rule wide) (use stage_root [OF a E] in blast)
  have hold: "tot e ?P2 ?C (link_holder ?s (d @ [did, ''objects'']) (d @ [did, CFS_NAME])) (\<lambda>_. ?P3)"
    by (rule wide) (use stage_holder [OF a E] in blast)
  have boot: "tot e ?P3 ?C (copy_boot_files src (d @ [did])) (\<lambda>_. ?P4)"
    by (rule wide) (use stage_boot [OF a dry] in blast)
  have meta: "tot e ?P4 ?C (write_meta (d @ [did]) src) ?Q"
    unfolding deployed_def by (rule wide) (use stage_meta [OF did(3) dry m] in blast)
  have holder: "tot e ?P2 ?C (steps [status_show t, link_holder ?s (d @ [did, ''objects'']) (d @ [did, CFS_NAME])]) (\<lambda>_. ?P3)" for t
    unfolding steps.simps by (rule tr_bnd [OF show1(1) tr_bnd [OF hold tr_ret]])
  have late: "tot e ?P1 ?C (steps [status_show t1, place_root_cfs src (d @ [did, CFS_NAME]),
      steps [status_show t2, link_holder ?s (d @ [did, ''objects'']) (d @ [did, CFS_NAME])],
      copy_boot_files src (d @ [did]), status_done t3, write_meta (d @ [did]) src]) ?Q" for t1 t2 t3
    unfolding steps.simps(2) [of "status_show t1"] steps.simps(2) [of "place_root_cfs src (d @ [did, CFS_NAME])"]
      steps.simps(2) [of "steps xs" for xs] steps.simps(2) [of "copy_boot_files src (d @ [did])"] steps.simps(2) [of "status_done t3"]
      steps.simps(2) [of "write_meta (d @ [did]) src"] steps.simps(1)
    by (rule tr_bnd [OF show1(1) tr_bnd [OF root tr_bnd [OF holder tr_bnd [OF boot tr_bnd [OF show1(2) tr_bnd [OF meta tr_ret]]]]]])
  have land: "tot e ((=) f) ?C (bnd (mkdirs (d @ [did])) (\<lambda>_. bnd (land_objects src ?s) (\<lambda>_. k))) Q"
    if "tot e ?P1 ?C k Q" for k :: "unit proc" and Q
    unfolding bnd_assoc [symmetric] by (rule tr_bnd [OF stage_land [OF a E f S d] that])
  have no: "if_do False t = ret ()" for t by (simp add: if_do_def)
  show ?thesis unfolding materialize_def did(1) bnd_lift Let_def paths
    by (rule tr_asks_bnd, rule tr_gets_exact, simp only: dry uki simp_thms if_False no steps.simps(2) [of "ret ()"] bnd_ret
        steps.simps(2) [of "mkdirs p" for p] steps.simps(2) [of "land_objects src ?s"], rule land, rule late)
qed

end
