(* ===== verification/History.thy ===== *)
theory History
  imports Cli
begin

text \<open>
  The life of a host: \<open>zerithctl\<close> commands one after the other, with whatever arguments, each
  running to its end or cut off at any point by a crash. What every command keeps at every
  point holds for ever.
\<close>

text \<open>One command, in one of the environments \<open>E\<close>: the disk it leaves is any of the states it goes
  through, the last one when it was not interrupted.\<close>

inductive host_step :: "env set \<Rightarrow> fs \<Rightarrow> fs \<Rightarrow> bool" for E where
  command: "e \<in> E \<Longrightarrow> g \<in> crash_states (main a) e f \<Longrightarrow> host_step E f g"

inductive_cases host_stepE: "host_step E f g"
inductive_simps host_step_iff: "host_step E f g"

abbreviation history :: "env set \<Rightarrow> fs \<Rightarrow> fs \<Rightarrow> bool" where
  "history E \<equiv> (host_step E)\<^sup>*\<^sup>*"

lemma history_command: "history E f g \<Longrightarrow> e \<in> E \<Longrightarrow> h \<in> crash_states (main a) e g \<Longrightarrow> history E f h"
  by (rule rtranclp.rtrancl_into_rtrancl) (auto intro: command)

lemma history_mono: "history E f g \<Longrightarrow> E \<subseteq> E' \<Longrightarrow> history E' f g"
  by (induction rule: rtranclp_induct) (auto simp: host_step_iff intro: history_command)

context disk_invariant
begin

lemma keeps_step:
  assumes "host_step E f g" "\<forall>e \<in> E. tools_keep I e \<and> others_keep I e" "I f"
  shows "I g"
  using assms by (auto elim!: host_stepE intro: triple_crash [OF keeps_main])

lemma keeps_history:
  assumes "history E f g" "\<forall>e \<in> E. tools_keep I e \<and> others_keep I e" "I f"
  shows "I g"
  using assms(1,3)
proof (induction rule: rtranclp_induct)
  case (step g h)
  then show ?case using keeps_step assms(2) by blast
qed

end

end
