(* ===== verification/StoreDemo.thy ===== *)
theory StoreDemo
  imports Demo VerifyPack Materialize History
begin

text \<open>
  The same host with a store whose objects have their names, a local source tree and a
  temporary file, to evaluate the definitions of the object store on.
\<close>

section \<open>The tools meet their contracts\<close>

lemma demo_vd_digest: "is_digest (demo_vd b)"
proof -
  let ?l = "filter is_hex b @ replicate 64 (CHR ''0'')"
  have z: "is_hex (CHR ''0'')" by (simp add: is_hex_def code_def)
  have "is_hex c" if "c \<in> set ?l" for c
    using that z unfolding set_append set_replicate_conv_if by auto
  moreover have "set (demo_vd b) \<subseteq> set ?l" unfolding demo_vd_def by (rule set_take_subset)
  ultimately have "\<forall>c \<in> set (demo_vd b). is_hex c" by blast
  moreover have "length (demo_vd b) = 64" by (simp add: demo_vd_def)
  ultimately show ?thesis by (simp add: is_digest_def list_all_iff)
qed

lemma demo_fsverity: "fsverity_tool demo_vd demo_env"
  unfolding fsverity_tool_def
proof (intro conjI allI impI)
  show "has_tool demo_env ''fsverity''" by (simp add: demo_env_def)
  show "is_digest (demo_vd b)" for b by (rule demo_vd_digest)
  fix p f assume p: "plain_path p"
  show "tool demo_env [''fsverity'', ''digest'', path_str p] f
      = \<lparr>t_rc = 0, t_out = ''sha256:'' @ demo_vd b @ ''  '' @ path_str p @ [NL], t_err = [], t_fs = []\<rparr>"
    if "read1 p f = Inr b" for b
    using that by (simp add: demo_env_def demo_tool_def comps_path_str [OF p])
  show "tool demo_env [''fsverity'', ''enable'', path_str p] f = \<lparr>t_rc = 0, t_out = [], t_err = [], t_fs = [seal i f]\<rparr>"
    if "lookup f p = Some (File i)" for i
    using that by (simp add: demo_env_def demo_tool_def comps_path_str [OF p])
qed

lemma demo_tools_keep: "(\<And>f i. I f \<Longrightarrow> I (seal i f)) \<Longrightarrow> tools_keep I demo_env"
  by (auto simp: tools_keep_def demo_env_def demo_tool_def split: list.splits option.splits node.splits sum.splits if_splits)

section \<open>The disk\<close>

definition OST :: path where "OST = [''deploy'', ''shared'', ''objects'']"

abbreviation ZEROS :: string where "ZEROS \<equiv> replicate 62 (CHR ''0'')"

definition sdemo_data :: "string list" where
  "sdemo_data = [''ab'', ''cd'', ''ef'', ''the image'', ''the uki'']"

definition sdemo :: fs where
  "sdemo = \<lparr>entries =
     [([''deploy''], Dir), ([''deploy'', ''shared''], Dir), (OST, Dir), (OST @ [''ab''], Dir), (OST @ [''ab'', ZEROS], File 0),
      (OST @ [''cd''], Dir), (OST @ [''cd'', CHR ''.'' # ''cd'' @ ZEROS @ ''.tmp''], File 1),
      ([''src''], Dir), ([''src'', ''objects''], Dir), ([''src'', ''objects'', ''ef''], Dir),
      ([''src'', ''objects'', ''ef'', ZEROS], File 2), ([''src'', ''root.cfs''], File 3), ([''src'', ''zerith.efi''], File 4), ([''tmp''], Dir)],
     inodes = (\<lambda>i. if i < 5 then Some \<lparr>bytes = sdemo_data ! i, verity = False\<rparr> else None), next_ino = 5\<rparr>"

definition objects_check :: "(string \<Rightarrow> string) \<Rightarrow> path \<Rightarrow> fs \<Rightarrow> bool" where
  "objects_check vd s f \<longleftrightarrow> wf_check f \<and> list_all (\<lambda>(p, n). strict_prefix s p \<longrightarrow>
     (case n of
        Symlink _ \<Rightarrow> False
      | Dir \<Rightarrow> \<not> dotted (last p)
      | File i \<Rightarrow> if dotted (last p) then nlink f i = 1
          else (case inodes f i of Some nd \<Rightarrow> vd (bytes nd) = object_name s p | None \<Rightarrow> False))) (entries f)"

lemma objects_check:
  assumes c: "objects_check vd s f"
  shows "store_ok vd s f"
proof -
  have wf: "wf_fs f" using c by (auto simp: objects_check_def intro: wf_check)
  have e: "case n of Symlink _ \<Rightarrow> False | Dir \<Rightarrow> \<not> dotted (last p)
      | File i \<Rightarrow> if dotted (last p) then nlink f i = 1
          else (case inodes f i of Some nd \<Rightarrow> vd (bytes nd) = object_name s p | None \<Rightarrow> False)"
    if "lookup f p = Some n" "strict_prefix s p" for p n
  proof -
    have "(p, n) \<in> set (entries f)" using that by (auto simp: lookup_def split: if_splits dest: map_of_SomeD)
    then show ?thesis using c that(2) unfolding objects_check_def list_all_iff by blast
  qed
  show ?thesis
  proof (rule store_okI [OF wf])
    show "\<not> is_symlink f p" if "strict_prefix s p" for p
      using e [OF _ that] by (fastforce simp: is_symlink_def split: option.splits node.splits)
    show "lookup f p \<noteq> Some Dir" if "strict_prefix s p" "dotted (last p)" for p
      using e [OF _ that(1)] that(2) by fastforce
    show "q = p" if "strict_prefix s p" "dotted (last p)" "lookup f p = Some (File i)" "lookup f q = Some (File i)" for p q i
      using e [OF that(3,1)] that(2) nlink_one [OF wf that(3,4)] by simp
    show "vd b = object_name s p" if p: "stored s p" "cat f p = Some b" for p b
    proof -
      obtain i where i: "lookup f p = Some (File i)" using cat_Some_lookup [OF p(2)] by blast
      show ?thesis using e [OF i] p i by (auto simp: stored_def cat_def split: option.splits)
    qed
  qed
qed

lemma sdemo_checks: "objects_check demo_vd OST sdemo"
  by code_simp

lemma sdemo_store: "store_ok demo_vd OST sdemo"
  by (rule objects_check [OF sdemo_checks])

lemma demo_landing: "landing_env demo_vd demo_env OST"
  by (simp add: landing_env_def demo_fsverity plain_path_def OST_def plain_name_def)

lemma demo_pack: "pack_env demo_vd demo_env OST"
proof -
  have "temps_clear OST demo_env" by (simp add: temps_clear_def clear_of_def demo_env_def OST_def)
  moreover have "tools_keep (store_inv demo_vd OST f0) demo_env" for f0
    by (rule demo_tools_keep) (rule store_inv_seal)
  ultimately show ?thesis using demo_landing by (auto simp: pack_env_def demo_env_def)
qed

lemma sdemo_place: "place_for OST (''cd/'' @ ZEROS) (OST @ [''cd'', ZEROS]) (OST @ [''cd'', CHR ''.'' # ''cd'' @ ZEROS @ ''.tmp''])"
  by code_simp

lemma sdemo_tmp: "tmp_file (OST @ [''cd'', CHR ''.'' # ''cd'' @ ZEROS @ ''.tmp'']) ''cd'' sdemo"
proof -
  have "lookup sdemo (OST @ [''cd'', CHR ''.'' # ''cd'' @ ZEROS @ ''.tmp'']) = Some (File 1)" by code_simp
  moreover have "inodes sdemo 1 = Some \<lparr>bytes = ''cd'', verity = False\<rparr>" by (simp add: sdemo_def sdemo_data_def)
  ultimately show ?thesis by (auto simp: tmp_file_def)
qed

lemma sdemo_tree: "plain_tree [''src'', ''objects''] sdemo"
proof -
  have "list_all (\<lambda>(p, n). strict_prefix [''src'', ''objects''] p \<longrightarrow> store_names (drop 2 p)) (entries sdemo)" by code_simp
  then have "store_names cs" if "cs \<noteq> []" "lookup sdemo ([''src'', ''objects''] @ cs) = Some n" for cs n
  proof -
    have "([''src'', ''objects''] @ cs, n) \<in> set (entries sdemo)" using that by (auto simp: lookup_def dest: map_of_SomeD)
    then show ?thesis using \<open>list_all _ _\<close> that(1) unfolding list_all_iff by (fastforce simp: strict_prefix_def)
  qed
  then show ?thesis by (auto simp: plain_tree_def)
qed

section \<open>A source, and a dump of its root image\<close>

definition sdemo_source :: source where
  "sdemo_source = \<lparr>staging = [''src''], meta = JObj [(''deploy_id'', JStr ''aa''), (''objects_ref'', JStr ''reg/repo:tag'')],
     src_ref = None, local_objects = None, cleanup_dir = None\<rparr>"

definition sdemo_dump :: string where
  "sdemo_dump = ''/a 4 ab/'' @ ZEROS @ '' - '' @ demo_vd ''ab'' @ [NL] @ ''/b 9 - '' @ demo_vd ''cd'' @ [NL]"

definition dump_env :: env where
  "dump_env = demo_env\<lparr>tool := (\<lambda>cmd f. \<lparr>t_rc = 0, t_out = sdemo_dump, t_err = [], t_fs = []\<rparr>)\<rparr>"

definition cfs_source :: source where
  "cfs_source = \<lparr>staging = [''src''], meta = JObj [(''composefs_digest'', JStr (demo_vd ''the image''))],
     src_ref = None, local_objects = None, cleanup_dir = None\<rparr>"

definition meta_source :: source where
  "meta_source = \<lparr>staging = [''src''], meta = JObj [(''deploy_id'', JStr ''cc''), (''composefs_digest'', JStr (demo_vd ''the image'')),
       (''version'', JStr ''42''), (''objects_ref'', JStr ''reg/repo:tag'')],
     src_ref = Some ''reg/repo:2'', local_objects = None, cleanup_dir = None\<rparr>"

lemma meta_source_ok: "case build_meta meta_source (clock demo_env) of Inl _ \<Rightarrow> False | Inr m \<Rightarrow> wf_json m"
  by code_simp

lemma channel_check:
  "wf_check f \<and> p \<noteq> [] \<and> lookup f (butlast p) = Some Dir \<and> lookup f p = None \<and> writable f (channel_tmp p) \<Longrightarrow> channel_ready p f"
  by (simp add: channel_ready_def wf_check)

lemma demo_channel: "channel_ready (DEP @ [SOURCE_CONF_NAME]) demo"
  by (rule channel_check) code_simp

lemma sdemo_sealed: "sealed_as 0 ''ab'' (seal 0 sdemo)"
proof -
  have "wf_fs (seal 0 sdemo)" by (rule wf_seal) (use sdemo_store in \<open>simp add: store_ok_def\<close>)
  then show ?thesis by (simp add: sealed_as_def seal_def sdemo_def sdemo_data_def)
qed

lemma sdemo_holder: "holder_ready OST [''src'', ''holder''] sdemo"
proof -
  have "lookup sdemo [''src'', ''holder''] = None" "lookup sdemo [''src''] = Some Dir" "\<not> prefix OST [''src'', ''holder'']"
    "\<not> prefix [''src'', ''holder''] OST"
    by code_simp+
  then show ?thesis using sdemo_store by (simp add: holder_ready_def store_ok_def)
qed

lemma dump_env_tool: "dump_tool dump_env rc sdemo_dump f"
  by (simp add: dump_tool_def dump_env_def demo_env_def)

section \<open>A local artifact\<close>

definition full_tool :: "string list \<Rightarrow> fs \<Rightarrow> tool_result" where
  "full_tool cmd f = (if cmd \<noteq> [] \<and> hd cmd = ''composefs-info'' then \<lparr>t_rc = 0, t_out = sdemo_dump, t_err = [], t_fs = []\<rparr>
     else demo_tool cmd f)"

definition full_env :: env where
  "full_env = demo_env\<lparr>tool := full_tool\<rparr>"

definition local_source :: source where
  "local_source = \<lparr>staging = [''src''], meta = JObj [(''deploy_id'', JStr ''dd''), (''composefs_digest'', JStr (demo_vd ''the image''))],
     src_ref = None, local_objects = Some [''src'', ''objects''], cleanup_dir = None\<rparr>"

definition local_meta :: json where
  "local_meta = (case build_meta local_source (clock full_env) of Inr m \<Rightarrow> m | Inl _ \<Rightarrow> JNull)"

lemma local_meta: "build_meta local_source (clock full_env) = Inr local_meta"
proof -
  have "case build_meta local_source (clock full_env) of Inr m \<Rightarrow> True | Inl _ \<Rightarrow> False" by code_simp
  then show ?thesis by (auto simp: local_meta_def split: sum.splits)
qed

lemma full_env_deploys: "deploy_env demo_vd full_env DEP ''the image'' sdemo_dump"
proof -
  have "full_tool [''fsverity'', v, p] f = demo_tool [''fsverity'', v, p] f" for v p f by (simp add: full_tool_def)
  then have "fsverity_tool demo_vd full_env"
    using demo_fsverity by (simp add: fsverity_tool_def full_env_def demo_env_def)
  moreover have "tools_keep wf_fs full_env"
    using demo_tools_keep [of wf_fs] wf_seal by (auto simp: tools_keep_def full_env_def full_tool_def demo_env_def)
  ultimately show ?thesis
    by (simp add: deploy_env_def landing_env_def full_env_def full_tool_def demo_env_def plain_path_def DEP_def shared_objects_path plain_name_def)
qed

lemma DEP_store: "shared_objects DEP = OST"
  by (simp add: shared_objects_path DEP_def OST_def)

lemma sdemo_sound: "sound_store demo_vd (shared_objects DEP) sdemo"
proof -
  have "\<not> verity nd" if "inodes sdemo i = Some nd" for i nd
    using that by (auto simp: sdemo_def split: if_splits)
  moreover have "lookup sdemo OST = Some Dir" by code_simp
  ultimately show ?thesis using sdemo_store by (auto simp: sound_store_def open_temps_def DEP_store)
qed

lemma local_supplies: "supplies demo_vd full_env DEP local_source sdemo_dump {} (objects_of DEP local_source sdemo) sdemo"
proof -
  let ?o = "[''src'', ''objects'']" and ?fp = "[''src'', ''objects''] @ object_path (''ef'' @ ZEROS)"
  have "walk_files sdemo ?o = [?fp]" "is_digest (''ef'' @ ZEROS)" "cat sdemo ?fp = Some ''ef''" "demo_vd ''ef'' = ''ef'' @ ZEROS"
    "\<not> prefix (shared_objects DEP) ?fp" "list_all (\<lambda>(p, n). strict_prefix ?o p \<longrightarrow> (case n of Symlink _ \<Rightarrow> False | _ \<Rightarrow> True)) (entries sdemo)"
    by code_simp+
  note c = this
  have "\<not> is_symlink sdemo p" if "strict_prefix ?o p" for p
  proof
    assume "is_symlink sdemo p"
    then obtain t where "lookup sdemo p = Some (Symlink t)" by (auto simp: is_symlink_def split: option.splits node.splits)
    then have "(p, Symlink t) \<in> set (entries sdemo)" by (auto simp: lookup_def split: if_splits dest: map_of_SomeD)
    then show False using c(6) that by (fastforce simp: list_all_iff)
  qed
  then have "object_tree demo_vd (shared_objects DEP) ?o sdemo"
    unfolding object_tree_def object_at_def c(1) using c(2-5) by auto
  then show ?thesis by (simp add: supplies_def local_source_def)
qed

lemma local_artifact: "artifact demo_vd DEP local_source ''dd'' ''the image'' sdemo"
proof -
  have "src_deploy_id local_source = Inr ''dd''" "src_digest local_source = Inr (JStr (demo_vd ''the image''))"
    "cat sdemo (src_root_cfs local_source) = Some ''the image''" "cat sdemo (src_uki local_source) = Some ''the uki''"
    "\<not> is_symlink sdemo (src_bootloader local_source)" "plain_name ''dd''"
    by code_simp+
  then show ?thesis
    by (simp add: artifact_def) (simp add: local_source_def separate_def DEP_def)
qed

lemma sdemo_place_free: "lookup sdemo DEP = Some Dir" "lookup sdemo (DEP @ [''dd'']) = None"
  by code_simp+

section \<open>A host with the lock taken\<close>

definition ldemo :: fs where
  "ldemo = set_entry (DEP @ [LOCK_NAME]) (File 10) demo"

definition busy_env :: env where
  "busy_env = demo_env\<lparr>lock_holder := Some (\<lambda>_. [demo])\<rparr>"

definition cmd_rollback :: args where
  "cmd_rollback = (default_args busy_env ''rollback'')\<lparr>a_deploy := DEP, a_esp := ESP\<rparr>"

lemma ldemo_ready: "command_ready cmd_rollback busy_env ldemo"
proof -
  have "is_dir ldemo (shared_objects DEP)" "is_dir ldemo (pjoin ESP ''zerith'')" "lock_file DEP ldemo" by code_simp+
  then show ?thesis by (simp add: command_ready_def cmd_rollback_def default_args_def busy_env_def demo_env_def)
qed

section \<open>A mounted disk\<close>

definition mounts_demo :: string where
  "mounts_demo = ''proc /proc proc rw 0 0'' @ [NL] @ ''/dev/sda1 /boot vfat rw 0 0'' @ [NL]"

definition mdemo :: fs where
  "mdemo = \<lparr>entries = [([''proc''], Dir), ([''proc'', ''mounts''], File 0)],
     inodes = (\<lambda>i. if i = 0 then Some \<lparr>bytes = mounts_demo, verity = False\<rparr> else None), next_ino = 1\<rparr>"

lemma mdemo_mounted: "mounted_on [''dev'', ''sda''] (univ_nl mounts_demo)"
proof -
  have "list_ex (\<lambda>l. case split_ws l of [] \<Rightarrow> False | dev # _ \<Rightarrow> startswith dev (path_str [''dev'', ''sda''])) (splitlines (univ_nl mounts_demo))"
    by code_simp
  then show ?thesis unfolding mounted_on_def list_ex_iff by (fastforce split: list.splits)
qed

section \<open>A build directory\<close>

definition vdemo_data :: "string list" where
  "vdemo_data = [''abc'', ''ab'' @ ZEROS @ '' 0 1'' @ [NL] @ ''cd'' @ ZEROS @ '' 1 2'' @ [NL], ''a'', ''bc'']"

definition vdemo :: fs where
  "vdemo = \<lparr>entries =
     [([''w''], Dir), ([''w'', ''out''], Dir), (PACK [''w''], File 0), (INDEX [''w''], File 1), (STORE [''w''], Dir),
      (STORE [''w''] @ [''ab''], Dir), (STORE [''w''] @ [''ab'', ZEROS], File 2),
      (STORE [''w''] @ [''cd''], Dir), (STORE [''w''] @ [''cd'', ZEROS], File 3)],
     inodes = (\<lambda>i. if i < 4 then Some \<lparr>bytes = vdemo_data ! i, verity = False\<rparr> else None), next_ino = 4\<rparr>"

lemma vdemo_wf: "wf_fs vdemo"
  by (rule wf_check) code_simp

lemma vdemo_index: "index_of demo_env [''w''] vdemo = Some [(''ab'' @ ZEROS, 0, 1), (''cd'' @ ZEROS, 1, 2)]"
  by code_simp

lemma vdemo_pack: "read1 (PACK [''w'']) vdemo = Inr ''abc''"
  by code_simp

lemma vdemo_sound: "pack_sound demo_env [''w''] vdemo"
proof -
  let ?es = "[(''ab'' @ ZEROS, 0, 1), (''cd'' @ ZEROS, 1, 2)] :: (string \<times> int \<times> int) list"
  have "chained 0 ?es (int (length ''abc''))" "list_all (entry_ok [''w''] ''abc'' vdemo) ?es"
    "length ?es = length (walk_files vdemo (STORE [''w'']))"
    by code_simp+
  then show ?thesis using vdemo_index vdemo_pack unfolding pack_sound_def list_all_iff by blast
qed

end
