(* ===== verification/Health.thy ===== *)
theory Health
  imports Materialize
begin

text \<open>
  A healthy disk (\<open>fit\<close>), a complete deployment (\<open>whole\<close>), and what promotion, rollback and
  garbage collection do to them.
\<close>

section \<open>A healthy disk\<close>

text \<open>No temporary files are lying about below \<open>s\<close>.\<close>

definition tidy :: "path \<Rightarrow> fs \<Rightarrow> bool" where
  "tidy s f \<longleftrightarrow> (\<forall>p. strict_prefix s p \<longrightarrow> dotted (last p) \<longrightarrow> lookup f p = None)"

definition clean_store :: "(string \<Rightarrow> string) \<Rightarrow> path \<Rightarrow> fs \<Rightarrow> bool" where
  "clean_store vd s f \<longleftrightarrow> sound_store vd s f \<and> tidy s f \<and> (\<forall>a n. lookup f (s @ [a, n]) \<noteq> Some Dir)"

definition fit :: "(string \<Rightarrow> string) \<Rightarrow> path \<Rightarrow> path \<Rightarrow> fs \<Rightarrow> bool" where
  "fit vd d b f \<longleftrightarrow> separate d b \<and> esp_ready b f \<and> tidy b f \<and> roles_free d f \<and> clean_store vd (shared_objects d) f"

lemma fitD:
  assumes "fit vd d b f"
  shows "separate d b" "esp_ready b f" "tidy b f" "roles_free d f" "clean_store vd (shared_objects d) f" "wf_fs f"
    "lookup f d = Some Dir" "plain_store (shared_objects d) f" "sound_store vd (shared_objects d) f"
  using assms by (auto simp: fit_def roles_free_def clean_store_def sound_store_def store_ok_def plain_store_def)

lemma store_fewer:
  assumes f: "clean_store vd s f" and g: "wf_fs g" "lookup g s = Some Dir"
    and less: "\<And>q. strict_prefix s q \<Longrightarrow> lookup g q = None \<or> (lookup g q = lookup f q \<and> cat g q = cat f q)"
  shows "clean_store vd s g"
proof -
  have ok: "store_ok vd s f" and tf: "tidy s f" and flat: "\<And>a n. lookup f (s @ [a, n]) \<noteq> Some Dir"
    using f by (auto simp: clean_store_def sound_store_def)
  have tidy: "tidy s g" using tf less unfolding tidy_def by metis
  have "store_ok vd s g"
  proof (rule store_okI [OF g(1)])
    show "\<not> is_symlink g p" if "strict_prefix s p" for p
      using store_no_link [OF ok that] less [OF that] by (auto simp: is_symlink_def)
    show "vd x = object_name s p" if "stored s p" "cat g p = Some x" for p x
    proof -
      have "cat f p = Some x" using less [of p] that cat_Some_lookup [OF that(2)] by (auto simp: stored_def)
      then show ?thesis using store_okD(2) [OF ok that(1)] by blast
    qed
  qed (use tidy in \<open>auto simp: tidy_def\<close>)
  moreover have "lookup g (s @ [a, n]) \<noteq> Some Dir" for a n
    using less [of "s @ [a, n]"] flat [of a n] by (auto simp: strict_prefix_def)
  ultimately show ?thesis using g(2) tidy by (auto simp: clean_store_def sound_store_def open_temps_def tidy_def)
qed

lemma esp_mount: "esp_ready b f \<Longrightarrow> lookup f b = Some Dir"
proof -
  assume r: "esp_ready b f"
  then have "wf_fs f" "lookup f (b @ [''zerith'']) = Some Dir"
    by (auto simp: esp_ready_def copy_ready_def esp_fat_wf swap_names)
  then show ?thesis using wf_prefix_dir [of f "b @ [''zerith'']" Dir b] by (simp add: strict_prefix_def)
qed

lemma esp_kept:
  assumes r: "esp_ready b f" and t: "tidy b f" and g: "wf_fs g" "\<And>q. prefix b q \<Longrightarrow> lookup g q = lookup f q"
  shows "esp_ready b g \<and> tidy b g"
proof -
  have m: "lookup f b = Some Dir" by (rule esp_mount [OF r])
  have fat: "esp_fat b f" using r by (simp add: esp_ready_def copy_ready_def)
  have t': "tidy b g" using t g(2) by (auto simp: tidy_def strict_prefix_def)
  have none: "lookup g p \<noteq> Some (File i)" if "prefix b p" "dotted (last p)" for p i
    using that t' m g(2) [OF that(1)] by (cases "p = b") (auto simp: tidy_def strict_prefix_def)
  have "\<not> is_symlink g p" if "prefix b p" for p using fat that g(2) by (auto simp: esp_fat_def is_symlink_def)
  moreover have "q = p" if "prefix b p" "prefix b q" "lookup g p = Some (File i)" "lookup g q = Some (File i)" for p q i
    using esp_unique [OF fat that(1,2)] that g(2) by simp
  ultimately have fat': "esp_fat b g" using g(1) none unfolding esp_fat_def by blast
  have "copy_ready b p g" if "copy_ready b p f" for p
  proof -
    have p: "prefix b (butlast p)" "p \<noteq> []" using that by (auto simp: copy_ready_def)
    note P = copy_ready_paths [OF that]
    show ?thesis using that fat' g(2) [OF p(1)] g(2) [OF P(1)] g(2) [OF P(2)] by (simp add: copy_ready_def)
  qed
  then show ?thesis using r t' by (simp add: esp_ready_def)
qed

lemma fit_far:
  assumes f: "fit vd d b f" and g: "wf_fs g" "roles_free d g" "\<And>q. prefix b q \<Longrightarrow> lookup g q = lookup f q"
    and s: "lookup g (shared_objects d) = Some Dir"
      "\<And>q. strict_prefix (shared_objects d) q \<Longrightarrow> lookup g q = None \<or> (lookup g q = lookup f q \<and> cat g q = cat f q)"
  shows "fit vd d b g"
  using fitD [OF f] esp_kept [OF _ _ g(1,3)] store_fewer [OF _ g(1) s] g(2) by (simp add: fit_def)

lemma store_below: "prefix (shared_objects d) q \<Longrightarrow> prefix d q"
  by (auto simp: shared_objects_path prefix_def)

lemma fit_esp:
  assumes f: "fit vd d b f" and g: "esp_ready b g" "outside b f g" "tidy b g"
  shows "fit vd d b g"
proof -
  note F = fitD [OF f]
  have wf: "wf_fs g" using g(1) by (auto simp: esp_ready_def copy_ready_def esp_fat_wf)
  have far: "lookup g q = lookup f q \<and> cat g q = cat f q" if "prefix (shared_objects d) q" for q
    using g(2) separate_disjoint [OF F(1) store_below [OF that]] by (simp add: outside_def)
  have "clean_store vd (shared_objects d) g"
    by (rule store_fewer [OF F(5) wf]) (use far F(8) in \<open>auto simp: plain_store_def strict_prefix_def\<close>)
  then show ?thesis using F g outside_roles(2) [OF F(1) g(2) F(4) wf] by (simp add: fit_def)
qed

lemma tidy_esp: "tidy b f \<Longrightarrow> esp_state b f c k g \<Longrightarrow> tidy b g"
  by (simp add: tidy_def esp_state_def no_temps_def strict_prefix_def)

lemma fit_copies: "fit vd d b f \<Longrightarrow> esp_state b f c k g \<Longrightarrow> fit vd d b g"
  using fit_esp [of vd d b f g] tidy_esp [of b f c k g] fitD(3) by (auto simp: esp_state_def)

section \<open>What the role links leave alone\<close>

text \<open>Only names that belong to role links differ.\<close>

definition relinked :: "path \<Rightarrow> fs \<Rightarrow> fs \<Rightarrow> bool" where
  "relinked d g h \<longleftrightarrow> roles_free d h \<and> inodes h = inodes g \<and> (\<forall>q. q \<notin> role_names d \<longrightarrow> lookup h q = lookup g q)"

lemma relinked_trans: "relinked d f g \<Longrightarrow> relinked d g h \<Longrightarrow> relinked d f h"
  by (simp add: relinked_def)

lemma relinked_cat: "relinked d g h \<Longrightarrow> q \<notin> role_names d \<Longrightarrow> lookup h q = lookup g q \<and> cat h q = cat g q"
  using cat_cong [of h q g] by (simp add: relinked_def)

lemma tot_relinked:
  assumes r: "r \<in> set ROLES" and dry: "\<not> dry_run e"
  shows "i \<in> deploy_ids \<Longrightarrow> tot e (relinked d g) (\<lambda>_. True) (set_role d r i) (\<lambda>_. relinked d g)"
    "tot e (relinked d g) (\<lambda>_. True) (clear_role d r) (\<lambda>_. relinked d g)"
proof -
  have names: "role_tmp d r \<in> role_names d" "d @ [r] \<in> role_names d" using r by (auto simp: role_names_def)
  show "tot e (relinked d g) (\<lambda>_. True) (set_role d r i) (\<lambda>_. relinked d g)" if i: "i \<in> deploy_ids"
  proof (rule tr_exact)
    fix h assume h: "relinked d g h"
    then have free: "roles_free d h" by (simp add: relinked_def)
    have "i \<noteq> []" using i by (simp add: deploy_ids_def plain_name_def)
    moreover have "relinked d g k" if k: "set_role_end d r i h k" for k
    proof -
      have "q \<noteq> role_tmp d r \<and> q \<noteq> d @ [r]" if "q \<notin> role_names d" for q using names that by blast
      then show ?thesis using roles_free_end [OF free k r] k h by (simp add: relinked_def set_role_end_def)
    qed
    ultimately show "tot e ((=) h) (\<lambda>_. True) (set_role d r i) (\<lambda>_. relinked d g)"
      by (intro tr_total [OF set_role_spec [OF free r _ dry]]) blast+
  qed
  show "tot e (relinked d g) (\<lambda>_. True) (clear_role d r) (\<lambda>_. relinked d g)"
  proof (rule tr_exact)
    fix h assume h: "relinked d g h"
    then have free: "roles_free d h" by (simp add: relinked_def)
    have "relinked d g k" if "k = h \<or> k = del_entry (d @ [r]) h" for k
      using that h del_link_free(1) [OF free r] names by (auto simp: relinked_def fs_simps)
    then show "tot e ((=) h) (\<lambda>_. True) (clear_role d r) (\<lambda>_. relinked d g)"
      by (intro tr_total [OF clear_role_spec [OF free r dry]]) blast+
  qed
qed

lemma relinked_refl: "roles_free d f \<Longrightarrow> relinked d f f"
  by (simp add: relinked_def)

lemma role_names_flat: "q \<in> role_names d \<Longrightarrow> \<exists>n. q = d @ [n]"
  by (auto simp: role_names_def role_tmp_path)

lemma not_role_name:
  "separate d b \<Longrightarrow> prefix b q \<Longrightarrow> q \<notin> role_names d" "prefix (shared_objects d) q \<Longrightarrow> q \<notin> role_names d"
  "d @ i # x # y \<notin> role_names d"
proof -
  show "q \<notin> role_names d" if "separate d b" "prefix b q"
    using not_inside [OF that(1)] that(2) role_names_flat [of q d] by blast
  show "q \<notin> role_names d" if "prefix (shared_objects d) q"
    using role_names_flat [of q d] that by (fastforce simp: shared_objects_path)
  show "d @ i # x # y \<notin> role_names d" using role_names_flat [of "d @ i # x # y" d] by auto
qed

lemma fit_relinked:
  assumes f: "fit vd d b f" and g: "relinked d f g"
  shows "fit vd d b g"
proof (rule fit_far [OF f])
  show "roles_free d g" "wf_fs g" using g by (auto simp: relinked_def roles_free_def)
  show "lookup g q = lookup f q" if "prefix b q" for q
    using g not_role_name(1) [OF fitD(1) [OF f] that] by (simp add: relinked_def)
  note st = relinked_cat [OF g not_role_name(2)]
  show "lookup g (shared_objects d) = Some Dir" using st fitD(8) [OF f] by (simp add: plain_store_def)
  show "lookup g q = None \<or> (lookup g q = lookup f q \<and> cat g q = cat f q)" if "strict_prefix (shared_objects d) q" for q
    using st [of q] that by (simp add: strict_prefix_def)
qed

lemma fit_collected:
  assumes f: "fit vd d b f" and g: "shrinks (removable d f) f g"
  shows "fit vd d b g"
proof (rule fit_far [OF f])
  note F = fitD [OF f]
  show "wf_fs g" using shrinks_wf [OF g] .
  show "roles_free d g" using gc_roles(1) [OF F(4) g] .
  show "lookup g q = lookup f q" if "prefix b q" for q
    using g esp_not_removable [OF F(1), of f] that by (auto simp: shrinks_def)
  have "shared_objects d \<notin> removable d f"
    using F(8) by (auto simp: removable_def stale_paths_def stale_name_def shared_objects_path)
  then have "lookup g (shared_objects d) = lookup f (shared_objects d)" using g unfolding shrinks_def by blast
  then show "lookup g (shared_objects d) = Some Dir" using F(8) by (simp add: plain_store_def)
  show "lookup g q = None \<or> (lookup g q = lookup f q \<and> cat g q = cat f q)" for q
    using g cat_cong [of g q f] unfolding shrinks_def by blast
qed

section \<open>Complete deployments\<close>

text \<open>The objects a deployment holds are in the store, under the same names.\<close>

definition stocked :: "path \<Rightarrow> string \<Rightarrow> fs \<Rightarrow> bool" where
  "stocked d i f \<longleftrightarrow> (\<forall>y n. y \<noteq> [] \<longrightarrow> lookup f (d @ [i, ''objects''] @ y) = Some (File n) \<longrightarrow>
     lookup f (shared_objects d @ y) = Some (File n))"

text \<open>It holds every object its root image needs; what is inlined in the image
  is not among them.\<close>

definition linked :: "(string \<Rightarrow> path set) \<Rightarrow> path \<Rightarrow> string \<Rightarrow> fs \<Rightarrow> bool" where
  "linked needs d i f \<longleftrightarrow> (\<exists>x. cat f (d @ [i, CFS_NAME]) = Some x \<and>
     (\<forall>y \<in> needs x. \<exists>n. lookup f (d @ [i, ''objects''] @ y) = Some (File n)))"

definition whole :: "(string \<Rightarrow> path set) \<Rightarrow> path \<Rightarrow> string \<Rightarrow> fs \<Rightarrow> bool" where
  "whole needs d i f \<longleftrightarrow> plain_name i \<and> i \<noteq> ''shared'' \<and> cat f (uki_of d i) \<noteq> None \<and>
     \<not> is_symlink f (d @ [i, BOOTLOADER_NAME]) \<and> linked needs d i f \<and> stocked d i f"

lemma whole_dir: "wf_fs f \<Longrightarrow> whole needs d i f \<Longrightarrow> lookup f (d @ [i]) = Some Dir"
proof -
  assume f: "wf_fs f" "whole needs d i f"
  then obtain x where "cat f (uki_of d i) = Some x" by (auto simp: whole_def)
  from cat_Some_lookup [OF this] obtain n where "lookup f (uki_of d i) = Some (File n)" by blast
  then show ?thesis using wf_prefix_dir [OF f(1), of "uki_of d i" "File n" "d @ [i]"] by (simp add: uki_of_def strict_prefix_def)
qed

text \<open>A deployment stays complete while its tree stays and its objects are in the store.\<close>

lemma whole_held:
  assumes w: "whole needs d i f" and h: "\<And>y. lookup g (d @ i # y) = lookup f (d @ i # y) \<and> cat g (d @ i # y) = cat f (d @ i # y)"
    and s: "stocked d i g"
  shows "whole needs d i g"
proof -
  have "linked needs d i g" using w h unfolding whole_def linked_def by simp
  then show ?thesis using w h s by (simp add: whole_def uki_of_def is_symlink_def)
qed

lemma stocked_same:
  assumes "stocked d i f" "\<And>y. lookup g (d @ [i, ''objects''] @ y) = lookup f (d @ [i, ''objects''] @ y)"
    "\<And>y. lookup g (shared_objects d @ y) = lookup f (shared_objects d @ y)"
  shows "stocked d i g"
  using assms by (simp add: stocked_def)

lemma hold_tree:
  assumes "hold (trees d ids f) f g" "i \<in> ids" "lookup f (d @ [i]) = Some Dir"
  shows "lookup g (d @ i # y) = lookup f (d @ i # y) \<and> cat g (d @ i # y) = cat f (d @ i # y)"
proof -
  have "prefix (d @ [i]) (d @ i # y)" by simp
  then have "d @ i # y \<in> trees d ids f" using assms(2,3) by (auto simp: trees_def)
  then show ?thesis using assms(1) by (simp add: hold_def)
qed

text \<open>The collection leaves the objects of the deployments that have a role: they have two names.\<close>

lemma stocked_collected:
  assumes f: "fit vd d b f" and i: "r \<in> set ROLES" "role_view d f r = Some i" "i \<noteq> ''shared''" and st: "stocked d i f"
    and g: "swept (shared_objects d) (pruned f (stale_list d f)) g" "shrinks (removable d f) f g"
  shows "stocked d i g"
  unfolding stocked_def
proof (intro allI impI)
  fix y n assume y: "y \<noteq> []" "lookup g (d @ [i, ''objects''] @ y) = Some (File n)"
  let ?s = "shared_objects d @ y" and ?h = "d @ [i, ''objects''] @ y" and ?p = "pruned f (stale_list d f)"
  have ne: "[] \<notin> set (stale_list d f)" using stale_list_sub [of "[]" d f] by auto
  have h: "lookup f ?h = Some (File n)"
    using g(2) y(2) unfolding shrinks_def by (metis option.distinct(1))
  then have s: "lookup f ?s = Some (File n)" using st y(1) by (simp add: stocked_def)
  have kept: "lookup ?p q = lookup f q" if "q = ?h \<or> q = ?s" for q
  proof -
    have "\<not> prefix t q" if t: "t \<in> set (stale_list d f)" for t
    proof
      assume "prefix t q"
      moreover obtain m where m: "t = d @ [m]" "stale_name d f m" using stale_list_sub [OF t] by blast
      ultimately have "m = i \<or> m = ''shared''" using \<open>q = ?h \<or> q = ?s\<close> by (auto simp: shared_objects_path)
      then show False using m(2) i by (auto simp: stale_name_def)
    qed
    then show ?thesis by (simp add: lookup_pruned [OF ne])
  qed
  have wf: "wf_fs ?p" using wf_pruned [OF fitD(6) [OF f] ne] .
  have "\<not> is_orphan ?p ?s"
  proof
    assume "is_orphan ?p ?s"
    then have n1: "nlink ?p n = 1" using kept [of ?s] s by (simp add: is_orphan_file)
    have "lookup ?p ?h = Some (File n)" using kept [of ?h] h by simp
    then have "(?h, File n) \<in> set (entries ?p)" using y(1) by (auto simp: lookup_def split: if_splits dest: map_of_SomeD)
    from nlink_unique [OF wf _ n1 this] have "?h = ?s" using kept [of ?s] s by simp
    then show False using i(3) by (simp add: shared_objects_path)
  qed
  then show "lookup g ?s = Some (File n)" using g(1) kept [of ?s] s by (simp add: swept_def)
qed

text \<open>What an operation does to the deployments \<open>S\<close>: complete ones stay complete, with their image.\<close>

definition preserved :: "(string \<Rightarrow> path set) \<Rightarrow> path \<Rightarrow> string set \<Rightarrow> fs \<Rightarrow> fs \<Rightarrow> bool" where
  "preserved needs d S f g \<longleftrightarrow> (\<forall>i \<in> S. whole needs d i f \<longrightarrow> whole needs d i g \<and> cat g (uki_of d i) = cat f (uki_of d i))"

lemma preserved_trans: "preserved needs d S f g \<Longrightarrow> preserved needs d T g h \<Longrightarrow> S \<subseteq> T \<Longrightarrow> preserved needs d S f h"
  unfolding preserved_def by (metis subsetD)

lemma preserved_far:
  assumes "\<And>i y. i \<in> S \<Longrightarrow> whole needs d i f \<Longrightarrow> lookup g (d @ i # y) = lookup f (d @ i # y) \<and> cat g (d @ i # y) = cat f (d @ i # y)"
    "\<And>i. i \<in> S \<Longrightarrow> whole needs d i f \<Longrightarrow> stocked d i g"
  shows "preserved needs d S f g"
  unfolding preserved_def using whole_held assms by (auto simp: uki_of_def)

lemma preserved_same:
  assumes "\<And>y. lookup g (d @ y) = lookup f (d @ y) \<and> cat g (d @ y) = cat f (d @ y)"
  shows "preserved needs d S f g"
proof (rule preserved_far)
  show "lookup g (d @ i # y) = lookup f (d @ i # y) \<and> cat g (d @ i # y) = cat f (d @ i # y)" for i y by (rule assms)
  show "stocked d i g" if "whole needs d i f" for i
    by (rule stocked_same [of d i f]) (use that assms in \<open>auto simp: whole_def shared_objects_path\<close>)
qed

lemma preserved_outside: "separate d b \<Longrightarrow> outside b f g \<Longrightarrow> preserved needs d S f g"
  using not_inside [of d b] by (intro preserved_same) (simp add: outside_def)

lemma preserved_relinked:
  assumes f: "wf_fs f" "roles_free d f" and g: "relinked d f g"
  shows "preserved needs d S f g"
proof (rule preserved_far)
  fix i assume w: "whole needs d i f"
  have "d @ [i] \<notin> role_names d"
    using whole_dir [OF f(1) w] roles_free_dirs [OF f(2)] by (auto simp: role_names_def)
  then have "d @ i # y \<notin> role_names d" for y using not_role_name(3) by (cases y) auto
  then show "lookup g (d @ i # y) = lookup f (d @ i # y) \<and> cat g (d @ i # y) = cat f (d @ i # y)" for y
    using relinked_cat [OF g] by blast
  have "lookup g (shared_objects d @ y) = lookup f (shared_objects d @ y)" for y
    using relinked_cat [OF g not_role_name(2)] by simp
  moreover have "lookup g (d @ [i, ''objects''] @ y) = lookup f (d @ [i, ''objects''] @ y)" for y
    using relinked_cat [OF g not_role_name(3)] by simp
  ultimately show "stocked d i g" using w stocked_same [of d i f g] by (simp add: whole_def)
qed

section \<open>The operations keep a host healthy\<close>

definition same_esp :: "path \<Rightarrow> fs \<Rightarrow> fs \<Rightarrow> bool" where
  "same_esp b f g \<longleftrightarrow> (\<forall>q. prefix b q \<longrightarrow> lookup g q = lookup f q \<and> cat g q = cat f q)"

definition held_ids :: "path \<Rightarrow> fs \<Rightarrow> string set" where
  "held_ids d f = {i. \<exists>r \<in> set ROLES. roles_of d f r = Some i}"

lemma gc_keeps:
  assumes f: "fit vd d b f" and dry: "\<not> dry_run e"
  shows "tot e ((=) f) (\<lambda>_. True) (gc d)
    (\<lambda>_ g. fit vd d b g \<and> roles_of d g = roles_of d f \<and> same_esp b f g \<and> preserved needs d (held_ids d f) f g)"
proof (rule tr_total [OF gc_from [OF fitD(4,8) [OF f] dry]])
  note F = fitD [OF f]
  fix g assume "swept (shared_objects d) (pruned f (stale_list d f)) g \<and> shrinks (removable d f) f g"
  then have g: "swept (shared_objects d) (pruned f (stale_list d f)) g" "shrinks (removable d f) f g" by auto
  have same: "lookup g q = lookup f q \<and> cat g q = cat f q" if "q \<notin> removable d f" for q
    using shrinks_hold [OF g(2), of "{q}"] that by (simp add: hold_def)
  have "preserved needs d (held_ids d f) f g"
  proof (rule preserved_far)
    fix i assume i: "i \<in> held_ids d f" and w: "whole needs d i f"
    then obtain r where r: "r \<in> set ROLES" "role_view d f r = Some i" by (auto simp: held_ids_def roles_of_def split: if_splits)
    have n: "i \<noteq> ''shared''" using w by (simp add: whole_def)
    have "d @ i # y \<notin> removable d f" for y by (rule role_tree_kept [OF r(2,1) n]) simp
    then show "lookup g (d @ i # y) = lookup f (d @ i # y) \<and> cat g (d @ i # y) = cat f (d @ i # y)" for y by (rule same)
    show "stocked d i g" by (rule stocked_collected [OF f r n _ g]) (use w in \<open>simp add: whole_def\<close>)
  qed
  moreover have "same_esp b f g"
    using esp_not_removable [OF F(1), of f] same unfolding same_esp_def by blast
  ultimately show "fit vd d b g \<and> roles_of d g = roles_of d f \<and> same_esp b f g \<and> preserved needs d (held_ids d f) f g"
    using fit_collected [OF f g(2)] gc_roles(2) [OF F(4) g(2)] by blast
qed auto

lemma promote_keeps:
  assumes f: "fit vd d b f" and p: "promote_ready d b new f" and dry: "\<not> dry_run e" and old: "roles_of d f ''current'' = Some old"
  shows "tot e ((=) f) (\<lambda>_. True) (promote d b new) (\<lambda>_ g. fit vd d b g \<and> preserved needs d {old, new} f g)"
proof -
  let ?v = "roles_of d f" and ?Q = "\<lambda>_ g. fit vd d b g \<and> preserved needs d {old, new} f g"
  have n: "plain_name new" "plain_name old" and nosym: "\<not> is_symlink f (d @ [new, BOOTLOADER_NAME])"
    using p old by (auto simp: promote_ready_def)
  obtain n' o' where cats: "cat f (uki_of d new) = Some n'" "cat f (cur_efi b) = Some o'"
    using p by (auto simp: promote_ready_def)
  note F = fitD [OF f] and R = tot_relinked(1) [OF _ dry]
  have ids: "new \<in> deploy_ids" "old \<in> deploy_ids" using n by (auto simp: deploy_ids_def)
  have tail: "tot e (esp_state b f (Some n') (Some o')) (\<lambda>_. True)
      (bnd (role_flip d new (Some old)) (\<lambda>_. steps [gc d, log m])) ?Q" for m
  proof (rule tr_exact)
    fix g assume g: "esp_state b f (Some n') (Some o') g"
    then have out: "outside b f g" by (simp add: esp_state_def)
    note G = fit_copies [OF f g]
    have roles: "roles_free d g" "roles_of d g = ?v" using fitD(4) [OF G] outside_roles(1) [OF F(1) out] by auto
    have a: "tot e (\<lambda>h. (roles_free d h \<and> roles_of d h = ?v) \<and> hold {} g h) (\<lambda>_. True) (role_flip d new (Some old))
        (\<lambda>_ h. roles_of d h = promoted ?v new)"
      by (rule tr_total [OF flip_tot [where v = ?v, OF _ dry n(1) old n(2)]]) auto
    have b: "tot e (relinked d g) (\<lambda>_. True) (role_flip d new (Some old)) (\<lambda>_. relinked d g)"
      unfolding role_flip_def option.case
      by (rule tr_bnd [OF R tr_bnd [OF R tot_relinked(2) [OF _ dry]]]) (use roles_in ids in auto)
    have flip: "tot e ((=) g) (\<lambda>_. True) (role_flip d new (Some old)) (\<lambda>_ h. roles_of d h = promoted ?v new \<and> relinked d g h)"
      by (rule tr_conseq_x [OF tr_conj [OF a b]]) (use roles relinked_refl in auto)
    have coll: "tot e (\<lambda>h. roles_of d h = promoted ?v new \<and> relinked d g h) (\<lambda>_. True) (gc d) ?Q"
    proof (rule tr_exact)
      fix h assume h: "roles_of d h = promoted ?v new \<and> relinked d g h"
      note H = fit_relinked [OF G, of h]
      have "roles_of d h ''current'' = Some new" "roles_of d h ''fallback'' = Some old"
        using old by (simp_all add: h [THEN conjunct1] promoted_def)
      then have ids: "{old, new} \<subseteq> held_ids d h" unfolding held_ids_def using roles_in by blast
      have gh: "preserved needs d {old, new} f h"
        by (rule preserved_trans [OF preserved_outside [OF F(1) out] preserved_relinked [OF fitD(6) [OF G] roles(1)] subset_refl]) (use h in blast)
      show "tot e ((=) h) (\<lambda>_. True) (gc d) ?Q"
        by (rule tr_total [OF gc_keeps [OF H dry, where needs = needs]]) (use h preserved_trans [OF gh _ ids] in blast)+
    qed
    show "tot e ((=) g) (\<lambda>_. True) (bnd (role_flip d new (Some old)) (\<lambda>_. steps [gc d, log m])) ?Q"
      unfolding steps.simps by (rule tr_bnd [OF flip tr_bnd [OF coll tr_bnd [OF tr_log tr_ret]]]) auto
  qed
  have copies: "tot e ((=) f) (\<lambda>_. True) (promote_copies d b new) (\<lambda>_. esp_state b f (Some n') (Some o'))"
    by (rule tr_total [OF copies_tot [OF F(1) dry F(2) cats(2) cats(1) nosym]]) auto
  show ?thesis by (rule promote_unfold [OF p dry old], rule tr_bnd [OF copies tail])
qed

lemma rollback_keeps:
  assumes f: "fit vd d b f" and r: "rollback_ready d b f" and dry: "\<not> dry_run e"
    and v: "roles_of d f ''current'' = Some c" "roles_of d f ''fallback'' = Some k"
  shows "tot e ((=) f) (\<lambda>_. True) (rollback d b) (\<lambda>_ g. fit vd d b g \<and> preserved needs d UNIV f g)"
proof (rule rollback_unfold [OF r dry v])
  fix m
  let ?Q = "\<lambda>_ g. fit vd d b g \<and> preserved needs d UNIV f g"
  note F = fitD [OF f] and N = swap_names [of b]
  have ids: "c \<in> deploy_ids" "k \<in> deploy_ids" using r v by (auto simp: rollback_ready_def deploy_ids_def)
  have swapped: "fit vd d b g \<and> preserved needs d UNIV f g"
    if g: "esp_fat b g \<and> outside b f g \<and> cat g (cur_efi b) = cat f (fb_efi b) \<and> cat g (fb_efi b) = cat f (cur_efi b) \<and>
       same_but {swap_path b, cur_efi b, fb_efi b} f g \<and> lookup g (swap_path b) = None" for g
  proof -
    have out: "outside b f g" and fat: "esp_fat b g" and sb: "same_but {swap_path b, cur_efi b, fb_efi b} f g"
      and none: "lookup g (swap_path b) = None" using g by auto
    have nt: "no_temps b f g" by (rule no_temps_same [OF sb]) (use none N(1,2) in auto)
    then have t: "tidy b g" using F(3) by (auto simp: tidy_def no_temps_def strict_prefix_def)
    have "cat g (cur_efi b) \<noteq> None" "cat g (fb_efi b) \<noteq> None" using g r by (auto simp: rollback_ready_def)
    then have nd: "lookup g (cur_efi b) \<noteq> Some Dir" "lookup g (fb_efi b) \<noteq> Some Dir" by (auto simp: cat_def)
    have far: "lookup g q = lookup f q" if "q \<notin> {swap_path b, cur_efi b, fb_efi b}" for q
      using sb that by (simp add: same_but_def)
    have dots: "dotted (last (copy_tmp p))" "strict_prefix b (copy_tmp p)" if "p \<in> {cur_efi b, fb_efi b, esp_limine b}" for p
      using that copy_tmp_path(3) by (auto simp: tmp_paths strict_prefix_def)
    have ready: "copy_ready b p g" if "copy_ready b p f" "p \<in> {cur_efi b, fb_efi b, esp_limine b}" for p
    proof -
      have "lookup g (copy_tmp p) = None" using t dots [OF that(2)] unfolding tidy_def by blast
      moreover have "lookup g (butlast p) = lookup f (butlast p)"
        by (rule far) (use that(2) N in \<open>auto simp: esp_paths swap_path butlast_append\<close>)
      moreover have "lookup g p \<noteq> Some Dir"
        using that nd far [of "esp_limine b"] by (auto simp: copy_ready_def esp_paths swap_path)
      ultimately show ?thesis using that(1) fat by (simp add: copy_ready_def)
    qed
    have "esp_ready b g" using F(2) ready by (simp add: esp_ready_def)
    then show ?thesis using fit_esp [OF f _ out t] preserved_outside [OF F(1) out] by blast
  qed
  have 1: "tot e ((=) f) (\<lambda>_. True) (esp_swap b) ?Q"
    by (rule tr_total [OF swap_tot [OF r]]) (use swapped in auto)
  have 2: "tot e (?Q ()) (\<lambda>_. True) (role_swap d k c) ?Q"
  proof (rule tr_exact)
    fix g assume g: "?Q () g"
    then have G: "fit vd d b g" and p: "preserved needs d UNIV f g" by auto
    note R = tot_relinked(1) [OF _ dry]
    have "tot e (relinked d g) (\<lambda>_. True) (role_swap d k c) (\<lambda>_. relinked d g)"
      unfolding role_swap_def by (rule tr_bnd [OF R R]) (use roles_in ids in auto)
    then show "tot e ((=) g) (\<lambda>_. True) (role_swap d k c) ?Q"
      by (rule tr_total) (use relinked_refl fit_relinked [OF G] fitD(4) [OF G]
          preserved_trans [OF p preserved_relinked [OF fitD(6,4) [OF G]] subset_refl] in blast)+
  qed
  show "tot e ((=) f) (\<lambda>_. True) (bnd (esp_swap b) (\<lambda>_. bnd (role_swap d k c) (\<lambda>_. log m))) ?Q"
    by (rule tr_bnd [OF 1 tr_bnd [OF 2 tr_log]])
qed

end
