(* ===== verification/Upkeep.thy ===== *)
theory Upkeep
  imports Health
begin

text \<open>
  The life of a healthy host: an update adds a complete deployment, what the two slots boot,
  and the proof that updates, rollbacks and collections move between healthy disks as an
  abstract machine on the pair of deployments says.
\<close>

section \<open>A new deployment\<close>

text \<open>What makes \<open>src\<close> fit to be deployed as \<open>i\<close>: the deployment is on the disk already and
  complete, or it is new and the build directory or the registry, together with the store, has
  every object it needs.\<close>

definition fresh :: "(string \<Rightarrow> string) \<Rightarrow> (string \<Rightarrow> path set) \<Rightarrow> path \<Rightarrow> path \<Rightarrow> env \<Rightarrow> source \<Rightarrow> string \<Rightarrow> fs \<Rightarrow> bool" where
  "fresh vd needs d b e src i f \<longleftrightarrow> lookup f (d @ [i]) = None \<and> i \<notin> set ROLES \<and> \<not> dotted i \<and>
     (\<exists>x listing A D m. artifact vd d src i x f \<and> deploy_env vd e d x listing \<and> supplies vd e d src listing A D f \<and>
       (\<forall>q \<in> A. \<not> prefix b q) \<and> build_meta src (clock e) = Inr m \<and> needs x \<subseteq> referenced listing \<and>
       (\<forall>y \<in> needs x. shared_objects d @ y \<in> D \<or> lookup f (shared_objects d @ y) \<noteq> None))"

definition offered :: "(string \<Rightarrow> string) \<Rightarrow> (string \<Rightarrow> path set) \<Rightarrow> path \<Rightarrow> path \<Rightarrow> env \<Rightarrow> source \<Rightarrow> string \<Rightarrow> fs \<Rightarrow> bool" where
  "offered vd needs d b e src i f \<longleftrightarrow> src_deploy_id src = Inr i \<and> (\<exists>ver. src_version src = Inr ver) \<and> \<not> dry_run e \<and>
     (whole needs d i f \<or> fresh vd needs d b e src i f)"

definition offered_image :: "path \<Rightarrow> source \<Rightarrow> string \<Rightarrow> fs \<Rightarrow> string option" where
  "offered_image d src i f = (case cat f (uki_of d i) of None \<Rightarrow> cat f (src_uki src) | Some u \<Rightarrow> Some u)"

lemma referenced_object: "y \<in> referenced l \<Longrightarrow> \<exists>a n. y = [a, n] \<and> stored s (s @ y)"
  using stored_names digest_names(1) by (fastforce simp: referenced_def object_path_def)

text \<open>What \<open>deployed\<close> says of the new deployment and of the rest of the disk.\<close>

lemma deployed_object:
  assumes clean: "clean_store vd (shared_objects d) g" and gr: "grows (shared_objects d) f g" and D: "in_store (shared_objects d) D g"
    and y: "y \<in> referenced listing" "shared_objects d @ y \<in> D \<or> lookup f (shared_objects d @ y) \<noteq> None"
  shows "\<exists>n. lookup g (shared_objects d @ y) = Some (File n)"
proof -
  let ?s = "shared_objects d"
  obtain a n where an: "y = [a, n]" "stored ?s (?s @ y)" using referenced_object y(1) by blast
  have "lookup g (?s @ y) \<noteq> None"
  proof (cases "?s @ y \<in> D")
    case True
    then show ?thesis using D by (simp add: in_store_def)
  next
    case False
    then have "lookup f (?s @ y) \<noteq> None" using y(2) by blast
    then show ?thesis using gr an(2) by (simp add: grows_def store_kept_def)
  qed
  moreover have "lookup g (?s @ y) \<noteq> Some Dir" using clean an(1) by (simp add: clean_store_def)
  moreover have "\<not> is_symlink g (?s @ y)"
    using clean an(2) store_no_link by (auto simp: clean_store_def sound_store_def stored_def)
  ultimately show ?thesis by (cases "lookup g (?s @ y)"; cases "the (lookup g (?s @ y))") (auto simp: is_symlink_def)
qed

lemma deployed_loader:
  assumes a: "artifact vd d src i x f" and wf: "wf_fs f" and bd: "boot_done d src i f g"
  shows "\<not> is_symlink g (d @ [i, BOOTLOADER_NAME])"
proof (cases "is_file f (src_bootloader src)")
  case True
  then obtain n where n: "lookup f (src_bootloader src) = Some (File n)"
    using a by (auto simp: artifact_def is_file_def stat_no_link split: option.splits node.splits)
  obtain c where "cat f (src_bootloader src) = Some c" using wf_file_cat [OF wf n] by blast
  then show ?thesis using bd True cat_Some_lookup [of g "d @ [i, BOOTLOADER_NAME]" c] by (auto simp: boot_done_def is_symlink_def)
next
  case False
  then show ?thesis using bd by (simp add: boot_done_def is_symlink_def)
qed

lemma deployed_whole:
  assumes f: "clean_store vd (shared_objects d) f" and a: "artifact vd d src i x f"
    and needs: "needs x \<subseteq> referenced listing" "\<forall>y \<in> needs x. shared_objects d @ y \<in> D \<or> lookup f (shared_objects d @ y) \<noteq> None"
    and g: "deployed vd d src i D x listing m f g"
  shows "whole needs d i g \<and> cat g (uki_of d i) = cat f (src_uki src) \<and> clean_store vd (shared_objects d) g"
proof -
  let ?s = "shared_objects d" and ?R = "referenced listing"
  have gr: "grows ?s f g" and D: "in_store ?s D g" and snd: "sound_store vd ?s g"
    and h: "holder_done d i ?R g" and pl: "placed (d @ [i, CFS_NAME]) x g" and bd: "boot_done d src i f g"
    using g by (auto simp: deployed_def built_def base_def)
  have wf: "wf_fs g" using snd by (simp add: sound_store_def store_ok_def)
  have node: "lookup g (d @ [i, ''objects''] @ y) = holder_node g ?s ?R y" if "y \<noteq> []" for y
    using h that unfolding holder_done_def by blast
  have clean: "clean_store vd ?s g"
    using f snd gr unfolding clean_store_def grows_def neat_def tidy_def no_temps_def strict_prefix_def by blast
  have obj: "\<exists>n. lookup g (?s @ y) = Some (File n)" if "y \<in> needs x" for y
    by (rule deployed_object [OF clean gr D]) (use needs that in auto)
  have "\<exists>n. lookup g (d @ [i, ''objects''] @ y) = Some (File n)" if y: "y \<in> needs x" for y
  proof -
    have yr: "y \<in> ?R" using needs(1) y by blast
    obtain n where n: "lookup g (?s @ y) = Some (File n)" using obj [OF y] by blast
    obtain c where "cat g (?s @ y) = Some c" using wf_file_cat [OF wf n] by blast
    then have "holder_node g ?s ?R y = Some (File n)" using yr n cat_is_file by (simp add: holder_node_def)
    then show ?thesis using node [of y] referenced_object [OF yr] by auto
  qed
  then have "linked needs d i g" using pl by (auto simp: linked_def placed_def cat_def)
  moreover have "stocked d i g"
    unfolding stocked_def
  proof (intro allI impI)
    fix y n assume y: "y \<noteq> []" "lookup g (d @ [i, ''objects''] @ y) = Some (File n)"
    then have "holder_node g ?s ?R y = Some (File n)" using node by simp
    then show "lookup g (?s @ y) = Some (File n)" by (simp add: holder_node_def split: if_splits)
  qed
  moreover have "\<not> is_symlink g (d @ [i, BOOTLOADER_NAME])"
    by (rule deployed_loader [OF a _ bd]) (use f in \<open>simp add: clean_store_def sound_store_def store_ok_def\<close>)
  moreover have "cat g (uki_of d i) = cat f (src_uki src)" using bd by (simp add: boot_done_def uki_of_def)
  ultimately show ?thesis using a clean by (auto simp: whole_def artifact_def)
qed

lemma untouched_role: "i \<notin> set ROLES \<Longrightarrow> \<not> dotted i \<Longrightarrow> q \<in> role_names d \<Longrightarrow> q \<notin> touched d i"
  by (auto simp: role_names_def role_tmp_path touched_def shared_objects_path dotted_def startswith_def prefix_def append_eq_append_conv2 Cons_eq_append_conv)

lemma untouched_mount: "separate d b \<Longrightarrow> prefix b q \<Longrightarrow> q \<notin> touched d i" "d \<notin> touched d i"
proof -
  show "q \<notin> touched d i" if "separate d b" "prefix b q"
  proof
    assume "q \<in> touched d i"
    then have "prefix d q" using store_below append_prefixD by (auto simp: touched_def)
    then show False using separate_disjoint [OF that(1)] that(2) by blast
  qed
qed (auto simp: touched_def shared_objects_path)

text \<open>What staging leaves alone.\<close>

definition beside_roles :: "path \<Rightarrow> path \<Rightarrow> fs \<Rightarrow> fs \<Rightarrow> bool" where
  "beside_roles d b f g \<longleftrightarrow> same_esp b f g \<and> (\<forall>r. r \<noteq> ''staging'' \<longrightarrow> roles_of d g r = roles_of d f r)"

lemma beside_far:
  assumes T: "same_but A f g" and A: "\<And>q. q \<in> A \<Longrightarrow> \<not> prefix b q" "\<And>q. q \<in> A \<Longrightarrow> q \<notin> role_names d"
  shows "beside_roles d b f g" "roles_of d g = roles_of d f"
proof -
  have far: "q \<notin> A \<Longrightarrow> lookup g q = lookup f q \<and> cat g q = cat f q" for q
    using T unfolding same_but_def by blast
  have e: "same_esp b f g" using far A(1) unfolding same_esp_def by blast
  show r: "roles_of d g = roles_of d f"
  proof
    fix r show "roles_of d g r = roles_of d f r"
    proof (cases "r \<in> set ROLES")
      case True
      then have "d @ [r] \<in> role_names d" by (auto simp: role_names_def)
      then have "d @ [r] \<notin> A" using A(2) by blast
      then show ?thesis using far by (simp add: roles_of_def role_view_def)
    qed (simp add: roles_of_def)
  qed
  show "beside_roles d b f g" using e r by (simp add: beside_roles_def)
qed

lemma untouched_beside:
  assumes "separate d b" "i \<notin> set ROLES" "\<not> dotted i" and T: "same_but (touched d i) f g"
  shows "beside_roles d b f g" "roles_of d g = roles_of d f"
  using beside_far [OF T] untouched_mount(1) [OF assms(1)] untouched_role [OF assms(2,3)] by blast+

lemma deployed_keeps:
  assumes f: "fit vd d b f" and n: "lookup f (d @ [i]) = None" "i \<notin> set ROLES" "\<not> dotted i"
    and g: "deployed vd d src i D x l m f g" and clean: "clean_store vd (shared_objects d) g"
  shows "fit vd d b g \<and> preserved needs d UNIV f g"
proof -
  let ?s = "shared_objects d"
  note F = fitD [OF f]
  have T: "same_but (touched d i) f g" and gr: "grows ?s f g"
    using g by (auto simp: deployed_def built_def base_def)
  have wf: "wf_fs g" using clean by (simp add: clean_store_def sound_store_def store_ok_def)
  have far: "q \<notin> touched d i \<Longrightarrow> lookup g q = lookup f q \<and> cat g q = cat f q" for q
    using T unfolding same_but_def by blast
  have roles: "roles_free d g"
  proof -
    have "lookup g q = lookup f q" if "q \<in> role_names d" for q
      using far untouched_role [OF n(2,3) that] by blast
    moreover have "d @ [r] \<in> role_names d" "role_tmp d r \<in> role_names d" if "r \<in> set ROLES" for r
      using that by (auto simp: role_names_def)
    moreover have "lookup g d = lookup f d" using far untouched_mount(2) by blast
    ultimately show ?thesis using F(4) wf by (simp add: roles_free_def)
  qed
  have esp: "esp_ready b g \<and> tidy b g"
    by (rule esp_kept [OF F(2,3) wf]) (use far untouched_mount(1) [OF F(1)] in blast)
  have "preserved needs d UNIV f g"
  proof (rule preserved_far)
    fix j assume w: "whole needs d j f"
    then have j: "j \<noteq> i" "j \<noteq> ''shared''" using whole_dir [OF F(6) w] n(1) by (auto simp: whole_def)
    then have "d @ j # y \<notin> touched d i" for y by (auto simp: touched_def shared_objects_path)
    then show tree: "lookup g (d @ j # y) = lookup f (d @ j # y) \<and> cat g (d @ j # y) = cat f (d @ j # y)" for y
      by (rule far)
    show "stocked d j g"
      unfolding stocked_def
    proof (intro allI impI)
      fix y k assume y: "y \<noteq> []" "lookup g (d @ [j, ''objects''] @ y) = Some (File k)"
      then have s: "lookup f (?s @ y) = Some (File k)" using w tree [of "''objects'' # y"] by (simp add: whole_def stocked_def)
      have sp: "strict_prefix ?s (?s @ y)" using y(1) by (simp add: strict_prefix_def)
      have "\<not> dotted (last (?s @ y))"
        using F(5) sp s unfolding clean_store_def tidy_def by (metis option.distinct(1))
      then have "stored ?s (?s @ y)" using sp by (simp add: stored_def)
      then show "lookup g (?s @ y) = Some (File k)" using gr s by (simp add: grows_def store_kept_def)
    qed
  qed
  then show ?thesis using F(1) esp roles clean by (simp add: fit_def)
qed

text \<open>Staging, from an artifact or from the deployment on disk.\<close>

definition staged :: "(string \<Rightarrow> string) \<Rightarrow> (string \<Rightarrow> path set) \<Rightarrow> path \<Rightarrow> path \<Rightarrow> source \<Rightarrow> string \<Rightarrow> fs \<Rightarrow> fs \<Rightarrow> bool" where
  "staged vd needs d b src i f g \<longleftrightarrow> fit vd d b g \<and> beside_roles d b f g \<and> preserved needs d UNIV f g \<and>
     whole needs d i g \<and> cat g (uki_of d i) = offered_image d src i f"

lemma beside_trans: "beside_roles d b f g \<Longrightarrow> beside_roles d b g h \<Longrightarrow> beside_roles d b f h"
  by (simp add: beside_roles_def same_esp_def)

lemma mark_staging:
  assumes f: "fit vd d b f" and i: "i \<in> deploy_ids" and dry: "\<not> dry_run e"
  shows "tot e ((=) f) (beside_roles d b f) (set_role d ''staging'' i)
    (\<lambda>_ g. fit vd d b g \<and> beside_roles d b f g \<and> preserved needs d UNIV f g)"
proof -
  note F = fitD [OF f]
  have r: "''staging'' \<in> set ROLES" by (rule roles_in(3))
  have esp: "same_esp b f g" if "set_role_mid d ''staging'' f g \<or> set_role_end d ''staging'' i f g" for g
  proof -
    have "{q. prefix b q} \<inter> role_names d = {}" using not_role_name(1) [OF F(1)] by blast
    from hold_set_role [OF this r that] show ?thesis by (simp add: hold_def same_esp_def)
  qed
  have mid: "beside_roles d b f g" if g: "set_role_mid d ''staging'' f g \<or> set_role_end d ''staging'' i f g" for g
    using g esp [OF g] set_role_mid_view [OF _ r, of d f g] set_role_end_view [OF _ r i, of d f g] by (auto simp: beside_roles_def)
  have i': "i \<noteq> []" using i by (simp add: deploy_ids_def plain_name_def)
  have main: "tot e ((=) f) (beside_roles d b f) (set_role d ''staging'' i) (\<lambda>_. beside_roles d b f)"
    by (rule tr_total [OF set_role_spec [OF F(4) r i' dry]]) (use mid in blast)+
  show ?thesis
    by (rule tr_conseq_x [OF tr_conj [OF main tot_relinked(1) [OF r dry i]]])
      (use relinked_refl [OF F(4)] fit_relinked [OF f] preserved_relinked [OF F(6,4)] in blast)+
qed

lemma stage_fresh:
  assumes f: "fit vd d b f" and i: "src_deploy_id src = Inr i" and o: "fresh vd needs d b e src i f"
  shows "tot e ((=) f) (beside_roles d b f) (materialize d src)
    (\<lambda>_ g. fit vd d b g \<and> beside_roles d b f g \<and> preserved needs d UNIV f g \<and> whole needs d i g \<and> cat g (uki_of d i) = offered_image d src i f)"
    and "lookup f (d @ [i, y]) = None"
proof -
  note F = fitD [OF f]
  obtain x listing A D m where fr: "lookup f (d @ [i]) = None" "i \<notin> set ROLES" "\<not> dotted i"
    and a: "artifact vd d src i x f" and E: "deploy_env vd e d x listing" and S: "supplies vd e d src listing A D f"
    and A: "\<forall>q \<in> A. \<not> prefix b q" and m: "build_meta src (clock e) = Inr m"
    and all: "needs x \<subseteq> referenced listing" "\<forall>y \<in> needs x. shared_objects d @ y \<in> D \<or> lookup f (shared_objects d @ y) \<noteq> None"
    using o unfolding fresh_def by blast
  have none: "lookup f (d @ i # y) = None" for y
    using fr(1) wf_prefix_dir [OF F(6), of "d @ i # y" _ "d @ [i]"] by (cases y; cases "lookup f (d @ i # y)") (auto simp: strict_prefix_def)
  then show "lookup f (d @ [i, y]) = None" by simp
  show "tot e ((=) f) (beside_roles d b f) (materialize d src)
    (\<lambda>_ g. fit vd d b g \<and> beside_roles d b f g \<and> preserved needs d UNIV f g \<and> whole needs d i g \<and> cat g (uki_of d i) = offered_image d src i f)"
    (is "tot e _ _ _ (\<lambda>_. ?P)")
  proof (rule tr_total [OF materialize_tot [OF a E S F(9,7) fr(1) m]])
    have "q \<notin> role_names d" if "q \<in> A" for q
      using supply_apart [OF S that] role_names_flat [of q d] by auto
    then show "beside_roles d b f g" if "same_but (touched d i \<union> A) f g" for g
      using untouched_mount(1) [OF F(1)] untouched_role [OF fr(2,3)] A that by (intro beside_far [OF that]) blast+
    fix g assume g: "deployed vd d src i D x listing m f g"
    note W = deployed_whole [where needs = needs, OF F(5) a all g]
    then have c: "clean_store vd (shared_objects d) g" by blast
    have T: "same_but (touched d i) f g" using g by (simp add: deployed_def built_def base_def)
    have "offered_image d src i f = cat f (src_uki src)" using none by (simp add: offered_image_def uki_of_def cat_def)
    then show "?P g" using W deployed_keeps [OF f fr g c] untouched_beside(1) [OF F(1) fr(2,3) T] by simp
  qed auto
qed

lemma stage_keeps:
  assumes f: "fit vd d b f" and o: "offered vd needs d b e src i f"
  shows "tot e ((=) f) (beside_roles d b f) (stage d src) (\<lambda>_. staged vd needs d b src i f)"
proof -
  note F = fitD [OF f]
  have id: "src_deploy_id src = Inr i" and dry: "\<not> dry_run e" using o by (auto simp: offered_def)
  have n: "plain_name i" using o by (auto simp: offered_def whole_def fresh_def artifact_def)
  have ids: "i \<in> deploy_ids" using n by (simp add: deploy_ids_def)
  have path: "pjoin (deploy_dir d i) CFS_NAME = d @ [i, CFS_NAME]" using n file_names by (simp add: deploy_dir_def)
  let ?P = "\<lambda>g. fit vd d b g \<and> beside_roles d b f g \<and> preserved needs d UNIV f g \<and> whole needs d i g \<and> cat g (uki_of d i) = offered_image d src i f"
  have mark: "tot e ?P (beside_roles d b f) (set_role d ''staging'' i) (\<lambda>_. staged vd needs d b src i f)"
  proof (rule tr_exact)
    fix g assume g: "?P g"
    then have G: "fit vd d b g" by blast
    have fin: "staged vd needs d b src i f h"
      if "fit vd d b h" "beside_roles d b g h" "preserved needs d UNIV g h" for h
    proof -
      have "whole needs d i h \<and> cat h (uki_of d i) = cat g (uki_of d i)" using that(3) g by (simp add: preserved_def)
      moreover have "preserved needs d UNIV f h" using g that(3) preserved_trans by blast
      moreover have "beside_roles d b f h" using g that(2) beside_trans by blast
      ultimately show ?thesis using that(1) g by (simp add: staged_def)
    qed
    show "tot e ((=) g) (beside_roles d b f) (set_role d ''staging'' i) (\<lambda>_. staged vd needs d b src i f)"
      by (rule tr_total [OF mark_staging [OF G ids dry, where needs = needs]]) (use g beside_trans fin in blast)+
  qed
  have body: "tot e ((=) f) (beside_roles d b f)
      (if path_exists f (d @ [i, CFS_NAME]) then log t else materialize d src) (\<lambda>_. ?P)" for t
  proof (cases "whole needs d i f")
    case True
    then obtain x u where x: "cat f (d @ [i, CFS_NAME]) = Some x" "cat f (uki_of d i) = Some u"
      by (auto simp: whole_def linked_def)
    have "?P f" using f True x(2) by (simp add: beside_roles_def same_esp_def preserved_def offered_image_def)
    then show ?thesis using cat_Some_lookup [OF x(1)] by (auto simp: path_exists_def stat_no_link is_symlink_def intro!: tr_log)
  next
    case False
    then have "fresh vd needs d b e src i f" using o by (simp add: offered_def)
    note N = stage_fresh [OF f id this]
    have "\<not> path_exists f (d @ [i, CFS_NAME])" using N(2) by (simp add: path_exists_def stat_no_link is_symlink_def)
    then show ?thesis using N(1) by simp
  qed
  show ?thesis unfolding stage_def id bnd_lift path
    by (rule tr_asks_bnd, rule tr_gets_exact, simp only: dry not_False_eq_True simp_thms steps.simps)
      (rule tr_bnd [OF body tr_bnd [OF mark tr_ret]])
qed

section \<open>What the machine boots\<close>

text \<open>The host is healthy, \<open>c\<close> is current and \<open>k\<close> the fallback, both are complete, and the two
  images on the ESP are theirs.\<close>

definition boots :: "(string \<Rightarrow> string) \<Rightarrow> (string \<Rightarrow> path set) \<Rightarrow> path \<Rightarrow> path \<Rightarrow> string \<Rightarrow> string option \<Rightarrow> fs \<Rightarrow> bool" where
  "boots vd needs d b c k f \<longleftrightarrow> fit vd d b f \<and> roles_of d f ''current'' = Some c \<and> roles_of d f ''fallback'' = k \<and>
     whole needs d c f \<and> cat f (cur_efi b) = cat f (uki_of d c) \<and>
     (\<forall>i. k = Some i \<longrightarrow> whole needs d i f \<and> cat f (fb_efi b) = cat f (uki_of d i))"

lemma efi_below: "prefix b (cur_efi b)" "prefix b (fb_efi b)"
  using swap_names by auto

lemma boots_beside:
  assumes f: "boots vd needs d b c k f" and g: "fit vd d b g" "beside_roles d b f g" "preserved needs d {i. i = c \<or> k = Some i} f g"
  shows "boots vd needs d b c k g"
proof -
  have "cat g (cur_efi b) = cat f (cur_efi b)" "cat g (fb_efi b) = cat f (fb_efi b)"
    using g(2) efi_below by (auto simp: beside_roles_def same_esp_def)
  moreover have "roles_of d g ''current'' = roles_of d f ''current''" "roles_of d g ''fallback'' = roles_of d f ''fallback''"
    using g(2) by (auto simp: beside_roles_def)
  ultimately show ?thesis using f g(1,3) by (simp add: boots_def preserved_def)
qed

lemma boots_images:
  assumes "boots vd needs d b c k f"
  shows "\<exists>x. cat f (cur_efi b) = Some x" "k = Some i \<Longrightarrow> \<exists>x. cat f (fb_efi b) = Some x"
  using assms by (auto simp: boots_def whole_def)

text \<open>At every moment of an update: the current image is the whole old or the whole new one, the
  latter only with the old one as the fallback; the role moves only when the image has.\<close>

definition update_safe :: "path \<Rightarrow> path \<Rightarrow> string option \<Rightarrow> string \<Rightarrow> fs \<Rightarrow> fs \<Rightarrow> bool" where
  "update_safe d b new i f g \<longleftrightarrow> boot_ok b f new g \<and>
     (roles_of d g ''current'' = roles_of d f ''current'' \<or>
      (roles_of d g ''current'' = Some i \<and> roles_of d g ''fallback'' = roles_of d f ''current'' \<and> cat g (cur_efi b) = new))"

lemma beside_safe: "beside_roles d b f g \<Longrightarrow> update_safe d b new i f g"
  using efi_below [of b] by (simp add: beside_roles_def same_esp_def update_safe_def boot_ok_def)

lemma promote_update_safe:
  assumes f: "boots vd needs d b c k f" and s: "staged vd needs d b src i f g" and h: "promote_safe d b g i h"
  shows "update_safe d b (offered_image d src i f) i f h"
proof -
  have same: "cat g (cur_efi b) = cat f (cur_efi b)" "cat g (fb_efi b) = cat f (fb_efi b)"
      "roles_of d g ''current'' = Some c" "roles_of d f ''current'' = Some c" "cat g (uki_of d i) = offered_image d src i f"
    using s f efi_below [of b] by (auto simp: staged_def beside_roles_def same_esp_def boots_def)
  have "boot_ok b f (offered_image d src i f) h" using h same by (simp add: promote_safe_def boot_ok_def)
  moreover have "roles_of d h ''current'' = Some c \<or>
      (roles_of d h ''current'' = Some i \<and> roles_of d h ''fallback'' = Some c \<and> cat h (cur_efi b) = offered_image d src i f)"
  proof (cases "roles_of d h ''current'' = Some c")
    case False
    then have "roles_of d h \<noteq> roles_of d g" using same(3) by auto
    then show ?thesis using h False same by (auto simp: promote_safe_def flip_safe_def)
  qed simp
  ultimately show ?thesis using same(4) by (simp add: update_safe_def)
qed

lemma update_tot:
  assumes f: "boots vd needs d b c k f" and o: "offered vd needs d b e src i f" and ic: "i \<noteq> c"
  shows "tot e ((=) f) (update_safe d b (offered_image d src i f) i f) (deploy_source d b src)
    (\<lambda>_ g. boots vd needs d b i (Some c) g \<and> cat g (cur_efi b) = offered_image d src i f)"
proof -
  let ?C = "update_safe d b (offered_image d src i f) i f" and ?Q = "\<lambda>_ g. boots vd needs d b i (Some c) g \<and> cat g (cur_efi b) = offered_image d src i f"
  obtain ver where ids: "src_deploy_id src = Inr i" "src_version src = Inr ver" and dry: "\<not> dry_run e"
    using o by (auto simp: offered_def)
  have B: "fit vd d b f" "roles_of d f ''current'' = Some c" "whole needs d c f" using f by (auto simp: boots_def)
  have st: "tot e ((=) f) ?C (stage d src) (\<lambda>_. staged vd needs d b src i f)"
    by (rule tr_total [OF stage_keeps [OF B(1) o]]) (use beside_safe in auto)
  have pr: "tot e (staged vd needs d b src i f) ?C (promote d b i) ?Q"
  proof (rule tr_exact)
    fix g assume g: "staged vd needs d b src i f g"
    then have G: "fit vd d b g" and w: "whole needs d i g" and im: "cat g (uki_of d i) = offered_image d src i f"
      by (auto simp: staged_def)
    have rc: "roles_of d g ''current'' = Some c" using g B(2) by (simp add: staged_def beside_roles_def)
    have bg: "boots vd needs d b c k g"
    proof (rule boots_beside [OF f G])
      show "beside_roles d b f g" using g by (simp add: staged_def)
      show "preserved needs d {i. i = c \<or> k = Some i} f g" using g by (simp add: staged_def preserved_def)
    qed
    then have wc: "whole needs d c g" and cc: "cat g (cur_efi b) = cat g (uki_of d c)" by (auto simp: boots_def)
    note F = fitD [OF G]
    have ready: "promote_ready d b i g"
      using F w wc cc rc ic boots_images(1) [OF bg] by (auto simp: promote_ready_def whole_def)
    have fin: "?Q u h" if "promote_done d b g c i h" "fit vd d b h" "preserved needs d {c, i} g h" for u h
    proof -
      have "whole needs d i h" "whole needs d c h" "cat h (uki_of d i) = cat g (uki_of d i)" "cat h (uki_of d c) = cat g (uki_of d c)"
        using that(3) w wc by (auto simp: preserved_def)
      then show ?thesis using that(1,2) rc cc im by (simp add: boots_def promote_done_def promoted_def)
    qed
    show "tot e ((=) g) ?C (promote d b i) ?Q"
      by (rule tr_conseq_x [OF tr_conj [OF promote_tot [OF ready dry rc] promote_keeps [OF G ready dry rc, where needs = needs]]])
        (use promote_update_safe [OF f g] fin in blast)+
  qed
  have ne: "(Some c = Some i) = False" using ic by simp
  show ?thesis unfolding deploy_source_def ids bnd_lift
    by (rule tr_read_role_bnd [OF roles_in(1)], simp only: B(2) ne if_False steps.simps)
      (rule tr_bnd [OF st tr_bnd [OF pr tr_bnd [OF tr_log tr_ret]]], auto)
qed

section \<open>The abstract machine\<close>

text \<open>Labelled steps, and the contract under which a machine on abstract states follows them.\<close>

inductive runs :: "('l \<Rightarrow> 's \<Rightarrow> 's \<Rightarrow> bool) \<Rightarrow> 'l list \<Rightarrow> 's \<Rightarrow> 's \<Rightarrow> bool" for step where
  none: "runs step [] s s"
| more: "step x s t \<Longrightarrow> runs step xs t u \<Longrightarrow> runs step (x # xs) s u"

inductive_simps runs_simps [simp]: "runs step [] s u" "runs step (x # xs) s u"

locale simulation =
  fixes step :: "'l \<Rightarrow> 's \<Rightarrow> 's \<Rightarrow> bool"
    and follow :: "'l \<Rightarrow> 'a \<Rightarrow> 'a"
    and rel :: "'a \<Rightarrow> 's \<Rightarrow> bool"
  assumes follows: "step x s t \<Longrightarrow> rel a s \<Longrightarrow> rel (follow x a) t"
begin

lemma runs_follow: "runs step xs s t \<Longrightarrow> rel a s \<Longrightarrow> rel (fold follow xs a) t"
  by (induction arbitrary: a rule: runs.induct) (auto intro: follows)

end

text \<open>The deployments in the two slots, and what each maintenance command does to them.\<close>

datatype event = Updated string | RolledBack | Collected | Elsewhere

fun after :: "event \<Rightarrow> string \<times> string option \<Rightarrow> string \<times> string option" where
  "after (Updated i) (c, k) = (if i = c then (c, k) else (i, Some c))"
| "after RolledBack (c, Some k) = (k, Some c)"
| "after RolledBack (c, None) = (c, None)"
| "after Collected s = s"
| "after Elsewhere s = s"

text \<open>The commands on the disk, and anything other programs do outside \<open>@deploy\<close> and the ESP.\<close>

inductive upkeep :: "(string \<Rightarrow> string) \<Rightarrow> (string \<Rightarrow> path set) \<Rightarrow> path \<Rightarrow> path \<Rightarrow> event \<Rightarrow> fs \<Rightarrow> fs \<Rightarrow> bool" for vd needs d b where
  update: "offered vd needs d b e src i f \<Longrightarrow> upkeep vd needs d b (Updated i) f (disk_after (deploy_source d b src) e f)"
| roll_back: "\<not> dry_run e \<Longrightarrow> upkeep vd needs d b RolledBack f (disk_after (rollback d b) e f)"
| collect: "\<not> dry_run e \<Longrightarrow> upkeep vd needs d b Collected f (disk_after (gc d) e f)"
| elsewhere: "wf_fs g \<Longrightarrow> \<forall>q. prefix d q \<or> prefix b q \<longrightarrow> lookup g q = lookup f q \<and> cat g q = cat f q \<Longrightarrow>
    upkeep vd needs d b Elsewhere f g"

inductive_cases upkeepE: "upkeep vd needs d b x f g"

lemma boots_ready:
  assumes f: "boots vd needs d b c (Some k) f"
  shows "rollback_ready d b f"
proof -
  have B: "fit vd d b f" "roles_of d f ''current'' = Some c" "roles_of d f ''fallback'' = Some k" "plain_name c" "plain_name k"
    using f by (auto simp: boots_def whole_def)
  note F = fitD [OF B(1)]
  have "dotted (last (swap_path b))" "strict_prefix b (swap_path b)"
    using swap_names(3) by (auto simp: swap_path strict_prefix_def)
  then have "lookup f (swap_path b) \<noteq> Some Dir" using F(3) by (simp add: tidy_def)
  then show ?thesis using F B boots_images [OF f] by (auto simp: rollback_ready_def)
qed

lemma rollback_boots:
  assumes f: "boots vd needs d b c (Some k) f" and dry: "\<not> dry_run e"
  shows "tot e ((=) f) (swap_safe d b f) (rollback d b) (\<lambda>_. boots vd needs d b k (Some c))"
proof -
  note r = boots_ready [OF f]
  have B: "fit vd d b f" "roles_of d f ''current'' = Some c" "roles_of d f ''fallback'' = Some k"
    "whole needs d c f" "whole needs d k f" "cat f (cur_efi b) = cat f (uki_of d c)" "cat f (fb_efi b) = cat f (uki_of d k)"
    using f by (auto simp: boots_def)
  have "boots vd needs d b k (Some c) g" if "swap_done d b f g" "fit vd d b g" "preserved needs d UNIV f g" for g
    using that B by (simp add: boots_def swap_done_def preserved_def)
  then show ?thesis
    by (intro tr_conseq_x [OF tr_conj [OF rollback_tot [OF r dry] rollback_keeps [OF B(1) r dry B(2,3), where needs = needs]]]) blast+
qed

lemma gc_boots:
  assumes f: "boots vd needs d b c k f" and dry: "\<not> dry_run e"
  shows "tot e ((=) f) (\<lambda>_. True) (gc d) (\<lambda>_. boots vd needs d b c k)"
proof (rule tr_total [OF gc_keeps [where needs = needs, OF _ dry]])
  show "fit vd d b f" using f by (simp add: boots_def)
  fix g assume g: "fit vd d b g \<and> roles_of d g = roles_of d f \<and> same_esp b f g \<and> preserved needs d (held_ids d f) f g"
  have "roles_of d f ''current'' = Some c" "roles_of d f ''fallback'' = k" using f by (auto simp: boots_def)
  then have "{i. i = c \<or> k = Some i} \<subseteq> held_ids d f" using roles_in unfolding held_ids_def by blast
  then have "preserved needs d {i. i = c \<or> k = Some i} f g" using g unfolding preserved_def by blast
  then show "boots vd needs d b c k g"
    by (intro boots_beside [OF f]) (use g in \<open>auto simp: beside_roles_def\<close>)
qed auto

lemma elsewhere_boots:
  assumes f: "boots vd needs d b c k f" and g: "wf_fs g" "\<forall>q. prefix d q \<or> prefix b q \<longrightarrow> lookup g q = lookup f q \<and> cat g q = cat f q"
  shows "boots vd needs d b c k g"
proof -
  have B: "fit vd d b f" using f by (simp add: boots_def)
  note F = fitD [OF B]
  have dn: "lookup g (d @ y) = lookup f (d @ y) \<and> cat g (d @ y) = cat f (d @ y)" for y using g(2) by simp
  have st: "lookup g q = lookup f q \<and> cat g q = cat f q" if "prefix (shared_objects d) q" for q
    using g(2) store_below [OF that] by blast
  have roles: "roles_of d g = roles_of d f" using dn by (auto simp: roles_of_def role_view_def)
  have "roles_free d g" using F(4) g(1) dn [of "[]"] dn by (simp add: roles_free_def role_tmp_path)
  then have "fit vd d b g"
    by (rule fit_far [OF B g(1)]) (use g(2) st F(8) in \<open>auto simp: plain_store_def strict_prefix_def\<close>)
  moreover have "beside_roles d b f g" using g(2) roles by (simp add: beside_roles_def same_esp_def)
  ultimately show ?thesis using boots_beside [OF f] preserved_same dn by blast
qed

lemma no_fallback: "roles_of d f ''fallback'' = None \<Longrightarrow> disk_after (rollback d b) e f = f"
  using roles_in by (simp add: rollback_def disk_after_def run_simps read_role_run roles_of_def die_def boot_def)

lemma already_current:
  assumes "offered vd needs d b e src i f" "roles_of d f ''current'' = Some i"
  shows "disk_after (deploy_source d b src) e f = f"
  using assms roles_in by (auto simp: offered_def deploy_source_def disk_after_def run_simps read_role_run roles_of_def log_def boot_def)

lemma upkeep_follows:
  assumes "upkeep vd needs d b x f g" "boots vd needs d b c k f"
  shows "case after x (c, k) of (c', k') \<Rightarrow> boots vd needs d b c' k' g"
  using assms(1)
proof (cases rule: upkeep.cases)
  case (update e src i)
  show ?thesis
  proof (cases "i = c")
    case True
    have "roles_of d f ''current'' = Some i" using assms(2) True by (simp add: boots_def)
    then show ?thesis using update True already_current assms(2) by simp
  next
    case False
    from tot_outcome [OF update_tot [OF assms(2) update(3) False] refl] show ?thesis using update(1,2) False by auto
  qed
next
  case (roll_back e)
  show ?thesis
  proof (cases k)
    case None
    then show ?thesis using assms(2) no_fallback [of d f b e] roll_back by (simp add: boots_def)
  next
    case (Some i)
    then have "boots vd needs d b c (Some i) f" using assms(2) by simp
    from tot_outcome [OF rollback_boots [OF this roll_back(3)] refl] show ?thesis using roll_back(1,2) Some by auto
  qed
next
  case (collect e)
  from tot_outcome [OF gc_boots [OF assms(2) collect(3)] refl] show ?thesis using collect(1,2) by auto
next
  case elsewhere
  then show ?thesis using elsewhere_boots [OF assms(2)] by simp
qed

interpretation slots: simulation "upkeep vd needs d b" after "\<lambda>(c, k). boots vd needs d b c k" for vd needs d b
  by unfold_locales (auto dest: upkeep_follows split: prod.splits)

end
