(* ===== verification/HostDemo.thy ===== *)
theory HostDemo
  imports StoreDemo Upkeep
begin

text \<open>
  A whole host: two complete deployments in their slots, their images on the ESP, and a local
  build of a third one. Its checks discharge the hypotheses about maintenance.
\<close>

section \<open>Deciding hypotheses\<close>

definition tidy_check :: "path \<Rightarrow> fs \<Rightarrow> bool" where
  "tidy_check s f \<longleftrightarrow> list_all (\<lambda>(p, n). strict_prefix s p \<longrightarrow> \<not> dotted (last p)) (entries f)"

lemma tidy_check: "tidy_check s f \<Longrightarrow> tidy s f"
  unfolding tidy_def
proof (intro allI impI)
  fix p assume c: "tidy_check s f" and p: "strict_prefix s p" "dotted (last p)"
  show "lookup f p = None"
  proof (cases "lookup f p")
    case (Some n)
    then have "(p, n) \<in> set (entries f)" using p(1) by (auto simp: lookup_def split: if_splits dest: map_of_SomeD)
    then show ?thesis using c p by (auto simp: tidy_check_def list_all_iff)
  qed
qed

definition flat_check :: "path \<Rightarrow> fs \<Rightarrow> bool" where
  "flat_check s f \<longleftrightarrow> list_all (\<lambda>(p, n). prefix s p \<longrightarrow> length p = length s + 2 \<longrightarrow> n \<noteq> Dir) (entries f)"

lemma flat_check: "flat_check s f \<Longrightarrow> lookup f (s @ [a, n]) \<noteq> Some Dir"
proof
  assume c: "flat_check s f" and "lookup f (s @ [a, n]) = Some Dir"
  then have "(s @ [a, n], Dir) \<in> set (entries f)" by (auto simp: lookup_def dest: map_of_SomeD)
  then show False using c by (auto simp: flat_check_def list_all_iff)
qed

definition fit_check :: "(string \<Rightarrow> string) \<Rightarrow> path \<Rightarrow> path \<Rightarrow> fs \<Rightarrow> bool" where
  "fit_check vd d b f \<longleftrightarrow> fat_check b f \<and> tidy_check b f \<and> roles_check d f \<and> objects_check vd (shared_objects d) f \<and>
     tidy_check (shared_objects d) f \<and> flat_check (shared_objects d) f \<and> lookup f (shared_objects d) = Some Dir \<and>
     copy_check b (cur_efi b) f \<and> copy_check b (fb_efi b) f \<and> copy_check b (esp_limine b) f"

lemma fit_check: "separate d b \<Longrightarrow> fit_check vd d b f \<Longrightarrow> fit vd d b f"
  using objects_check [of vd "shared_objects d" f] roles_check [of d f] tidy_check [of b f] tidy_check [of "shared_objects d" f]
    flat_check [of "shared_objects d" f]
  by (auto simp: fit_def fit_check_def clean_store_def sound_store_def open_temps_def tidy_def esp_ready_def copy_check)

definition stocked_check :: "path \<Rightarrow> string \<Rightarrow> fs \<Rightarrow> bool" where
  "stocked_check d i f \<longleftrightarrow> list_all (\<lambda>(p, n). strict_prefix (d @ [i, ''objects'']) p \<longrightarrow>
     (case n of File _ \<Rightarrow> lookup f (shared_objects d @ drop (length d + 2) p) = Some n | _ \<Rightarrow> True)) (entries f)"

lemma stocked_check: "stocked_check d i f \<Longrightarrow> stocked d i f"
  unfolding stocked_def
proof (intro allI impI)
  fix y n assume c: "stocked_check d i f" and y: "y \<noteq> []" "lookup f (d @ [i, ''objects''] @ y) = Some (File n)"
  then have "(d @ [i, ''objects''] @ y, File n) \<in> set (entries f)" by (auto simp: lookup_def dest: map_of_SomeD)
  then show "lookup f (shared_objects d @ y) = Some (File n)"
    using c y(1) by (fastforce simp: stocked_check_def list_all_iff strict_prefix_def)
qed

definition digests_in :: "string \<Rightarrow> string list" where
  "digests_in l = filter is_digest (word_runs (strip (univ_nl l)))"

definition whole_check :: "(string \<Rightarrow> string list) \<Rightarrow> path \<Rightarrow> string \<Rightarrow> fs \<Rightarrow> bool" where
  "whole_check ds d i f \<longleftrightarrow> plain_name i \<and> i \<noteq> ''shared'' \<and> cat f (uki_of d i) \<noteq> None \<and>
     \<not> is_symlink f (d @ [i, BOOTLOADER_NAME]) \<and> stocked_check d i f \<and>
     (case cat f (d @ [i, CFS_NAME]) of None \<Rightarrow> False
      | Some x \<Rightarrow> list_all (\<lambda>a. case lookup f (d @ [i, ''objects''] @ object_path a) of Some (File _) \<Rightarrow> True | _ \<Rightarrow> False) (ds x))"

lemma whole_check: "whole_check ds d i f \<Longrightarrow> whole (\<lambda>x. object_path ` set (ds x)) d i f"
proof -
  assume c: "whole_check ds d i f"
  then obtain x where x: "cat f (d @ [i, CFS_NAME]) = Some x"
    "list_all (\<lambda>a. case lookup f (d @ [i, ''objects''] @ object_path a) of Some (File _) \<Rightarrow> True | _ \<Rightarrow> False) (ds x)"
    by (auto simp: whole_check_def split: option.splits)
  have "linked (\<lambda>x. object_path ` set (ds x)) d i f"
    unfolding linked_def
  proof (intro exI [of _ x] conjI x(1) ballI)
    fix y assume "y \<in> object_path ` set (ds x)"
    then obtain a where "a \<in> set (ds x)" "y = object_path a" by blast
    then have "case lookup f (d @ [i, ''objects''] @ y) of Some (File _) \<Rightarrow> True | _ \<Rightarrow> False" using x(2) by (auto simp: list_all_iff)
    then show "\<exists>n. lookup f (d @ [i, ''objects''] @ y) = Some (File n)" by (auto split: option.splits node.splits)
  qed
  then show ?thesis using c stocked_check by (simp add: whole_def whole_check_def)
qed

section \<open>The host\<close>

definition hdemo_data :: "string list" where
  "hdemo_data = [''ab'', ''uki aa'', ''image aa'', ''uki aa'', ''ef'', ''the image'', ''the uki'', ''uki bb'', ''image bb'', ''uki bb'']"

definition hdemo :: fs where
  "hdemo = \<lparr>entries =
     [([''deploy''], Dir), ([''deploy'', ''shared''], Dir), (OST, Dir), (OST @ [''ab''], Dir), (OST @ [''ab'', ZEROS], File 0),
      ([''deploy'', ''aa''], Dir), ([''deploy'', ''aa'', ''zerith.efi''], File 1), ([''deploy'', ''aa'', ''root.cfs''], File 2),
      ([''deploy'', ''aa'', ''objects''], Dir), ([''deploy'', ''aa'', ''objects'', ''ab''], Dir),
      ([''deploy'', ''aa'', ''objects'', ''ab'', ZEROS], File 0),
      ([''deploy'', ''bb''], Dir), ([''deploy'', ''bb'', ''zerith.efi''], File 7), ([''deploy'', ''bb'', ''root.cfs''], File 8),
      ([''deploy'', ''current''], Symlink ''aa''), ([''deploy'', ''fallback''], Symlink ''bb''),
      ([''esp''], Dir), ([''esp'', ''zerith''], Dir),
      ([''esp'', ''zerith'', ''current.efi''], File 3), ([''esp'', ''zerith'', ''fallback.efi''], File 9),
      ([''esp'', ''EFI''], Dir), ([''esp'', ''EFI'', ''BOOT''], Dir),
      ([''src''], Dir), ([''src'', ''objects''], Dir), ([''src'', ''objects'', ''ef''], Dir),
      ([''src'', ''objects'', ''ef'', ZEROS], File 4), ([''src'', ''root.cfs''], File 5), ([''src'', ''zerith.efi''], File 6), ([''tmp''], Dir)],
     inodes = (\<lambda>i. if i < 10 then Some \<lparr>bytes = hdemo_data ! i, verity = False\<rparr> else None), next_ino = 10\<rparr>"

text \<open>What the root images refer to.\<close>

definition hdemo_ls :: "string \<Rightarrow> string" where
  "hdemo_ls x = (if x = ''the image'' then ''/a 4 ef/'' @ ZEROS @ '' - '' @ demo_vd ''ef'' @ [NL] @ ''/b 9 - '' @ demo_vd ''ab'' @ [NL]
       @ ''/c 3 - '' @ demo_vd ''12'' @ [NL]
     else if x = ''image aa'' then ''/b 9 - '' @ demo_vd ''ab'' @ [NL] else [])"

text \<open>One of the objects is inlined.\<close>

definition hdemo_digests :: "string \<Rightarrow> string list" where
  "hdemo_digests x = filter (\<lambda>a. a \<noteq> ''12'' @ ZEROS) (digests_in (hdemo_ls x))"

definition hdemo_needs :: "string \<Rightarrow> path set" where
  "hdemo_needs = (\<lambda>x. object_path ` set (hdemo_digests x))"

lemma hdemo_needs_listed: "hdemo_needs x \<subseteq> referenced (hdemo_ls x)"
  by (auto simp: hdemo_needs_def hdemo_digests_def digests_in_def referenced_def)

definition hdemo_tool :: "string list \<Rightarrow> fs \<Rightarrow> tool_result" where
  "hdemo_tool cmd f = (case cmd of
      [prog, _, p] \<Rightarrow> if prog = ''composefs-info''
        then (case cat f (comps p) of None \<Rightarrow> \<lparr>t_rc = 1, t_out = [], t_err = [], t_fs = []\<rparr>
              | Some x \<Rightarrow> \<lparr>t_rc = 0, t_out = hdemo_ls x, t_err = [], t_fs = []\<rparr>)
        else demo_tool cmd f
    | _ \<Rightarrow> demo_tool cmd f)"

definition hdemo_env :: env where
  "hdemo_env = demo_env\<lparr>tool := hdemo_tool\<rparr>"

lemma hdemo_checks:
  "fit_check demo_vd DEP ESP hdemo" "whole_check hdemo_digests DEP ''aa'' hdemo" "whole_check hdemo_digests DEP ''bb'' hdemo"
  "roles_of DEP hdemo ''current'' = Some ''aa''" "roles_of DEP hdemo ''fallback'' = Some ''bb''"
  "cat hdemo (cur_efi ESP) = cat hdemo (uki_of DEP ''aa'')" "cat hdemo (fb_efi ESP) = cat hdemo (uki_of DEP ''bb'')"
  by code_simp+

lemma hdemo_boots: "boots demo_vd hdemo_needs DEP ESP ''aa'' (Some ''bb'') hdemo"
  using fit_check [OF demo_separate hdemo_checks(1)] hdemo_checks(2-7) whole_check by (simp add: boots_def hdemo_needs_def)

lemma hdemo_tools: "deploy_env demo_vd hdemo_env DEP ''the image'' (hdemo_ls ''the image'')"
proof -
  have v: "hdemo_tool [''fsverity'', v, p] f = demo_tool [''fsverity'', v, p] f" for v p f by (simp add: hdemo_tool_def)
  have "fsverity_tool demo_vd hdemo_env"
    using demo_fsverity v by (simp add: fsverity_tool_def hdemo_env_def demo_env_def)
  moreover have "t_fs (hdemo_tool cmd f) = [] \<or> hdemo_tool cmd f = demo_tool cmd f" for cmd f
    by (auto simp: hdemo_tool_def split: list.splits option.splits)
  then have "tools_keep wf_fs hdemo_env"
    using demo_tools_keep [of wf_fs] wf_seal by (auto simp: tools_keep_def hdemo_env_def demo_env_def) (metis list.set_cases list.distinct(1))
  moreover have "tool hdemo_env [''composefs-info'', ''dump'', path_str rc] g
      = \<lparr>t_rc = 0, t_out = hdemo_ls ''the image'', t_err = [], t_fs = []\<rparr>"
    if "plain_path rc" "cat g rc = Some ''the image''" for rc g
    using that by (simp add: hdemo_env_def hdemo_tool_def comps_path_str [OF that(1)])
  ultimately show ?thesis
    by (simp add: deploy_env_def landing_env_def) (simp add: hdemo_env_def demo_env_def plain_path_def DEP_def shared_objects_path plain_name_def)
qed

lemma hdemo_supplies: "supplies demo_vd hdemo_env DEP local_source l {} (objects_of DEP local_source hdemo) hdemo"
proof -
  let ?o = "[''src'', ''objects'']" and ?fp = "[''src'', ''objects''] @ object_path (''ef'' @ ZEROS)"
  have c: "walk_files hdemo ?o = [?fp]" "is_digest (''ef'' @ ZEROS)" "cat hdemo ?fp = Some ''ef''" "demo_vd ''ef'' = ''ef'' @ ZEROS"
    "\<not> prefix (shared_objects DEP) ?fp" "store_check ?o hdemo"
    by code_simp+
  have "object_tree demo_vd (shared_objects DEP) ?o hdemo"
    unfolding object_tree_def object_at_def c(1) using c(2-5) store_check [OF c(6)] by (auto simp: plain_store_def)
  then show ?thesis by (simp add: supplies_def local_source_def)
qed

lemma hdemo_files:
  "cat hdemo [''src'', ''root.cfs''] = Some ''the image''" "cat hdemo [''src'', ''zerith.efi''] = Some ''the uki''"
  "\<not> is_symlink hdemo [''src'', ''BOOTX64.EFI'']" "lookup hdemo (DEP @ [''dd'']) = None"
  "lookup hdemo (OST @ object_path (''ab'' @ ZEROS)) \<noteq> None"
  by code_simp+

lemma hdemo_artifact:
  assumes "staging src = [''src'']" "src_deploy_id src = Inr ''dd''" "src_digest src = Inr (JStr (demo_vd ''the image''))"
  shows "artifact demo_vd DEP src ''dd'' ''the image'' hdemo"
proof -
  have "plain_name ''dd''" "UKI_NAME = ''zerith.efi''" "BOOTLOADER_NAME = ''BOOTX64.EFI''" "CFS_NAME = ''root.cfs''" by code_simp+
  then show ?thesis using assms hdemo_files
    by (simp add: artifact_def source_paths separate_def DEP_def)
qed

lemma hdemo_fresh:
  assumes src: "staging src = [''src'']" "src_deploy_id src = Inr ''dd''" "src_digest src = Inr (JStr (demo_vd ''the image''))"
    and E: "deploy_env demo_vd e DEP ''the image'' (hdemo_ls ''the image'')" "build_meta src (clock e) = Inr m"
    and S: "supplies demo_vd e DEP src (hdemo_ls ''the image'') A D hdemo" "\<forall>q \<in> A. \<not> prefix ESP q" "OST @ object_path (''ef'' @ ZEROS) \<in> D"
  shows "fresh demo_vd hdemo_needs DEP ESP e src ''dd'' hdemo"
proof -
  have d: "hdemo_digests ''the image'' = [''ef'' @ ZEROS, ''ab'' @ ZEROS]" "''dd'' \<notin> set ROLES" "\<not> dotted ''dd''" by code_simp+
  have "\<forall>y \<in> hdemo_needs ''the image''. OST @ y \<in> D \<or> lookup hdemo (OST @ y) \<noteq> None"
    using S(3) hdemo_files(5) by (simp add: hdemo_needs_def d(1))
  then show ?thesis unfolding fresh_def DEP_store
    using hdemo_files(4) d(2,3) hdemo_artifact [OF src] E S(1,2) hdemo_needs_listed by blast
qed

lemma hdemo_offered: "offered demo_vd hdemo_needs DEP ESP hdemo_env local_source ''dd'' hdemo"
proof -
  have d: "tree_dest [''src'', ''objects''] OST ` set (walk_files hdemo [''src'', ''objects'']) = {OST @ object_path (''ef'' @ ZEROS)}"
    "case src_version local_source of Inr _ \<Rightarrow> True | Inl _ \<Rightarrow> False" "src_deploy_id local_source = Inr ''dd''"
    "src_digest local_source = Inr (JStr (demo_vd ''the image''))"
    by code_simp+
  have st: "staging local_source = [''src'']" by (simp add: local_source_def)
  have "OST @ object_path (''ef'' @ ZEROS) \<in> objects_of DEP local_source hdemo"
    using d(1) by (simp add: objects_of_def st DEP_store)
  moreover have "clock hdemo_env = clock full_env" by (simp add: hdemo_env_def full_env_def)
  ultimately have "fresh demo_vd hdemo_needs DEP ESP hdemo_env local_source ''dd'' hdemo"
    using hdemo_fresh [OF st d(3,4) hdemo_tools _ hdemo_supplies] local_meta by simp
  moreover obtain ver where "src_version local_source = Inr ver" using d(2) by (auto split: sum.splits)
  ultimately show ?thesis using d(3) by (simp add: offered_def hdemo_env_def)
qed

lemma hdemo_env_live [simp]: "\<not> dry_run hdemo_env"
  by (simp add: hdemo_env_def)

text \<open>An update, a rollback and a collection, one after the other.\<close>

definition hdemo_end :: fs where
  "hdemo_end = disk_after (gc DEP) hdemo_env (disk_after (rollback DEP ESP) hdemo_env
     (disk_after (deploy_source DEP ESP local_source) hdemo_env hdemo))"

lemma hdemo_runs: "runs (upkeep demo_vd hdemo_needs DEP ESP) [Updated ''dd'', RolledBack, Collected] hdemo hdemo_end"
  unfolding hdemo_end_def
  by (rule more, rule update [OF hdemo_offered], rule more, rule roll_back [OF hdemo_env_live],
      rule more, rule collect [OF hdemo_env_live], rule none)

end
