(* ===== verification/RegistryDemo.thy ===== *)
theory RegistryDemo
  imports HostDemo
begin

text \<open>
  The same host with an artifact whose objects are in a registry: the registry asks for a token,
  serves the index whole and the pack by ranges. It meets the contracts of the download.
\<close>

section \<open>The registry\<close>

definition reg_pack :: string where "reg_pack = ''efcd''"

definition reg_index :: "(string \<times> int \<times> int) list" where
  "reg_index = [(''ef'' @ ZEROS, 0, 2), (''cd'' @ ZEROS, 2, 2)]"

definition reg_index_text :: string where
  "reg_index_text = ''ef'' @ ZEROS @ '' 0 2'' @ [NL] @ ''cd'' @ ZEROS @ '' 2 2'' @ [NL]"

definition reg_challenge :: string where
  "reg_challenge = ''HTTP/1.1 401 Unauthorized'' @ [NL] @ ''www-authenticate: Bearer realm='' @ [CHR 0x22] @ ''https://auth/token''
     @ [CHR 0x22] @ '',service='' @ [CHR 0x22] @ ''reg'' @ [CHR 0x22] @ [NL]"

definition reg_token :: string where
  "reg_token = dumps (JObj [(''token'', JStr ''tk'')])"

definition reg_spans :: "(int \<times> int) list" where
  "reg_spans = [(0, 0), (0, 1), (0, 2), (0, 3), (1, 1), (1, 2), (1, 3), (2, 2), (2, 3), (3, 3)]"

definition range_field :: "int \<Rightarrow> int \<Rightarrow> string" where
  "range_field a b = ''Range: bytes='' @ show_int a @ ''-'' @ show_int b"

definition saved :: "path \<Rightarrow> string \<Rightarrow> fs \<Rightarrow> tool_result" where
  "saved p b f = \<lparr>t_rc = (case fst (write1 p b f) of Inl _ \<Rightarrow> 23 | Inr _ \<Rightarrow> 0), t_out = [], t_err = [], t_fs = snd (write1 p b f)\<rparr>"

definition reg_tool :: "string list \<Rightarrow> fs \<Rightarrow> tool_result" where
  "reg_tool cmd f = (if cmd = [] then hdemo_tool cmd f
     else if hd cmd = ''oras'' then saved (comps (last cmd)) reg_index_text f
     else if hd cmd \<noteq> ''curl'' then hdemo_tool cmd f
     else if cmd ! 1 = ''-fL'' then
       (case find (\<lambda>(a, b). cmd ! 7 = range_field a b) reg_spans of
          Some (a, b) \<Rightarrow> saved (comps (last (butlast cmd))) (pack_slice reg_pack a b) f
        | None \<Rightarrow> \<lparr>t_rc = 22, t_out = [], t_err = [], t_fs = []\<rparr>)
     else \<lparr>t_rc = 0, t_out = (if cmd ! 1 = ''-sS'' then reg_challenge else reg_token), t_err = [], t_fs = []\<rparr>)"

text \<open>A new name: longer than any on the disk.\<close>

definition name_room :: "fs \<Rightarrow> nat" where
  "name_room f = Suc (sum_list (map (\<lambda>(p, _). length (concat p)) (entries f)))"

definition reg_env :: env where
  "reg_env = demo_env\<lparr>tool := reg_tool, temp_name := (\<lambda>pre f. [''tmp'', pre @ replicate (name_room f) (CHR ''x'')])\<rparr>"

definition reg_source :: source where
  "reg_source = \<lparr>staging = [''src''], meta = JObj [(''deploy_id'', JStr ''dd''), (''composefs_digest'', JStr (demo_vd ''the image'')),
       (''objects_ref'', JStr ''reg/repo:tag''), (''objects_pack'', JObj [(''digest'', JStr ''sha256:pp'')]),
       (''objects_index'', JObj [(''digest'', JStr ''sha256:ii'')])],
     src_ref = Some ''reg/repo:2'', local_objects = None, cleanup_dir = None\<rparr>"

section \<open>It meets the contracts\<close>

lemma reg_spans_found:
  assumes "in_bounds (int (length reg_pack)) (a, b, [])"
  shows "find (\<lambda>(a', b'). range_field a b = range_field a' b') reg_spans = Some (a, b)"
proof -
  have f: "list_all (\<lambda>(a, b). find (\<lambda>(a', b'). range_field a b = range_field a' b') reg_spans = Some (a, b)) reg_spans"
    by code_simp
  have "0 \<le> a" "a \<le> b" "b < 4" using assms by (auto simp: in_bounds_def reg_pack_def)
  then have "a \<in> {0, 1, 2, 3}" "b \<in> {0, 1, 2, 3}" by auto
  then have "(a, b) \<in> set reg_spans" using \<open>a \<le> b\<close> by (auto simp: reg_spans_def)
  from bspec [OF f [unfolded list_all_iff] this] show ?thesis by (simp only: prod.case)
qed

lemma saved_downloads: "free_place p g \<Longrightarrow> t_rc (saved p b g) = 0 \<and> t_fs (saved p b g) = snd (write1 p b g)"
  using write1_new(1) [of p g b] by (simp add: saved_def)

lemma reg_serves: "serves reg_env t rg rp pd reg_pack auth"
  unfolding serves_def
proof (intro allI impI)
  fix p a b u assume p: "plain_path p" and ab: "in_bounds (int (length reg_pack)) (a, b, [])"
  let ?c = "range_cmd rg rp pd a b p auth u"
  have c: "?c \<noteq> []" "hd ?c = ''curl''" "?c ! 1 = ''-fL''" "?c ! 7 = range_field a b" "last (butlast ?c) = path_str p"
    by (simp_all add: range_cmd_def Let_def range_field_def butlast_append)
  have "reg_tool ?c f = saved p (pack_slice reg_pack a b) f" for f
    using c reg_spans_found [OF ab] comps_path_str [OF p] by (simp add: reg_tool_def)
  then show "downloads reg_env ?c p (pack_slice reg_pack a b)"
    using saved_downloads by (simp add: downloads_def reg_env_def demo_env_def)
qed

lemma reg_index_served:
  assumes "plain_path p"
  shows "downloads reg_env [''oras'', ''blob'', ''fetch'', x, ''--output'', path_str p] p reg_index_text"
proof -
  have "reg_tool [''oras'', ''blob'', ''fetch'', x, ''--output'', path_str p] f = saved p reg_index_text f" for f
    using comps_path_str [OF assms] by (simp add: reg_tool_def)
  then show ?thesis using saved_downloads by (simp add: downloads_def reg_env_def demo_env_def)
qed

lemma reg_authorized: "authorized reg_env ''reg/repo'' (Some ''Authorization: Bearer tk'')"
proof -
  let ?g = "the (bearer_search True (strip (univ_nl reg_challenge)))"
  have c: "bearer_search True (strip (univ_nl reg_challenge)) \<noteq> None" "map_of (rev (find_params ?g)) ''realm'' = Some ''https://auth/token''"
    "map_of (rev (find_params ?g)) ''service'' = Some ''reg''" "loads (strip (univ_nl reg_token)) = Some (JObj [(''token'', JStr ''tk'')])"
    by code_simp+
  then obtain g where g: "bearer_search True (strip (univ_nl reg_challenge)) = Some g" by auto
  have a1: "answers reg_env [''curl'', ''-sS'', ''-o'', ''/dev/null'', ''-D'', ''-'', x] reg_challenge" for x
    by (simp add: answers_def reg_env_def reg_tool_def demo_env_def)
  have a2: "answers reg_env [''curl'', ''-fsSL'', x] reg_token" for x
    by (simp add: answers_def reg_env_def reg_tool_def demo_env_def)
  have s: "CHR ''/'' \<in> set ''reg/repo''" by simp
  have m: "map_of (rev (find_params g)) ''realm'' = Some ''https://auth/token''" "map_of (rev (find_params g)) ''service'' = Some ''reg''"
    using c(2,3) g by simp_all
  show ?thesis unfolding authorized_def
    by (intro exI conjI, rule a1, simp only: g option.case, intro conjI exI, rule s, rule m(1), simp, rule m(2), rule a2, rule c(4)) auto
qed

lemma reg_published: "published reg_env t reg_source reg_index reg_pack"
proof -
  let ?im = "JObj [(''digest'', JStr ''sha256:ii'')]"
  have s: "src_objects_ref reg_source = Inr (JStr ''reg/repo:tag'')" "split1 (CHR ''/'') (ref_repo ''reg/repo:tag'') = [''reg'', ''repo'']"
    "src_objects_pack reg_source = Inr (JObj [(''digest'', JStr ''sha256:pp'')])" "src_objects_index reg_source = Inr ?im"
    "ref_repo ''reg/repo:tag'' = ''reg/repo''" "meta_item (JObj [(''digest'', JStr ''sha256:pp'')]) ''digest'' = Inr (JStr ''sha256:pp'')"
    "meta_item ?im ''digest'' = Inr (JStr ''sha256:ii'')" "meta_get ?im ''encoding'' = Inr None" "utf8_ok reg_index_text"
    "parse_index reg_index_text = Inr reg_index"
    by code_simp+
  have it: "index_text reg_env ?im reg_index_text reg_index" unfolding index_text_def using s(8-10) by auto
  have a: "authorized reg_env (ref_repo ''reg/repo:tag'') (Some ''Authorization: Bearer tk'')" unfolding s(5) by (rule reg_authorized)
  show ?thesis unfolding published_def
    by (intro exI conjI allI impI, rule s(1), simp, rule s(2), rule s(3), rule s(6), rule s(4), rule s(7), rule it, rule a, rule reg_serves,
        rule reg_index_served)
qed

lemma reg_described: "describes demo_vd reg_index reg_pack"
proof -
  have "list_all (\<lambda>(d, offs, len). 0 \<le> offs \<and> 1 \<le> len \<and> offs + len \<le> int (length reg_pack) \<and>
      demo_vd (take (nat len) (drop (nat offs) reg_pack)) = d) reg_index"
    by code_simp
  then show ?thesis by (auto simp: describes_def list_all_iff dest!: map_of_SomeD)
qed

lemma reg_temps: "tempdir [''tmp''] reg_env"
  unfolding tempdir_def
proof (intro conjI allI impI)
  show "plain_path [''tmp'']" by (simp add: plain_path_def plain_name_def)
  fix pre g assume pre: "plain_name pre"
  let ?nm = "pre @ replicate (name_room g) (CHR ''x'')"
  have "last ?nm = CHR ''x''" by (simp add: name_room_def)
  then have "plain_name ?nm" using pre by (auto simp: plain_name_def)
  moreover have "lookup g ([''tmp''] @ [?nm]) = None"
  proof (cases "lookup g ([''tmp''] @ [?nm])")
    case (Some n)
    then have "([''tmp'', ?nm], n) \<in> set (entries g)" by (auto simp: lookup_def dest: map_of_SomeD)
    then have "length (concat [''tmp'', ?nm]) \<in> set (map (\<lambda>(p, _). length (concat p)) (entries g))" by force
    from member_le_sum_list [OF this] show ?thesis by (simp add: name_room_def)
  qed
  ultimately show "\<exists>nm. temp_name reg_env pre g = [''tmp''] @ [nm] \<and> plain_name nm \<and> lookup g ([''tmp''] @ [nm]) = None"
    by (simp add: reg_env_def)
qed

lemma reg_landing: "landing_env demo_vd reg_env OST"
proof -
  have "reg_tool [''fsverity'', v, p] f = demo_tool [''fsverity'', v, p] f" for v p f by (simp add: reg_tool_def hdemo_tool_def)
  then have "fsverity_tool demo_vd reg_env"
    using demo_fsverity by (simp add: fsverity_tool_def reg_env_def demo_env_def)
  then show ?thesis
    by (simp add: landing_env_def) (simp add: reg_env_def demo_env_def plain_path_def OST_def plain_name_def)
qed

lemma reg_fetches: "fetch_env demo_vd reg_env OST"
  unfolding fetch_env_def using reg_landing by (auto simp: pool_runs_def reg_env_def demo_env_def)

lemma reg_tools: "deploy_env demo_vd reg_env DEP ''the image'' (hdemo_ls ''the image'')"
proof -
  have h: "g \<in> set (t_fs (hdemo_tool cmd f)) \<Longrightarrow> wf_fs f \<Longrightarrow> wf_fs g" for cmd f g
    using hdemo_tools by (auto simp: deploy_env_def tools_keep_def hdemo_env_def)
  have "wf_fs g" if "g \<in> set (t_fs (reg_tool cmd f))" "wf_fs f" for cmd f g
    using that h [of g cmd f] wf_write1 [of f g]
    by (auto simp: reg_tool_def saved_def split: if_splits option.splits prod.splits)
  then have "tools_keep wf_fs reg_env" by (simp add: tools_keep_def reg_env_def)
  moreover have "tool reg_env [''composefs-info'', ''dump'', path_str rc] g
      = \<lparr>t_rc = 0, t_out = hdemo_ls ''the image'', t_err = [], t_fs = []\<rparr>"
    if "plain_path rc" "cat g rc = Some ''the image''" for rc g
    using that by (simp add: reg_env_def reg_tool_def hdemo_tool_def comps_path_str [OF that(1)])
  ultimately show ?thesis using reg_landing
    by (simp add: deploy_env_def DEP_store) (simp add: reg_env_def demo_env_def)
qed

section \<open>The artifact\<close>

lemma reg_supplies:
  "supplies demo_vd reg_env DEP reg_source (hdemo_ls ''the image'') (new_below [''tmp''] hdemo) (packed OST reg_index (hdemo_ls ''the image'')) hdemo"
proof -
  have "lookup hdemo [''tmp''] = Some Dir" "separate DEP [''tmp'']" "plain_path [''src'']" by code_simp+
  then show ?thesis unfolding supplies_def
    using reg_fetches reg_temps reg_published reg_described by (auto simp: reg_source_def DEP_store)
qed

lemma reg_store:
  "sound_store demo_vd OST hdemo" "lookup hdemo [''tmp''] = Some Dir" "clear_of OST [''tmp'']" "\<not> prefix OST (src_root_cfs reg_source)"
proof -
  show "sound_store demo_vd OST hdemo"
    using fit_check [OF demo_separate hdemo_checks(1)] by (simp add: fit_def clean_store_def DEP_store)
  show "lookup hdemo [''tmp''] = Some Dir" "clear_of OST [''tmp'']" "\<not> prefix OST (src_root_cfs reg_source)" by code_simp+
qed

lemma reg_dump: "dump_tool reg_env (src_root_cfs reg_source) (hdemo_ls ''the image'') hdemo"
proof -
  have "cat hdemo (src_root_cfs reg_source) = Some ''the image''" "list_all plain_name (src_root_cfs reg_source)" by code_simp+
  then show ?thesis using reg_tools by (simp add: dump_tool_def deploy_env_def plain_path_def list_all_iff)
qed

lemma reg_packed: "OST @ object_path (''ef'' @ ZEROS) \<in> packed OST reg_index (hdemo_ls ''the image'')"
proof -
  have "digests_in (hdemo_ls ''the image'') = [''ef'' @ ZEROS, ''ab'' @ ZEROS, ''12'' @ ZEROS]" "map_of reg_index (''ef'' @ ZEROS) \<noteq> None"
    by code_simp+
  then show ?thesis by (auto simp: packed_def digests_of_def digests_in_def [symmetric])
qed

lemma reg_offered: "offered demo_vd hdemo_needs DEP ESP reg_env reg_source ''dd'' hdemo"
proof -
  have st: "staging reg_source = [''src'']" by (simp add: reg_source_def)
  have d: "src_deploy_id reg_source = Inr ''dd''" "src_digest reg_source = Inr (JStr (demo_vd ''the image''))"
    "case src_version reg_source of Inr _ \<Rightarrow> True | Inl _ \<Rightarrow> False" "case build_meta reg_source (clock reg_env) of Inr _ \<Rightarrow> True | Inl _ \<Rightarrow> False"
    by code_simp+
  obtain m where m: "build_meta reg_source (clock reg_env) = Inr m" using d(4) by (auto split: sum.splits)
  note reg_packed
  moreover have "\<forall>q \<in> new_below [''tmp''] hdemo. \<not> prefix ESP q" by (auto simp: new_below_def ESP_def prefix_def)
  ultimately have "fresh demo_vd hdemo_needs DEP ESP reg_env reg_source ''dd'' hdemo"
    using hdemo_fresh [OF st d(1,2) reg_tools m reg_supplies] by blast
  moreover obtain ver where "src_version reg_source = Inr ver" using d(3) by (auto split: sum.splits)
  ultimately show ?thesis using d(1) by (simp add: offered_def reg_env_def)
qed

end
