(* ===== verification/IndexText.thy ===== *)
theory IndexText
  imports VerifyPack
begin

text \<open>
  The text of the pack index, as the build writes it: a line per object with its digest,
  offset and length. The client and the build's gate read the same table from it.
\<close>

definition index_line :: "string \<times> int \<times> int \<Rightarrow> string" where
  "index_line x = (case x of (d, offs, len) \<Rightarrow> d @ '' '' @ show_int offs @ '' '' @ show_int len)"

definition index_text :: "(string \<times> int \<times> int) list \<Rightarrow> string" where
  "index_text es = concat (map (\<lambda>x. index_line x @ [NL]) es)"

definition index_entry :: "string \<times> int \<times> int \<Rightarrow> bool" where
  "index_entry x = (case x of (d, offs, len) \<Rightarrow> is_digest d \<and> 0 \<le> offs \<and> 0 \<le> len)"

text \<open>Characters of an index line other than the blanks between its words.\<close>

lemma word_chars:
  "is_digest d \<Longrightarrow> c \<in> set d \<Longrightarrow> \<not> is_space c \<and> \<not> is_linebreak c"
  "0 \<le> i \<Longrightarrow> c \<in> set (show_int i) \<Longrightarrow> \<not> is_space c \<and> \<not> is_linebreak c"
proof -
  show "\<not> is_space c \<and> \<not> is_linebreak c" if "is_digest d" "c \<in> set d"
    using that by (auto simp: is_digest_def list_all_iff is_hex_def is_space_def is_linebreak_def)
  show "\<not> is_space c \<and> \<not> is_linebreak c" if "0 \<le> i" "c \<in> set (show_int i)"
    using that show_nat_digits [of c "nat i"] by (auto simp: show_int_def is_digit_def is_space_def is_linebreak_def)
qed

lemma parse_index_line_show:
  assumes "index_entry x"
  shows "parse_index_line (index_line x) = Inr x"
proof -
  obtain d offs len where x: "x = (d, offs, len)" by (cases x)
  have a: "is_digest d" "0 \<le> offs" "0 \<le> len" using assms by (auto simp: index_entry_def x)
  have d: "d \<noteq> []" using a(1) by (auto simp: is_digest_def)
  have n: "show_int i = show_nat (nat i)" "show_int i \<noteq> []" if "0 \<le> i" for i using that by (auto simp: show_int_def)
  have sp: "is_space (CHR '' '')" by (simp add: is_space_def code_def)
  have "split_ws (index_line x) = d # split_ws ('' '' @ show_int offs @ '' '' @ show_int len)"
    unfolding index_line_def x prod.case
    by (rule split_ws_word) (use d word_chars(1) [OF a(1)] sp in auto)
  also have "split_ws ('' '' @ show_int offs @ '' '' @ show_int len) = split_ws (show_int offs @ '' '' @ show_int len)"
    using sp by simp
  also have "\<dots> = show_int offs # split_ws ('' '' @ show_int len)"
    by (rule split_ws_word) (use n(2) [OF a(2)] word_chars(2) [OF a(2)] sp in auto)
  also have "split_ws ('' '' @ show_int len) = split_ws (show_int len @ [])" using sp by simp
  also have "\<dots> = [show_int len]"
    by (subst split_ws_word) (use n(2) [OF a(3)] word_chars(2) [OF a(3)] in auto)
  finally show ?thesis using a n(1) by (simp add: parse_index_line_def x py_int_show_nat)
qed

lemma index_line_chars:
  assumes "index_entry x"
  shows "c \<in> set (index_line x) \<Longrightarrow> \<not> is_linebreak c" "index_line x \<noteq> []" "strip (index_line x) = index_line x"
proof -
  obtain d offs len where x: "x = (d, offs, len)" by (cases x)
  have a: "is_digest d" "0 \<le> offs" "0 \<le> len" using assms by (auto simp: index_entry_def x)
  have "\<not> is_linebreak (CHR '' '')" by (simp add: is_linebreak_def code_def)
  then show "c \<in> set (index_line x) \<Longrightarrow> \<not> is_linebreak c"
    using word_chars(1) [OF a(1)] word_chars(2) [OF a(2)] word_chars(2) [OF a(3)] by (auto simp: index_line_def x)
  have d: "d \<noteq> []" "show_int len \<noteq> []" using a by (auto simp: is_digest_def show_int_def)
  then show "index_line x \<noteq> []" by (simp add: index_line_def x)
  have "\<not> is_space (hd d)" "\<not> is_space (last (show_int len))"
    using d word_chars(1) [OF a(1)] word_chars(2) [OF a(3)] by simp_all
  then show "strip (index_line x) = index_line x"
    using d by (intro strip_id) (simp add: index_line_def x)
qed

lemma breaks: "is_linebreak NL" "is_linebreak CR"
  by (simp_all add: is_linebreak_def code_def)

lemma splitlines_lines:
  assumes "\<forall>l \<in> set ls. \<forall>c \<in> set l. \<not> is_linebreak c"
  shows "splitlines (concat (map (\<lambda>l. l @ [NL]) ls)) = ls"
  using assms
proof (induction ls)
  case (Cons l ls)
  let ?t = "concat (map (\<lambda>l. l @ [NL]) ls)"
  have l: "\<forall>c \<in> set l. \<not> is_linebreak c" using Cons.prems by simp
  have tw: "takeWhile (\<lambda>x. \<not> is_linebreak x) (l @ NL # ?t) = l" "dropWhile (\<lambda>x. \<not> is_linebreak x) (l @ NL # ?t) = NL # ?t"
    using l breaks by (auto intro: takeWhile_app_stop dropWhile_app_stop)
  obtain c r where cr: "l @ NL # ?t = c # r" by (cases l) auto
  have "splitlines (l @ NL # ?t) = l # splitlines ?t"
    using tw unfolding cr splitlines.simps(2) by (simp add: Let_def)
  then show ?case using Cons by simp
qed simp

lemma split_on_lines:
  assumes "\<forall>l \<in> set ls. NL \<notin> set l"
  shows "split_on NL (concat (map (\<lambda>l. l @ [NL]) ls)) = ls @ [[]]"
  using assms by (induction ls) (simp_all add: split_on_app)

text \<open>The table the client keeps.\<close>

lemma update_new: "k \<notin> fst ` set al \<Longrightarrow> AList.update k v al = al @ [(k, v)]"
  by (induction al) auto

lemma parse_lines_show:
  "\<forall>x \<in> set es. index_entry x \<Longrightarrow> distinct (map fst (acc @ es)) \<Longrightarrow>
   parse_index_lines (map index_line es) acc = Inr (acc @ es)"
proof (induction es arbitrary: acc)
  case (Cons x es)
  obtain d v where x: "x = (d, v)" by (cases x)
  have "parse_index_line (index_line x) = Inr (d, v)" "index_line x \<noteq> []"
    using Cons.prems(1) parse_index_line_show [of x] index_line_chars(2) [of x] x by auto
  moreover have "AList.update d v acc = acc @ [(d, v)]" using Cons.prems(2) x by (intro update_new) auto
  ultimately show ?case using Cons.IH [of "acc @ [(d, v)]"] Cons.prems x by simp
qed simp

lemma vp_lines_show:
  "\<forall>x \<in> set es. index_entry x \<Longrightarrow> vp_lines (map index_line es @ [[]]) = Inr es"
proof (induction es)
  case Nil
  then show ?case by (simp add: strip_def)
next
  case (Cons x es)
  then show ?case using parse_index_line_show [of x] index_line_chars(2,3) [of x] by simp
qed

lemma index_text_lines:
  assumes "\<forall>x \<in> set es. index_entry x"
  shows "splitlines (index_text es) = map index_line es"
    "split_on NL (univ_nl (index_text es)) = map index_line es @ [[]]"
proof -
  have t: "index_text es = concat (map (\<lambda>l. l @ [NL]) (map index_line es))"
    by (simp add: index_text_def o_def)
  have l: "\<forall>l \<in> set (map index_line es). \<forall>c \<in> set l. \<not> is_linebreak c"
    using assms index_line_chars(1) by auto
  then show "splitlines (index_text es) = map index_line es" unfolding t by (rule splitlines_lines)
  have "CR \<notin> set (index_text es)" "\<forall>l \<in> set (map index_line es). NL \<notin> set l"
    using l breaks unfolding t by auto
  then show "split_on NL (univ_nl (index_text es)) = map index_line es @ [[]]"
    using split_on_lines [of "map index_line es"] univ_nl_id [of "index_text es"] t by simp
qed

end
