(* ===== verification/ArgParse.thy ===== *)
theory ArgParse
  imports PyStr
begin

text \<open>
  What the sources use of the standard library's \<open>argparse\<close> (as of Python 3.13): options with
  abbreviations, \<open>--name=value\<close>, joined short flags, \<open>--\<close>, required and optional positional
  arguments. A parser is the table of its option strings and the list of its positionals, over
  the namespace they set. Every way of not returning a namespace is one of two exits, the help
  (status 0) and a usage error (status 2).
\<close>

section \<open>Parsers\<close>

datatype 'a action =
    Flag "'a \<Rightarrow> 'a"
  | Value "string \<Rightarrow> 'a \<Rightarrow> 'a"
  | ShowHelp

type_synonym 'a opts = "(string \<times> 'a action) list"

datatype arity = One | Opt

type_synonym 'a posns = "(arity \<times> (string \<Rightarrow> 'a \<Rightarrow> 'a)) list"

datatype parse_exit = HelpExit | UsageExit

section \<open>Classifying the arguments\<close>

text \<open>What an argument that starts with a dash may stand for: the option's name, what it does, and
  the separator and value that are joined to it.\<close>

type_synonym 'a reading = "string \<times> 'a action \<times> (string \<times> string) option"

datatype 'a token =
    Arg string
  | Dashes
  | OptTok string "'a reading list"

text \<open>\<open>s.partition('=')\<close>\<close>

fun partition_eq :: "string \<Rightarrow> string \<times> (string \<times> string) option" where
  "partition_eq [] = ([], None)"
| "partition_eq (c # s) = (if c = CHR ''='' then ([], Some (''='', s)) else
     let (a, r) = partition_eq s in (c # a, r))"

text \<open>\<open>_get_option_tuples\<close>: the abbreviations of long options, and flags with something joined.\<close>

definition option_tuples :: "'a opts \<Rightarrow> string \<Rightarrow> 'a reading list" where
  "option_tuples os s = (let (pre, ex) = partition_eq s in
     if take 2 s = ''--'' then [(n, a, ex). (n, a) \<leftarrow> os, startswith n pre]
     else concat (map (\<lambda>(n, a). if n = take 2 s then [(n, a, Some ([], drop 2 s))]
       else if startswith n pre then [(n, a, ex)] else []) os))"

text \<open>\<open>_negative_number_matcher\<close>: \<open>-\d+\<close> or \<open>-\d*.\d+\<close>\<close>

definition negative_number :: "string \<Rightarrow> bool" where
  "negative_number s = (case s of c # t \<Rightarrow> c = CHR ''-'' \<and>
     (case dropWhile is_digit t of [] \<Rightarrow> t \<noteq> [] | d # u \<Rightarrow> d = CHR ''.'' \<and> u \<noteq> [] \<and> list_all is_digit u) | [] \<Rightarrow> False)"

text \<open>\<open>_parse_optional\<close>, for a parser none of whose options looks like a negative number.\<close>

definition parse_optional :: "'a opts \<Rightarrow> string \<Rightarrow> 'a token" where
  "parse_optional os s =
     (if s = [] \<or> hd s \<noteq> CHR ''-'' then Arg s
      else case map_of os s of Some a \<Rightarrow> OptTok s [(s, a, None)]
      | None \<Rightarrow>
        if length s = 1 then Arg s
        else case (case partition_eq s of (n, Some ex) \<Rightarrow> map_option (\<lambda>a. (n, a, Some ex)) (map_of os n) | _ \<Rightarrow> None) of
          Some r \<Rightarrow> OptTok s [r]
        | None \<Rightarrow>
          if option_tuples os s \<noteq> [] then OptTok s (option_tuples os s)
          else if negative_number s \<or> CHR '' '' \<in> set s then Arg s
          else OptTok s [])"

fun classify :: "'a opts \<Rightarrow> string list \<Rightarrow> 'a token list" where
  "classify os [] = []"
| "classify os (s # ss) = (if s = ''--'' then Dashes # map Arg ss else parse_optional os s # classify os ss)"

fun is_opt :: "'a token \<Rightarrow> bool" where
  "is_opt (OptTok _ _) = True"
| "is_opt _ = False"

section \<open>Options\<close>

text \<open>The actions of one argument run in order when all of them are known.\<close>

fun run_actions :: "('a \<Rightarrow> parse_exit + 'a) list \<Rightarrow> 'a \<Rightarrow> parse_exit + 'a" where
  "run_actions [] ns = Inr ns"
| "run_actions (u # us) ns = (case u ns of Inl x \<Rightarrow> Inl x | Inr ns' \<Rightarrow> run_actions us ns')"

fun flag_action :: "'a action \<Rightarrow> 'a \<Rightarrow> parse_exit + 'a" where
  "flag_action (Flag u) ns = Inr (u ns)"
| "flag_action _ ns = Inl HelpExit"

text \<open>\<open>consume_optional\<close> for an option with something joined to it: a value, or flags one letter
  each (\<open>us\<close> are the ones read so far). The boolean tells that an unknown letter is left over.\<close>

function joined :: "'a opts \<Rightarrow> ('a \<Rightarrow> parse_exit + 'a) list \<Rightarrow> string \<Rightarrow> 'a action \<Rightarrow> string \<Rightarrow> string \<Rightarrow>
    parse_exit + (('a \<Rightarrow> parse_exit + 'a) list \<times> ('a action) option \<times> bool)" where
  "joined os us n a sep x = (case a of
     Value u \<Rightarrow> Inr (us @ [\<lambda>ns. Inr (u x ns)], None, False)
   | _ \<Rightarrow>
     if startswith n ''--'' \<or> x = [] \<or> sep \<noteq> [] \<or> hd x = CHR ''-'' then Inl UsageExit
     else let us' = us @ [flag_action a]; n' = [CHR ''-'', hd x] in
       case map_of os n' of
         None \<Rightarrow> Inr (us', None, True)
       | Some b \<Rightarrow> (case tl x of
           [] \<Rightarrow> Inr (us', Some b, False)
         | c # y \<Rightarrow> if c = CHR ''='' then joined os us' n' b ''='' y else joined os us' n' b [] (c # y)))"
  by pat_completeness auto

termination
  by (relation "measure (\<lambda>(_, _, _, _, _, x). length x)") (auto simp: neq_Nil_conv)

text \<open>An option with nothing joined takes the argument after it.\<close>

fun plain_option :: "('a \<Rightarrow> parse_exit + 'a) list \<Rightarrow> 'a action \<Rightarrow> 'a token list \<Rightarrow> 'a \<Rightarrow> parse_exit + ('a \<times> 'a token list)" where
  "plain_option us (Value u) (Arg s # ts) ns = map_sum id (\<lambda>ns'. (ns', ts)) (run_actions (us @ [\<lambda>ns. Inr (u s ns)]) ns)"
| "plain_option us (Value u) ts ns = Inl UsageExit"
| "plain_option us a ts ns = map_sum id (\<lambda>ns'. (ns', ts)) (run_actions (us @ [flag_action a]) ns)"

definition consume_optional :: "'a opts \<Rightarrow> 'a reading list \<Rightarrow> 'a token list \<Rightarrow> 'a \<Rightarrow> parse_exit + ('a \<times> 'a token list \<times> bool)" where
  "consume_optional os rs ts ns = (case rs of
     [] \<Rightarrow> Inr (ns, ts, True)
   | [(n, a, None)] \<Rightarrow> map_sum id (\<lambda>(ns', ts'). (ns', ts', False)) (plain_option [] a ts ns)
   | [(n, a, Some (sep, x))] \<Rightarrow> (case joined os [] n a sep x of
       Inl e \<Rightarrow> Inl e
     | Inr (us, Some a', _) \<Rightarrow> map_sum id (\<lambda>(ns', ts'). (ns', ts', False)) (plain_option us a' ts ns)
     | Inr (us, None, ex) \<Rightarrow> map_sum id (\<lambda>ns'. (ns', ts, ex)) (run_actions us ns))
   | _ \<Rightarrow> Inl UsageExit)"

section \<open>Positional arguments\<close>

fun skip_dashes :: "'a token list \<Rightarrow> 'a token list" where
  "skip_dashes (Dashes # ts) = skip_dashes ts"
| "skip_dashes ts = ts"

fun match_posn :: "arity \<Rightarrow> 'a token list \<Rightarrow> (string option \<times> 'a token list) option" where
  "match_posn k ts = (case skip_dashes ts of
     Arg s # r \<Rightarrow> Some (Some s, skip_dashes r)
   | r \<Rightarrow> (case k of One \<Rightarrow> None | Opt \<Rightarrow> Some (None, r)))"

text \<open>\<open>_match_arguments_partial\<close>: as many positionals as match, with what each takes and the number
  of arguments it takes it from.\<close>

fun match_partial :: "'a posns \<Rightarrow> 'a token list \<Rightarrow> ((string \<Rightarrow> 'a \<Rightarrow> 'a) \<times> string option \<times> nat) list \<times> 'a token list" where
  "match_partial [] ts = ([], ts)"
| "match_partial ((k, u) # ps) ts = (case match_posn k ts of
     None \<Rightarrow> ([], ts)
   | Some (v, r) \<Rightarrow> let (ms, r') = match_partial ps r in ((u, v, length ts - length r) # ms, r'))"

text \<open>\<open>consume_positionals\<close>: a positional that takes nothing waits while options follow.\<close>

definition consume_positionals :: "'a posns \<Rightarrow> 'a token list \<Rightarrow> 'a \<Rightarrow> 'a \<times> 'a posns \<times> 'a token list" where
  "consume_positionals ps ts ns = (let (ms, r) = match_partial ps ts;
     ms' = (case r of OptTok _ _ # _ \<Rightarrow> rev (dropWhile (\<lambda>(_, _, k). k = 0) (rev ms)) | _ \<Rightarrow> ms) in
     (fold (\<lambda>(u, v, _) ns. case v of Some s \<Rightarrow> u s ns | None \<Rightarrow> ns) ms' ns, drop (length ms') ps, r))"

section \<open>Parsing\<close>

text \<open>Options and positionals in the order they come; the result has the namespace, the
  positionals not seen, and whether anything was not recognized.\<close>

lemma plain_option_rest: "plain_option us a ts ns = Inr (ns', ts') \<Longrightarrow> length ts' \<le> length ts"
  by (induction us a ts ns rule: plain_option.induct) (auto split: sum.splits simp: map_sum_def)

lemma consume_optional_rest: "consume_optional os rs ts ns = Inr (ns', ts', ex) \<Longrightarrow> length ts' \<le> length ts"
  by (auto simp: consume_optional_def map_sum_def split: list.splits option.splits sum.splits prod.splits
      dest: plain_option_rest)

lemma skip_to_opt: "ts \<noteq> [] \<Longrightarrow> \<not> is_opt (hd ts) \<Longrightarrow> length (dropWhile (\<lambda>t. \<not> is_opt t) ts) < length ts"
  by (cases ts) (auto simp: le_imp_less_Suc length_dropWhile_le)

function parse_loop :: "'a opts \<Rightarrow> 'a token list \<Rightarrow> 'a posns \<Rightarrow> bool \<Rightarrow> 'a \<Rightarrow> parse_exit + ('a \<times> 'a posns \<times> bool)" where
  "parse_loop os ts ps ex ns =
     (if list_all (\<lambda>t. \<not> is_opt t) ts then
        let (ns', ps', r) = consume_positionals ps ts ns in Inr (ns', ps', ex \<or> r \<noteq> [])
      else case ts of
        OptTok s rs # r \<Rightarrow> (case consume_optional os rs r ns of
          Inl e \<Rightarrow> Inl e
        | Inr (ns', r', ex') \<Rightarrow> parse_loop os r' ps (ex \<or> ex') ns')
      | _ \<Rightarrow> let (ns', ps', r) = consume_positionals ps ts ns in
          if length r < length ts then parse_loop os r ps' ex ns'
          else parse_loop os (dropWhile (\<lambda>t. \<not> is_opt t) ts) ps' True ns')"
  by pat_completeness auto

termination
  by (relation "measure (\<lambda>(_, ts, _). length ts)")
    (auto dest: consume_optional_rest simp: le_imp_less_Suc length_dropWhile_le)

text \<open>\<open>parse_known_args\<close>: a required positional that was not seen is an error.\<close>

definition parse_known :: "'a opts \<Rightarrow> 'a posns \<Rightarrow> string list \<Rightarrow> 'a \<Rightarrow> parse_exit + ('a \<times> bool)" where
  "parse_known os ps argv ns = (case parse_loop os (classify os argv) ps False ns of
     Inl e \<Rightarrow> Inl e
   | Inr (ns', ps', ex) \<Rightarrow> if One \<in> fst ` set ps' then Inl UsageExit else Inr (ns', ex))"

text \<open>A parser whose one positional is the name of a command (\<open>add_subparsers\<close>): the rest of the
  arguments is the command's. Here only the help is an option.\<close>

definition help_opts :: "'a opts" where
  "help_opts = [(''-h'', ShowHelp), (''--help'', ShowHelp)]"

fun finish :: "bool \<Rightarrow> parse_exit + ('a \<times> bool) \<Rightarrow> parse_exit + 'a" where
  "finish ex (Inl x) = Inl x"
| "finish ex (Inr (ns, ex')) = (if ex \<or> ex' then Inl UsageExit else Inr ns)"

fun top_loop :: "string list \<Rightarrow> bool \<Rightarrow> (string \<Rightarrow> string list \<Rightarrow> parse_exit + ('a \<times> bool)) \<Rightarrow> parse_exit + 'a" where
  "top_loop [] ex sub = Inl UsageExit"
| "top_loop (s # ss) ex sub =
     (if s = ''--'' then (case ss of [] \<Rightarrow> Inl UsageExit | c # r \<Rightarrow> finish ex (sub c r))
      else case parse_optional (help_opts :: unit opts) s of
        OptTok _ rs \<Rightarrow> (case consume_optional help_opts rs [] () of
          Inl x \<Rightarrow> Inl x
        | Inr _ \<Rightarrow> top_loop ss True sub)
      | _ \<Rightarrow> finish ex (sub s ss))"

lemma finish_Inr: "finish ex r = Inr a \<longleftrightarrow> \<not> ex \<and> r = Inr (a, False)"
  by (cases "(ex, r)" rule: finish.cases) auto

lemma top_loop_parsed: "top_loop argv ex sub = Inr a \<Longrightarrow> \<exists>c r. sub c r = Inr (a, False)"
proof (induction argv arbitrary: ex)
  case (Cons s ss)
  show ?case
  proof (cases "s = ''--''")
    case True
    then show ?thesis using Cons.prems by (auto simp: finish_Inr split: list.splits)
  next
    case False
    then show ?thesis using Cons.prems Cons.IH [of True]
      by (cases "parse_optional (help_opts :: unit opts) s") (auto simp: finish_Inr split: sum.splits)
  qed
qed simp

section \<open>Reasoning about a parser\<close>

declare parse_loop.simps [simp del]

lemma skip_dashes_suffix: "suffix (skip_dashes ts) ts"
  by (induction ts rule: skip_dashes.induct) (auto intro: suffix_ConsI)

lemma match_posn_cases:
  assumes "match_posn k ts = Some (v, r)"
  obtains (arg) s u where "skip_dashes ts = Arg s # u" "v = Some s" "r = skip_dashes u"
  | (none) "k = Opt" "v = None" "r = skip_dashes ts"
  using assms by (cases "skip_dashes ts"; cases "hd (skip_dashes ts)"; cases k) (auto simp: that)

declare match_posn.simps [simp del]

lemma match_posn_suffix:
  assumes "match_posn k ts = Some (v, r)"
  shows "suffix r ts"
  using assms
proof (cases rule: match_posn_cases)
  case (arg s u)
  then show ?thesis using skip_dashes_suffix [of ts] skip_dashes_suffix [of u]
    by (auto dest: suffix_ConsD intro: suffix_order.trans)
qed (use skip_dashes_suffix in blast)

lemma match_partial_suffix: "match_partial ps ts = (ms, r) \<Longrightarrow> suffix r ts"
proof (induction ps ts arbitrary: ms r rule: match_partial.induct)
  case (2 k u ps ts)
  show ?case
  proof (cases "match_posn k ts")
    case (Some y)
    then obtain v r1 where y: "match_posn k ts = Some (v, r1)" by (cases y) auto
    obtain ms1 r2 where m: "match_partial ps r1 = (ms1, r2)" by fastforce
    then have "r = r2" using 2(2) y by simp
    then show ?thesis using 2(1) [OF y refl m] match_posn_suffix [OF y] by (auto intro: suffix_order.trans)
  qed (use 2(2) in simp)
qed auto

lemma consume_positionals_suffix: "consume_positionals ps ts ns = (ns', ps', r) \<Longrightarrow> suffix r ts"
  by (auto simp: consume_positionals_def Let_def split: prod.splits dest: match_partial_suffix)

text \<open>A positional argument takes no option.\<close>

lemma skip_dashes_opts: "t \<in> set ts \<Longrightarrow> is_opt t \<Longrightarrow> t \<in> set (skip_dashes ts)"
  by (induction ts rule: skip_dashes.induct) auto

lemma match_posn_opts:
  assumes "match_posn k ts = Some (v, r)" "t \<in> set ts" "is_opt t"
  shows "t \<in> set r"
  using assms(1)
proof (cases rule: match_posn_cases)
  case (arg s u)
  then have "t \<in> set u" using skip_dashes_opts [OF assms(2,3)] assms(3) by auto
  then show ?thesis using skip_dashes_opts assms(3) arg(3) by blast
qed (use skip_dashes_opts assms(2,3) in blast)

lemma match_partial_opts: "match_partial ps ts = (ms, r) \<Longrightarrow> t \<in> set ts \<Longrightarrow> is_opt t \<Longrightarrow> t \<in> set r"
proof (induction ps ts arbitrary: ms r rule: match_partial.induct)
  case (2 k u ps ts)
  show ?case
  proof (cases "match_posn k ts")
    case (Some y)
    then obtain v r1 where y: "match_posn k ts = Some (v, r1)" by (cases y) auto
    obtain ms1 r2 where m: "match_partial ps r1 = (ms1, r2)" by fastforce
    then have "r = r2" using 2(2) y by simp
    then show ?thesis using 2(1) [OF y refl m match_posn_opts [OF y 2(3,4)] 2(4)] by simp
  qed (use 2(2-) in simp)
qed auto

lemma consume_positionals_opts:
  "consume_positionals ps ts ns = (ns', ps', r) \<Longrightarrow> t \<in> set ts \<Longrightarrow> is_opt t \<Longrightarrow> t \<in> set r"
  by (auto simp: consume_positionals_def Let_def split: prod.splits dest: match_partial_opts)

text \<open>What the steps of the loop preserve holds when it ends, and then no option is left.\<close>

lemma parse_loop_rule:
  assumes "J ts ps ns" "parse_loop os ts ps ex ns = Inr (ns', ps', ex')"
    and option: "\<And>s rs r ps ns ns1 r1 x. J (OptTok s rs # r) ps ns \<Longrightarrow> consume_optional os rs r ns = Inr (ns1, r1, x) \<Longrightarrow> J r1 ps ns1"
    and posn: "\<And>ts ps ns ns1 ps1 r. J ts ps ns \<Longrightarrow> consume_positionals ps ts ns = (ns1, ps1, r) \<Longrightarrow> J r ps1 ns1"
    and skip: "\<And>ts ps ns. J ts ps ns \<Longrightarrow> J (dropWhile (\<lambda>t. \<not> is_opt t) ts) ps ns"
  shows "\<exists>r. J r ps' ns' \<and> list_all (\<lambda>t. \<not> is_opt t) r"
  using assms(1,2)
proof (induction "length ts" arbitrary: ts ps ex ns rule: less_induct)
  case (less ts ps ex ns)
  obtain ns1 ps1 r where c: "consume_positionals ps ts ns = (ns1, ps1, r)" by (cases "consume_positionals ps ts ns")
  note J1 = posn [OF less.prems(1) c]
  show ?case
  proof (cases "list_all (\<lambda>t. \<not> is_opt t) ts")
    case True
    then have "ns' = ns1" "ps' = ps1" using less.prems(2) c by (simp_all add: parse_loop.simps [of os ts])
    then show ?thesis using J1 consume_positionals_suffix [OF c] True by (auto simp: list_all_iff dest: set_mono_suffix)
  next
    case some: False
    then obtain v u where ts: "ts = v # u" by (cases ts) auto
    show ?thesis
    proof (cases "is_opt v")
      case True
      then obtain s rs where v: "v = OptTok s rs" by (cases v) auto
      then obtain ns2 u2 x where o: "consume_optional os rs u ns = Inr (ns2, u2, x)"
          and rest: "parse_loop os u2 ps (ex \<or> x) ns2 = Inr (ns', ps', ex')"
        using less.prems(2) ts by (auto simp: parse_loop.simps [of os "OptTok s rs # u"] split: sum.splits)
      show ?thesis
        by (rule less.hyps [OF _ option [OF _ o] rest])
          (use less.prems(1) ts v consume_optional_rest [OF o] in auto)
    next
      case False
      then have "parse_loop os ts ps ex ns = (if length r < length ts then parse_loop os r ps1 ex ns1
          else parse_loop os (dropWhile (\<lambda>t. \<not> is_opt t) ts) ps1 True ns1)"
        using some ts c by (cases v) (auto simp: parse_loop.simps [of os "v # u" for v u])
      moreover have "length (dropWhile (\<lambda>t. \<not> is_opt t) ts) < length ts"
        by (rule skip_to_opt) (use ts False in auto)
      moreover have "r = ts" if "\<not> length r < length ts"
        using consume_positionals_suffix [OF c] that suffix_length_le by (auto simp: suffix_def)
      ultimately show ?thesis
        using less.hyps [OF _ J1] less.hyps [OF _ skip [OF J1]] less.prems(2) by (auto split: if_splits)
    qed
  qed
qed

text \<open>One option at the front of the command line.\<close>

lemma loop_flag:
  assumes "map_of os n = Some (Flag u)" "n = CHR ''-'' # m" "n \<noteq> ''--''"
  shows "parse_loop os (classify os (n # ss)) ps ex ns = parse_loop os (classify os ss) ps ex (u ns)"
proof -
  have "parse_optional os n = OptTok n [(n, Flag u, None)]" using assms by (simp add: parse_optional_def)
  then show ?thesis
    using assms(3) by (simp add: parse_loop.simps [of os "OptTok n rs # r" for rs r] consume_optional_def)
qed

lemma partition_eq_app: "CHR ''='' \<notin> set n \<Longrightarrow> partition_eq (n @ CHR ''='' # s) = (n, Some (''='', s))"
  by (induction n) auto

lemma loop_value:
  assumes "map_of os n = Some (Value u)" "n = CHR ''-'' # m" "CHR ''='' \<notin> set n" "\<forall>k \<in> fst ` set os. CHR ''='' \<notin> set k"
  shows "parse_loop os (classify os ((n @ CHR ''='' # s) # ss)) ps ex ns = parse_loop os (classify os ss) ps ex (u s ns)"
proof -
  let ?a = "n @ CHR ''='' # s"
  have "map_of os ?a = None" using assms(4) by (force simp: map_of_eq_None_iff)
  then have "parse_optional os ?a = OptTok ?a [(n, Value u, Some (''='', s))]"
    using assms(1,2) partition_eq_app [OF assms(3), of s] by (simp add: parse_optional_def)
  moreover have "?a \<noteq> ''--''"
  proof -
    have ne: "a \<noteq> b" if "x \<in> set a" "x \<notin> set b" for a b :: string and x using that by blast
    show ?thesis by (rule ne [of "CHR ''=''"]) simp_all
  qed
  ultimately show ?thesis
    by (simp add: parse_loop.simps [of os "OptTok a rs # r" for a rs r] consume_optional_def)
qed

lemma loop_dashes:
  "parse_loop os (classify os (''--'' # ss)) ps ex ns =
    (let (ns', ps', r) = consume_positionals ps (Dashes # map Arg ss) ns in Inr (ns', ps', ex \<or> r \<noteq> []))"
  by (subst parse_loop.simps) (simp add: list_all_iff)

lemma loop_nil: "parse_loop os (classify os []) ps ex ns =
    (let (ns', ps', r) = consume_positionals ps [] ns in Inr (ns', ps', ex \<or> r \<noteq> []))"
  by (subst parse_loop.simps) simp

section \<open>What the actions keep\<close>

declare joined.simps [simp del]

definition action_keeps :: "('a \<Rightarrow> bool) \<Rightarrow> 'a action \<Rightarrow> bool" where
  "action_keeps I a \<longleftrightarrow> (case a of Flag u \<Rightarrow> \<forall>ns. I ns \<longrightarrow> I (u ns) | Value u \<Rightarrow> \<forall>s ns. I ns \<longrightarrow> I (u s ns) | ShowHelp \<Rightarrow> True)"

definition step_keeps :: "('a \<Rightarrow> bool) \<Rightarrow> ('a \<Rightarrow> parse_exit + 'a) \<Rightarrow> bool" where
  "step_keeps I u \<longleftrightarrow> (\<forall>ns ns'. I ns \<longrightarrow> u ns = Inr ns' \<longrightarrow> I ns')"

lemma action_keeps_simps [simp]:
  "action_keeps I (Flag u) \<longleftrightarrow> (\<forall>ns. I ns \<longrightarrow> I (u ns))"
  "action_keeps I (Value v) \<longleftrightarrow> (\<forall>s ns. I ns \<longrightarrow> I (v s ns))"
  "action_keeps I ShowHelp"
  by (simp_all add: action_keeps_def)

lemma flag_action_keeps: "action_keeps I a \<Longrightarrow> step_keeps I (flag_action a)"
  by (cases a) (auto simp: step_keeps_def)

lemma value_keeps: "action_keeps I (Value v) \<Longrightarrow> step_keeps I (\<lambda>ns. Inr (v s ns))"
  by (simp add: step_keeps_def)

lemma run_actions_keeps: "\<forall>u \<in> set us. step_keeps I u \<Longrightarrow> I ns \<Longrightarrow> run_actions us ns = Inr ns' \<Longrightarrow> I ns'"
proof (induction us arbitrary: ns)
  case (Cons u us)
  then obtain ns1 where u: "u ns = Inr ns1" "run_actions us ns1 = Inr ns'" by (auto split: sum.splits)
  then have "I ns1" using Cons.prems(1,2) unfolding step_keeps_def by auto
  then show ?case using Cons.IH Cons.prems(1) u(2) by simp
qed simp

lemma joined_keeps:
  assumes os: "\<forall>b \<in> snd ` set os. action_keeps I b"
  shows "joined os us n a sep x = Inr (us', a', ex) \<Longrightarrow> \<forall>u \<in> set us. step_keeps I u \<Longrightarrow> action_keeps I a \<Longrightarrow>
    (\<forall>u \<in> set us'. step_keeps I u) \<and> (\<forall>b. a' = Some b \<longrightarrow> action_keeps I b)"
proof (induction "length x" arbitrary: us n a sep x rule: less_induct)
  case less
  have o: "action_keeps I b" if "map_of os k = Some b" for k b
    using os map_of_SomeD [OF that] by force
  have us: "\<forall>u \<in> set (us @ [flag_action a]). step_keeps I u" using less.prems(2,3) flag_action_keeps by auto
  show ?case
  proof (cases "\<exists>u. a = Value u")
    case True
    then obtain u where a: "a = Value u" by blast
    then have "us' = us @ [\<lambda>ns. Inr (u x ns)]" "a' = None" using less.prems(1) by (simp_all add: joined.simps [of os us n "Value u"])
    then show ?thesis using less.prems(2,3) value_keeps [of I u x] a by simp
  next
    case False
    let ?n = "[CHR ''-'', hd x]" and ?us = "us @ [flag_action a]"
    have x: "x \<noteq> []" and j: "(case map_of os ?n of None \<Rightarrow> Inr (?us, None, True)
       | Some b \<Rightarrow> (case tl x of [] \<Rightarrow> Inr (?us, Some b, False)
         | c # y \<Rightarrow> if c = CHR ''='' then joined os ?us ?n b ''='' y else joined os ?us ?n b [] (c # y))) = Inr (us', a', ex)"
      using less.prems(1) False by (auto simp: joined.simps [of os us n a] Let_def split: action.splits if_splits)
    show ?thesis
    proof (cases "map_of os ?n")
      case None
      then show ?thesis using j us by auto
    next
      case (Some b)
      note b = o [OF Some]
      show ?thesis
      proof (cases "tl x")
        case Nil
        then show ?thesis using j us Some b by auto
      next
        case (Cons c y)
        have len: "length y < length x" "length (c # y) < length x" using x Cons by (cases x, auto)+
        show ?thesis using less.hyps [OF len(1) _ us b] less.hyps [OF len(2) _ us b] j Some Cons by (auto split: if_splits)
      qed
    qed
  qed
qed

lemma plain_option_keeps:
  assumes "\<forall>u \<in> set us. step_keeps I u" "action_keeps I a" "I ns" "plain_option us a ts ns = Inr (ns', ts')"
  shows "I ns' \<and> (\<forall>t \<in> set ts. is_opt t \<longrightarrow> t \<in> set ts') \<and> set ts' \<subseteq> set ts"
proof -
  obtain vs where v: "\<forall>u \<in> set vs. step_keeps I u" "run_actions vs ns = Inr ns'"
    and t: "(\<forall>t \<in> set ts. is_opt t \<longrightarrow> t \<in> set ts') \<and> set ts' \<subseteq> set ts"
  proof (cases "\<exists>u. a = Value u")
    case True
    then obtain u where a: "a = Value u" by blast
    obtain s where ts: "ts = Arg s # ts'" and r: "run_actions (us @ [\<lambda>ns. Inr (u s ns)]) ns = Inr ns'"
      using assms(4) unfolding a
      by (cases "(us, Value u, ts, ns)" rule: plain_option.cases) (auto simp: map_sum_def split: sum.splits)
    show ?thesis by (rule that [OF _ r]) (use assms(1,2) a ts value_keeps [of I u s] in auto)
  next
    case False
    then have "plain_option us a ts ns = map_sum id (\<lambda>ns'. (ns', ts)) (run_actions (us @ [flag_action a]) ns)"
      by (cases a) simp_all
    then have r: "run_actions (us @ [flag_action a]) ns = Inr ns'" "ts' = ts"
      using assms(4) by (auto simp: map_sum_def split: sum.splits)
    show ?thesis by (rule that [OF _ r(1)]) (use assms(1) flag_action_keeps [OF assms(2)] r(2) in auto)
  qed
  show ?thesis using run_actions_keeps [OF v(1) assms(3) v(2)] t by blast
qed

lemma consume_optional_keeps:
  assumes os: "\<forall>b \<in> snd ` set os. action_keeps I b" and rs: "\<forall>(n, a, x) \<in> set rs. action_keeps I a"
    and I: "I ns" and c: "consume_optional os rs ts ns = Inr (ns', ts', ex)"
  shows "I ns' \<and> (\<forall>t \<in> set ts. is_opt t \<longrightarrow> t \<in> set ts') \<and> set ts' \<subseteq> set ts"
proof -
  consider "rs = []" | n a where "rs = [(n, a, None)]" | n a sep x where "rs = [(n, a, Some (sep, x))]" | "length rs > 1"
    by (cases rs; cases "tl rs"; cases "snd (snd (hd rs))") auto
  then show ?thesis
  proof cases
    case 1
    then show ?thesis using c I by (simp add: consume_optional_def)
  next
    case (2 n a)
    then show ?thesis using c I rs plain_option_keeps [of "[]" I a ns ts]
      by (auto simp: consume_optional_def map_sum_def split: sum.splits)
  next
    case (3 n a sep x)
    show ?thesis
    proof (cases "joined os [] n a sep x")
      case (Inr y)
      obtain us b k where y: "joined os [] n a sep x = Inr (us, b, k)" using Inr by (cases y) auto
      note K = joined_keeps [OF os y]
      show ?thesis
      proof (cases b)
        case None
        then show ?thesis using c 3 y K rs I run_actions_keeps [of us I ns]
          by (auto simp: consume_optional_def map_sum_def split: sum.splits)
      next
        case (Some d)
        then show ?thesis using c 3 y K rs I plain_option_keeps [of us I d ns ts]
          by (auto simp: consume_optional_def map_sum_def split: sum.splits)
      qed
    qed (use c 3 in \<open>simp add: consume_optional_def\<close>)
  next
    case 4
    then show ?thesis using c by (auto simp: consume_optional_def neq_Nil_conv Suc_le_eq [symmetric] split: list.splits prod.splits option.splits)
  qed
qed

section \<open>Results of a parser\<close>

definition tokens_of :: "'a opts \<Rightarrow> 'a token list \<Rightarrow> bool" where
  "tokens_of os ts \<longleftrightarrow> (\<forall>s rs. OptTok s rs \<in> set ts \<longrightarrow> (\<forall>(n, a, x) \<in> set rs. a \<in> snd ` set os))"

definition posns_keep :: "('a \<Rightarrow> bool) \<Rightarrow> 'a posns \<Rightarrow> bool" where
  "posns_keep I ps \<longleftrightarrow> (\<forall>(k, u) \<in> set ps. \<forall>s ns. I ns \<longrightarrow> I (u s ns))"

lemma tokens_of_sub: "tokens_of os ts \<Longrightarrow> set r \<subseteq> set ts \<Longrightarrow> tokens_of os r"
  by (fastforce simp: tokens_of_def)

lemma map_of_action: "map_of os n = Some a \<Longrightarrow> a \<in> snd ` set os"
  by (force dest: map_of_SomeD)

lemma tokens_of_drop: "tokens_of os ts \<Longrightarrow> tokens_of os (dropWhile P ts)"
  by (erule tokens_of_sub) (auto dest: set_dropWhileD)

lemma option_tuples_of: "(n, a, x) \<in> set (option_tuples os s) \<Longrightarrow> a \<in> snd ` set os"
  by (force simp: option_tuples_def split: prod.splits if_splits)

lemma parse_optional_of:
  assumes "parse_optional os s = OptTok k rs" "(n, a, x) \<in> set rs"
  shows "a \<in> snd ` set os"
  using assms by (auto simp: parse_optional_def split: if_splits option.splits prod.splits
      dest: map_of_action option_tuples_of)

lemma classify_of: "tokens_of os (classify os ss)"
proof (induction ss)
  case (Cons s ss)
  have "tokens_of os [parse_optional os s]"
    by (auto simp: tokens_of_def dest: parse_optional_of [OF sym])
  then show ?case using Cons by (auto simp: tokens_of_def)
qed (simp add: tokens_of_def)

lemma consume_optional_sub:
  assumes c: "consume_optional os rs ts ns = Inr (ns', ts', ex)"
  shows "(\<forall>t \<in> set ts. is_opt t \<longrightarrow> t \<in> set ts') \<and> set ts' \<subseteq> set ts"
proof -
  have "\<forall>(n, a, x) \<in> set rs. action_keeps (\<lambda>_. True) a" "\<forall>b \<in> snd ` set os. action_keeps (\<lambda>_. True) b"
    by (auto simp: action_keeps_def split: action.split)
  from consume_optional_keeps [OF this(2,1) _ c] show ?thesis by blast
qed

lemma match_partial_keeps:
  "match_partial ps ts = (ms, r) \<Longrightarrow> posns_keep I ps \<Longrightarrow> m \<in> set ms \<Longrightarrow> I ns \<Longrightarrow> I (fst m s ns)"
proof (induction ps ts arbitrary: ms r rule: match_partial.induct)
  case (2 k u ps ts)
  show ?case
  proof (cases "match_posn k ts")
    case (Some y)
    then obtain v r1 where y: "match_posn k ts = Some (v, r1)" by (cases y) auto
    obtain ms1 r2 where m: "match_partial ps r1 = (ms1, r2)" by fastforce
    have "posns_keep I ps" "I (u s ns)" using 2(3,5) by (auto simp: posns_keep_def)
    then show ?thesis using 2(1) [OF y refl m] 2(2,4,5) y m by auto
  qed (use 2(2,4) in simp)
qed simp

lemma fold_keeps:
  "(\<And>m s ns. m \<in> set ms \<Longrightarrow> I ns \<Longrightarrow> I (fst m s ns)) \<Longrightarrow> I ns \<Longrightarrow>
    I (fold (\<lambda>(u, v, k :: nat) ns. case v of Some s \<Rightarrow> u s ns | None \<Rightarrow> ns) ms ns)"
  by (induction ms arbitrary: ns) (fastforce split: option.split)+

lemma consume_positionals_run:
  assumes "consume_positionals ps ts ns = (ns', ps', r)"
  obtains ms k where "match_partial ps ts = (ms, r)" "ps' = drop (length k) ps" "prefix k ms"
    "ns' = fold (\<lambda>(u, v, k :: nat) ns. case v of Some s \<Rightarrow> u s ns | None \<Rightarrow> ns) k ns"
proof -
  obtain ms where m: "match_partial ps ts = (ms, r)"
    using assms by (auto simp: consume_positionals_def Let_def split: prod.splits)
  let ?k = "case r of OptTok _ _ # _ \<Rightarrow> rev (dropWhile (\<lambda>(_, _, k). k = 0) (rev ms)) | _ \<Rightarrow> ms"
  have "prefix (rev (dropWhile P (rev ms))) ms" for P using suffix_dropWhile [of P "rev ms"] by (simp add: suffix_to_prefix)
  then have "prefix ?k ms" by (simp split: list.split token.split)
  then show ?thesis
    by (rule that [OF m, rotated]) (use assms m in \<open>auto simp: consume_positionals_def Let_def\<close>)
qed

lemma consume_positionals_keeps:
  assumes c: "consume_positionals ps ts ns = (ns', ps', r)" and k: "posns_keep I ps"
  shows "I ns \<Longrightarrow> I ns'" "posns_keep I ps'"
proof -
  obtain ms k' where m: "match_partial ps ts = (ms, r)" "prefix k' ms" and p: "ps' = drop (length k') ps"
    and n: "ns' = fold (\<lambda>(u, v, k :: nat) ns. case v of Some s \<Rightarrow> u s ns | None \<Rightarrow> ns) k' ns"
    by (rule consume_positionals_run [OF c])
  show "I ns \<Longrightarrow> I ns'" unfolding n
    by (rule fold_keeps) (use match_partial_keeps [OF m(1) k] set_mono_prefix [OF m(2)] in auto)
  show "posns_keep I ps'" using k unfolding p posns_keep_def by (blast dest: in_set_dropD)
qed

lemma dropWhile_opts: "is_opt t \<Longrightarrow> t \<in> set ts \<Longrightarrow> t \<in> set (dropWhile (\<lambda>t. \<not> is_opt t) ts)"
  by (induction ts) auto

lemma parse_known_keeps:
  assumes os: "\<forall>b \<in> snd ` set os. action_keeps I b" and ps: "posns_keep I ps" and I: "I ns"
    and p: "parse_known os ps argv ns = Inr (ns', ex)"
  shows "I ns'"
proof -
  obtain ps' x where l: "parse_loop os (classify os argv) ps False ns = Inr (ns', ps', x)"
    using p by (auto simp: parse_known_def split: sum.splits prod.splits if_splits)
  have "\<exists>r. (tokens_of os r \<and> posns_keep I ps' \<and> I ns') \<and> list_all (\<lambda>t. \<not> is_opt t) r"
  proof (rule parse_loop_rule [where J = "\<lambda>ts ps ns. tokens_of os ts \<and> posns_keep I ps \<and> I ns", OF _ l])
    show "tokens_of os (classify os argv) \<and> posns_keep I ps \<and> I ns" using classify_of ps I by blast
    fix ts :: "'a token list" and ps ns ns1 ps1 r assume j: "tokens_of os ts \<and> posns_keep I ps \<and> I ns"
    show "tokens_of os r \<and> posns_keep I ps1 \<and> I ns1" if "consume_positionals ps ts ns = (ns1, ps1, r)"
      using consume_positionals_keeps [OF that, of I] set_mono_suffix [OF consume_positionals_suffix [OF that]] j
        tokens_of_sub by blast
    show "tokens_of os (dropWhile (\<lambda>t. \<not> is_opt t) ts) \<and> posns_keep I ps \<and> I ns"
      using j tokens_of_drop by blast
  next
    fix s rs r ps ns ns1 r1 x assume j: "tokens_of os (OptTok s rs # r) \<and> posns_keep I ps \<and> I ns"
      and c: "consume_optional os rs r ns = Inr (ns1, r1, x)"
    have "\<forall>(n, a, x) \<in> set rs. action_keeps I a" using j os by (fastforce simp: tokens_of_def)
    from consume_optional_keeps [OF os this _ c] j
    show "tokens_of os r1 \<and> posns_keep I ps \<and> I ns1" using tokens_of_sub [of os "OptTok s rs # r" r1] by auto
  qed
  then show ?thesis by blast
qed

text \<open>A flag given before \<open>--\<close> has its effect, whatever is around it.\<close>

lemma classify_flag:
  assumes "n \<in> set (takeWhile (\<lambda>s. s \<noteq> ''--'') ss)" "map_of os n = Some a" "n = CHR ''-'' # m"
  shows "OptTok n [(n, a, None)] \<in> set (classify os ss)"
  using assms(1)
proof (induction ss)
  case (Cons s ss)
  have "parse_optional os n = OptTok n [(n, a, None)]" using assms(2,3) by (simp add: parse_optional_def)
  then show ?case using Cons by (auto split: if_splits)
qed simp

lemma parse_known_flag:
  assumes n: "n \<in> set (takeWhile (\<lambda>s. s \<noteq> ''--'') argv)" "map_of os n = Some (Flag u)" "n = CHR ''-'' # m"
    and os: "\<forall>b \<in> snd ` set os. action_keeps I b" and ps: "posns_keep I ps" and I: "\<And>ns. I (u ns)"
    and p: "parse_known os ps argv ns = Inr (ns', ex)"
  shows "I ns'"
proof -
  let ?t = "OptTok n [(n, Flag u, None)]"
  obtain ps' x where l: "parse_loop os (classify os argv) ps False ns = Inr (ns', ps', x)"
    using p by (auto simp: parse_known_def split: sum.splits prod.splits if_splits)
  have "\<exists>r. (tokens_of os r \<and> posns_keep I ps' \<and> (?t \<in> set r \<or> I ns')) \<and> list_all (\<lambda>t. \<not> is_opt t) r"
  proof (rule parse_loop_rule [where J = "\<lambda>ts ps ns. tokens_of os ts \<and> posns_keep I ps \<and> (?t \<in> set ts \<or> I ns)", OF _ l])
    show "tokens_of os (classify os argv) \<and> posns_keep I ps \<and> (?t \<in> set (classify os argv) \<or> I ns)"
      using classify_of ps classify_flag [OF n] by blast
    fix ts :: "'a token list" and ps ns ns1 ps1 r assume j: "tokens_of os ts \<and> posns_keep I ps \<and> (?t \<in> set ts \<or> I ns)"
    show "tokens_of os r \<and> posns_keep I ps1 \<and> (?t \<in> set r \<or> I ns1)" if "consume_positionals ps ts ns = (ns1, ps1, r)"
      using consume_positionals_keeps [OF that, of I] set_mono_suffix [OF consume_positionals_suffix [OF that]] j
        tokens_of_sub consume_positionals_opts [OF that, of ?t] by auto
    show "tokens_of os (dropWhile (\<lambda>t. \<not> is_opt t) ts) \<and> posns_keep I ps \<and> (?t \<in> set (dropWhile (\<lambda>t. \<not> is_opt t) ts) \<or> I ns)"
      using j tokens_of_drop dropWhile_opts [of ?t ts] by auto
  next
    fix s rs r ps ns ns1 r1 x assume j: "tokens_of os (OptTok s rs # r) \<and> posns_keep I ps \<and> (?t \<in> set (OptTok s rs # r) \<or> I ns)"
      and c: "consume_optional os rs r ns = Inr (ns1, r1, x)"
    have a: "\<forall>(n, a, x) \<in> set rs. action_keeps I a" using j os by (fastforce simp: tokens_of_def)
    note sub = consume_optional_sub [OF c]
    have "?t \<in> set r1 \<or> I ns1"
    proof (cases "OptTok s rs = ?t \<or> I ns")
      case True
      then show ?thesis using c I consume_optional_keeps [OF os a _ c] by (auto simp: consume_optional_def)
    next
      case False
      then show ?thesis using j sub by auto
    qed
    then show "tokens_of os r1 \<and> posns_keep I ps \<and> (?t \<in> set r1 \<or> I ns1)"
      using j sub tokens_of_sub [of os "OptTok s rs # r" r1] by auto
  qed
  then show ?thesis by (auto simp: list_all_iff)
qed

text \<open>A required positional is set when parsing succeeds.\<close>

lemma consume_one:
  assumes "consume_positionals [(One, u)] ts ns = (ns', ps', r)"
  shows "ps' = [(One, u)] \<and> ns' = ns \<or> ps' = [] \<and> (\<exists>s. ns' = u s ns)"
proof -
  obtain ms k where m: "match_partial [(One, u)] ts = (ms, r)" "prefix k ms" and p: "ps' = drop (length k) [(One, u)]"
    and n: "ns' = fold (\<lambda>(u, v, k :: nat) ns. case v of Some s \<Rightarrow> u s ns | None \<Rightarrow> ns) k ns"
    by (rule consume_positionals_run [OF assms])
  show ?thesis
  proof (cases "match_posn One ts")
    case None
    then show ?thesis using m p n by simp
  next
    case (Some y)
    then obtain v r1 where y: "match_posn One ts = Some (v, r1)" by (cases y) auto
    then obtain s where "v = Some s" by (cases rule: match_posn_cases) auto
    then show ?thesis using m p n y by (auto simp: prefix_Cons) blast+
  qed
qed

lemma parse_known_required:
  assumes os: "\<forall>b \<in> snd ` set os. action_keeps I b" and I: "\<And>s ns. I (u s ns)"
    and p: "parse_known os [(One, u)] argv ns = Inr (ns', ex)"
  shows "I ns'"
proof -
  let ?J = "\<lambda>ts ps ns. tokens_of os ts \<and> (ps = [(One, u)] \<or> ps = [] \<and> I ns)"
  obtain ps' x where l: "parse_loop os (classify os argv) [(One, u)] False ns = Inr (ns', ps', x)" and o: "One \<notin> fst ` set ps'"
    using p by (auto simp: parse_known_def split: sum.splits prod.splits if_splits)
  have "\<exists>r. ?J r ps' ns' \<and> list_all (\<lambda>t. \<not> is_opt t) r"
  proof (rule parse_loop_rule [where J = ?J, OF _ l])
    show "?J (classify os argv) [(One, u)] ns" using classify_of by simp
    fix ts :: "'a token list" and ps ns ns1 ps1 r assume j: "?J ts ps ns"
    show "?J r ps1 ns1" if c: "consume_positionals ps ts ns = (ns1, ps1, r)"
    proof -
      have "ps1 = [(One, u)] \<or> ps1 = [] \<and> I ns1"
        using j c consume_one [of u ts ns] I by (auto simp: consume_positionals_def split: list.splits token.splits)
      then show ?thesis using set_mono_suffix [OF consume_positionals_suffix [OF c]] j tokens_of_sub by blast
    qed
    show "?J (dropWhile (\<lambda>t. \<not> is_opt t) ts) ps ns"
      using j tokens_of_drop by blast
  next
    fix s rs r ps ns ns1 r1 x assume j: "?J (OptTok s rs # r) ps ns" and c: "consume_optional os rs r ns = Inr (ns1, r1, x)"
    have "\<forall>(n, a, x) \<in> set rs. action_keeps I a" using j os by (fastforce simp: tokens_of_def)
    note K = consume_optional_keeps [OF os this _ c] and S = consume_optional_sub [OF c]
    show "?J r1 ps ns1" using j K tokens_of_sub [of os "OptTok s rs # r" r1] S by auto
  qed
  then show ?thesis using o by auto
qed

end
