(* ===== verification/CommandLine.thy ===== *)
theory CommandLine
  imports HostSpec ArgParse
begin

text \<open>
  The command line of \<open>zerithctl\<close>: the parsers of \<open>zerith/cli.py\<close>, and the program as a whole,
  from the arguments to the exit status. Relative paths are taken from the working directory
  \<open>cwd\<close>.
\<close>

section \<open>The parsers\<close>

definition common_opts :: "args opts" where
  "common_opts =
     [(''--dry-run'', Flag (\<lambda>a. a\<lparr>a_dry_run := True\<rparr>)),
      (''-v'', Flag (\<lambda>a. a\<lparr>a_verbose := True\<rparr>)), (''--verbose'', Flag (\<lambda>a. a\<lparr>a_verbose := True\<rparr>))]"

definition trust_opts :: "args opts" where
  "trust_opts =
     [(''--cosign-identity'', Value (\<lambda>s a. a\<lparr>a_cosign_identity := Some s\<rparr>)),
      (''--cosign-issuer'', Value (\<lambda>s a. a\<lparr>a_cosign_issuer := s\<rparr>)),
      (''--insecure-skip-verify'', Flag (\<lambda>a. a\<lparr>a_skip_verify := True\<rparr>))]"

definition host_opts :: "path \<Rightarrow> args opts" where
  "host_opts cwd =
     [(''--deploy'', Value (\<lambda>s a. a\<lparr>a_deploy := pjoin cwd s\<rparr>)),
      (''--esp'', Value (\<lambda>s a. a\<lparr>a_esp := pjoin cwd s\<rparr>)),
      (''--config'', Value (\<lambda>s a. a\<lparr>a_config := Some (pjoin cwd s)\<rparr>))]"

definition install_opts :: "path \<Rightarrow> args opts" where
  "install_opts cwd =
     [(''--disk'', Value (\<lambda>s a. a\<lparr>a_disk := Some (pjoin cwd s)\<rparr>)),
      (''--yes'', Flag (\<lambda>a. a\<lparr>a_yes := True\<rparr>)),
      (''--esp-size'', Value (\<lambda>s a. a\<lparr>a_esp_size := s\<rparr>)),
      (''--label'', Value (\<lambda>s a. a\<lparr>a_label := s\<rparr>)),
      (''--ref'', Value (\<lambda>s a. a\<lparr>a_ref := Some s\<rparr>)),
      (''--local'', Value (\<lambda>s a. a\<lparr>a_local := Some (pjoin cwd s)\<rparr>)),
      (''--no-limine'', Flag (\<lambda>a. a\<lparr>a_no_limine := True\<rparr>))]"

definition install_posns :: "path \<Rightarrow> args posns" where
  "install_posns cwd =
     [(Opt, \<lambda>s a. a\<lparr>a_sysroot := Some (pjoin cwd s)\<rparr>), (Opt, \<lambda>s a. a\<lparr>a_efi := Some (pjoin cwd s)\<rparr>)]"

definition deploy_posns :: "args posns" where
  "deploy_posns = [(One, \<lambda>s a. a\<lparr>a_ref := Some s\<rparr>)]"

definition build_parser :: "path \<Rightarrow> (string \<times> args opts \<times> args posns) list" where
  "build_parser cwd = (let common = help_opts @ common_opts; host = host_opts cwd in
     [(''status'', common @ host, []),
      (''deploy'', common @ host @ trust_opts, deploy_posns),
      (''update'', common @ host @ trust_opts, []),
      (''rollback'', common @ host, []), (''swap'', common @ host, []),
      (''gc'', common @ host, []),
      (''install'', common @ trust_opts @ install_opts cwd, install_posns cwd)])"

definition parse_command :: "path \<Rightarrow> env \<Rightarrow> string \<Rightarrow> string list \<Rightarrow> parse_exit + (args \<times> bool)" where
  "parse_command cwd e cmd argv = (case map_of (build_parser cwd) cmd of
     None \<Rightarrow> Inl UsageExit
   | Some (os, ps) \<Rightarrow> parse_known os ps argv (default_args e cmd))"

definition parse_args :: "path \<Rightarrow> env \<Rightarrow> string list \<Rightarrow> parse_exit + args" where
  "parse_args cwd e argv = top_loop argv False (parse_command cwd e)"

section \<open>The program\<close>

fun exit_status :: "exn + int \<Rightarrow> int" where
  "exit_status (Inr n) = n"
| "exit_status (Inl x) = 1"

definition zerithctl :: "path \<Rightarrow> string list \<Rightarrow> env \<Rightarrow> world \<Rightarrow> int \<times> world" where
  "zerithctl cwd argv e w = (case parse_args cwd e argv of
     Inl HelpExit \<Rightarrow> (0, w)
   | Inl UsageExit \<Rightarrow> (2, w)
   | Inr a \<Rightarrow> (let (r, w') = main a e w in (exit_status r, w')))"

section \<open>What the namespace holds\<close>

lemma parse_args_command:
  assumes "parse_args cwd e argv = Inr a"
  obtains c r os ps where "map_of (build_parser cwd) c = Some (os, ps)" "parse_known os ps r (default_args e c) = Inr (a, False)"
  using top_loop_parsed [OF assms [unfolded parse_args_def]] by (auto simp: parse_command_def split: option.splits prod.splits)

lemma parser_cases:
  assumes "map_of (build_parser cwd) c = Some (os, ps)"
  obtains (host) "c \<in> {''status'', ''rollback'', ''swap'', ''gc''}" "os = help_opts @ common_opts @ host_opts cwd" "ps = []"
  | (update) "c = ''update''" "os = help_opts @ common_opts @ host_opts cwd @ trust_opts" "ps = []"
  | (deploy) "c = ''deploy''" "os = help_opts @ common_opts @ host_opts cwd @ trust_opts" "ps = deploy_posns"
  | (install) "c = ''install''" "os = help_opts @ common_opts @ trust_opts @ install_opts cwd" "ps = install_posns cwd"
  using assms by (auto simp: build_parser_def Let_def split: if_splits intro: that)

lemmas opts_defs = help_opts_def common_opts_def host_opts_def trust_opts_def install_opts_def deploy_posns_def install_posns_def

text \<open>The options a command does not have keep their defaults.\<close>

definition shaped :: "env \<Rightarrow> string \<Rightarrow> args \<Rightarrow> bool" where
  "shaped e c a \<longleftrightarrow> a_cmd a = c \<and>
     (c \<noteq> ''install'' \<longrightarrow> a_sysroot a = None \<and> a_efi a = None \<and> a_disk a = None \<and> a_local a = None \<and> \<not> a_yes a \<and> \<not> a_no_limine a \<and>
        a_esp_size a = DEFAULT_ESP_SIZE \<and> a_label a = DEFAULT_LABEL) \<and>
     (c = ''install'' \<longrightarrow> a_deploy a = DEFAULT_DEPLOY \<and> a_esp a = DEFAULT_ESP \<and> a_config a = None) \<and>
     (c \<notin> {''deploy'', ''update'', ''install''} \<longrightarrow> \<not> a_skip_verify a \<and>
        a_cosign_identity a = a_cosign_identity (default_args e c) \<and> a_cosign_issuer a = a_cosign_issuer (default_args e c)) \<and>
     (c \<notin> {''deploy'', ''install''} \<longrightarrow> a_ref a = None)"

definition typed_args :: "env \<Rightarrow> args \<Rightarrow> bool" where
  "typed_args e a \<longleftrightarrow> a_cmd a \<in> {''status'', ''deploy'', ''update'', ''rollback'', ''swap'', ''gc'', ''install''} \<and>
     shaped e (a_cmd a) a \<and> (a_cmd a = ''deploy'' \<longrightarrow> a_ref a \<noteq> None)"

lemma shaped_default: "shaped e c (default_args e c)"
  by (simp add: shaped_def default_args_def)

lemma parsed_typed:
  assumes "parse_args cwd e argv = Inr a"
  shows "typed_args e a"
proof -
  obtain c r os ps where m: "map_of (build_parser cwd) c = Some (os, ps)"
    and p: "parse_known os ps r (default_args e c) = Inr (a, False)"
    by (rule parse_args_command [OF assms])
  have keep: "(\<forall>b \<in> snd ` set os. action_keeps (shaped e c) b) \<and> posns_keep (shaped e c) ps"
    using m by (cases rule: parser_cases) (auto simp: opts_defs shaped_def posns_keep_def)
  have s: "shaped e c a"
    by (rule parse_known_keeps [where I = "shaped e c", OF _ _ shaped_default p]) (use keep in auto)
  show ?thesis
    using m
  proof (cases rule: parser_cases)
    case deploy
    have "a_ref a \<noteq> None"
      by (rule parse_known_required [OF _ _ p [unfolded deploy(3) deploy_posns_def]]) (auto simp: deploy(2) opts_defs)
    then show ?thesis using s deploy(1) by (simp add: typed_args_def shaped_def)
  qed (use s in \<open>auto simp: typed_args_def shaped_def\<close>)
qed

section \<open>The dry run\<close>

lemma parsed_dry_run:
  assumes p: "parse_known os ps r ns = Inr (a, ex)" and m: "map_of (build_parser cwd) c = Some (os, ps)"
    and d: "''--dry-run'' \<in> set (takeWhile (\<lambda>s. s \<noteq> ''--'') r)"
  shows "a_dry_run a"
proof (rule parse_known_flag [OF d _ _ _ _ _ p])
  show "map_of os ''--dry-run'' = Some (Flag (\<lambda>a. a\<lparr>a_dry_run := True\<rparr>))"
    using m by (cases rule: parser_cases) (simp_all add: opts_defs)
  show "\<forall>b \<in> snd ` set os. action_keeps a_dry_run b" "posns_keep a_dry_run ps"
    using m by (cases rule: parser_cases; auto simp: opts_defs posns_keep_def)+
qed simp_all

lemma parse_named:
  assumes "map_of (build_parser cwd) c = Some (os, ps)"
  shows "parse_args cwd e (c # ss) = finish False (parse_known os ps ss (default_args e c))"
proof -
  have "c \<noteq> ''--'' \<and> parse_optional (help_opts :: unit opts) c = Arg c"
    using assms by (cases rule: parser_cases) (auto simp: parse_optional_def)
  then show ?thesis using assms by (simp add: parse_args_def parse_command_def)
qed

lemma line_command:
  assumes c: "c \<in> {''status'', ''gc'', ''rollback'', ''swap''}" and p: "parse_args cwd e (c # ss) = Inr a"
  shows "a_cmd a = c" "''--dry-run'' \<in> set (takeWhile (\<lambda>s. s \<noteq> ''--'') ss) \<Longrightarrow> a_dry_run a"
proof -
  obtain os ps where m: "map_of (build_parser cwd) c = Some (os, ps)"
    using c by (auto simp: build_parser_def Let_def)
  then obtain ex where p: "parse_known os ps ss (default_args e c) = Inr (a, ex)"
    using p by (auto simp: parse_named finish_Inr)
  have "(\<forall>b \<in> snd ` set os. action_keeps (shaped e c) b) \<and> posns_keep (shaped e c) ps"
    using m by (cases rule: parser_cases) (auto simp: opts_defs shaped_def posns_keep_def)
  then have "shaped e c a" using parse_known_keeps [where I = "shaped e c", OF _ _ shaped_default p] by blast
  then show "a_cmd a = c" by (simp add: shaped_def)
  show "''--dry-run'' \<in> set (takeWhile (\<lambda>s. s \<noteq> ''--'') ss) \<Longrightarrow> a_dry_run a" by (rule parsed_dry_run [OF p m])
qed

lemma line_inert:
  assumes c: "c = ''status'' \<or> (c \<in> {''gc'', ''rollback'', ''swap''} \<and> ''--dry-run'' \<in> set (takeWhile (\<lambda>s. s \<noteq> ''--'') ss))"
  shows "case zerithctl cwd (c # ss) e (boot f) of (n, w) \<Rightarrow> fsys w = f \<and> set (hist w) \<subseteq> {f}"
proof (cases "parse_args cwd e (c # ss)")
  case (Inl x)
  then show ?thesis by (cases x) (simp_all add: zerithctl_def boot_def)
next
  case (Inr a)
  have "c \<in> {''status'', ''gc'', ''rollback'', ''swap''}" using c by auto
  note L = line_command [OF this Inr]
  have K: "keeps e I (main a)" for I by (rule dry_main) (use c L in auto)
  have "disk_after (main a) e f = f" using keeps_after [OF K [of "\<lambda>g. g = f"]] by simp
  moreover have "crash_states (main a) e f = {f}" by (rule quiet [OF K])
  ultimately show ?thesis
    using Inr by (auto simp: zerithctl_def disk_after_def crash_states_def split: prod.split)
qed

section \<open>Writing a command line\<close>

text \<open>A command line for a namespace: every option by its full name, positionals after \<open>--\<close>.\<close>

definition flag_word :: "string \<Rightarrow> bool \<Rightarrow> string list" where
  "flag_word n b = (if b then [n] else [])"

definition value_word :: "string \<Rightarrow> string option \<Rightarrow> string list" where
  "value_word n v = (case v of Some s \<Rightarrow> [n @ CHR ''='' # s] | None \<Rightarrow> [])"

definition common_words :: "args \<Rightarrow> string list" where
  "common_words a = flag_word ''--dry-run'' (a_dry_run a) @ flag_word ''--verbose'' (a_verbose a)"

definition host_words :: "args \<Rightarrow> string list" where
  "host_words a = value_word ''--deploy'' (Some (path_str (a_deploy a))) @ value_word ''--esp'' (Some (path_str (a_esp a))) @
     value_word ''--config'' (map_option path_str (a_config a))"

definition trust_words :: "args \<Rightarrow> string list" where
  "trust_words a = value_word ''--cosign-identity'' (a_cosign_identity a) @ value_word ''--cosign-issuer'' (Some (a_cosign_issuer a)) @
     flag_word ''--insecure-skip-verify'' (a_skip_verify a)"

definition install_words :: "args \<Rightarrow> string list" where
  "install_words a = value_word ''--disk'' (map_option path_str (a_disk a)) @ flag_word ''--yes'' (a_yes a) @
     value_word ''--esp-size'' (Some (a_esp_size a)) @ value_word ''--label'' (Some (a_label a)) @ value_word ''--ref'' (a_ref a) @
     value_word ''--local'' (map_option path_str (a_local a)) @ flag_word ''--no-limine'' (a_no_limine a)"

definition posn_words :: "args \<Rightarrow> string list" where
  "posn_words a = ''--'' # (if a_cmd a = ''deploy'' then (case a_ref a of Some r \<Rightarrow> [r] | None \<Rightarrow> [])
     else map path_str ((case a_sysroot a of Some p \<Rightarrow> [p] | None \<Rightarrow> []) @ (case a_efi a of Some p \<Rightarrow> [p] | None \<Rightarrow> [])))"

definition words :: "args \<Rightarrow> string list" where
  "words a = a_cmd a # common_words a @
     (if a_cmd a = ''install'' then trust_words a @ install_words a @ posn_words a
      else if a_cmd a = ''deploy'' then host_words a @ trust_words a @ posn_words a
      else if a_cmd a = ''update'' then host_words a @ trust_words a
      else host_words a)"

text \<open>What a command line can say: the paths are absolute and plain, a missing identity is missing
  in the environment too, the second mount point does not come without the first.\<close>

definition sayable :: "env \<Rightarrow> args \<Rightarrow> bool" where
  "sayable e a \<longleftrightarrow> typed_args e a \<and> plain_path (a_deploy a) \<and> plain_path (a_esp a) \<and>
     (\<forall>v \<in> {a_config a, a_disk a, a_local a, a_sysroot a, a_efi a}. \<forall>p. v = Some p \<longrightarrow> plain_path p) \<and>
     (a_cosign_identity a = None \<longrightarrow> getenv e ''ZERITH_COSIGN_IDENTITY'' = None) \<and>
     (a_efi a \<noteq> None \<longrightarrow> a_sysroot a \<noteq> None)"

lemma loop_flag_word:
  assumes "map_of os n = Some (Flag u)" "n = CHR ''-'' # m" "n \<noteq> ''--''"
  shows "parse_loop os (classify os (flag_word n b @ ss)) ps ex ns = parse_loop os (classify os ss) ps ex (if b then u ns else ns)"
  using loop_flag [OF assms] by (simp add: flag_word_def del: classify.simps)

lemma loop_value_word:
  assumes "map_of os n = Some (Value u)" "n = CHR ''-'' # m" "CHR ''='' \<notin> set n" "\<forall>k \<in> fst ` set os. CHR ''='' \<notin> set k"
  shows "parse_loop os (classify os (value_word n v @ ss)) ps ex ns =
    parse_loop os (classify os ss) ps ex (case v of Some s \<Rightarrow> u s ns | None \<Rightarrow> ns)"
  using loop_value [OF assms] by (cases v) (simp_all add: value_word_def del: classify.simps)

lemma pjoin_path_str: "plain_path p \<Longrightarrow> pjoin cwd (path_str p) = p"
  using comps_path_str [of p] by (cases p) (simp_all add: pjoin_def path_str_def startswith_def)

lemma posn_deploy: "consume_positionals deploy_posns [Dashes, Arg r] ns = (ns\<lparr>a_ref := Some r\<rparr>, [], [])"
  by (simp add: consume_positionals_def deploy_posns_def match_posn.simps)

lemma posn_install:
  "consume_positionals (install_posns cwd) [Dashes] ns = (ns, [], [])"
  "consume_positionals (install_posns cwd) [Dashes, Arg s] ns = (ns\<lparr>a_sysroot := Some (pjoin cwd s)\<rparr>, [], [])"
  "consume_positionals (install_posns cwd) [Dashes, Arg s, Arg t] ns =
    (ns\<lparr>a_sysroot := Some (pjoin cwd s), a_efi := Some (pjoin cwd t)\<rparr>, [], [])"
  by (simp_all add: consume_positionals_def install_posns_def match_posn.simps)

text \<open>The loop on the last words.\<close>

lemma loop_end:
  "parse_loop os (classify os []) [] False ns = Inr (ns, [], False)"
  "parse_loop os (classify os [''--'', r]) deploy_posns False ns = Inr (ns\<lparr>a_ref := Some r\<rparr>, [], False)"
  unfolding loop_nil loop_dashes by (simp add: consume_positionals_def) (simp add: posn_deploy)

lemma loop_install_end:
  assumes "s = None \<longrightarrow> b = None" "\<forall>p. s = Some p \<or> b = Some p \<longrightarrow> plain_path p"
  shows "parse_loop os (classify os (''--'' # map path_str ((case s of Some p \<Rightarrow> [p] | None \<Rightarrow> []) @ (case b of Some p \<Rightarrow> [p] | None \<Rightarrow> []))))
      (install_posns cwd) False ns =
    Inr (ns\<lparr>a_sysroot := (if s = None then a_sysroot ns else s), a_efi := (if b = None then a_efi ns else b)\<rparr>, [], False)"
  unfolding loop_dashes
  by (cases s; cases b) (use assms in \<open>auto simp: posn_install pjoin_path_str\<close>)

definition offers :: "args opts \<Rightarrow> args opts \<Rightarrow> bool" where
  "offers os gs \<longleftrightarrow> list_all (\<lambda>(n, x). map_of os n = Some x) gs \<and> (\<forall>k \<in> fst ` set os. CHR ''='' \<notin> set k)"

lemma offersD: "offers os gs \<Longrightarrow> (n, x) \<in> set gs \<Longrightarrow> map_of os n = Some x"
  "offers os gs \<Longrightarrow> \<forall>k \<in> fst ` set os. CHR ''='' \<notin> set k"
  by (auto simp: offers_def list_all_iff)

lemma loop_common:
  assumes "offers os common_opts"
  shows "parse_loop os (classify os (common_words a @ ss)) ps ex ns = parse_loop os (classify os ss) ps ex
    (ns\<lparr>a_dry_run := a_dry_run a \<or> a_dry_run ns, a_verbose := a_verbose a \<or> a_verbose ns\<rparr>)"
proof -
  note m = offersD(1) [OF assms, unfolded common_opts_def]
  show ?thesis unfolding common_words_def append_assoc
    by (subst loop_flag_word, rule m, simp, simp, simp, subst loop_flag_word, rule m, simp, simp, simp) simp
qed

lemma loop_host:
  assumes "offers os (host_opts cwd)" "plain_path (a_deploy a)" "plain_path (a_esp a)" "\<forall>p. a_config a = Some p \<longrightarrow> plain_path p"
  shows "parse_loop os (classify os (host_words a @ ss)) ps ex ns = parse_loop os (classify os ss) ps ex
    (ns\<lparr>a_deploy := a_deploy a, a_esp := a_esp a, a_config := (if a_config a = None then a_config ns else a_config a)\<rparr>)"
proof -
  note m = offersD(1) [OF assms(1), unfolded host_opts_def] and q = offersD(2) [OF assms(1)]
  show ?thesis unfolding host_words_def append_assoc
    apply (subst loop_value_word [OF m _ _ q], simp, simp, simp)
    apply (subst loop_value_word [OF m _ _ q], simp, simp, simp)
    apply (subst loop_value_word [OF m _ _ q], simp, simp, simp)
    using assms(2-) by (auto simp: pjoin_path_str split: option.split)
qed

lemma loop_trust:
  assumes "offers os trust_opts"
  shows "parse_loop os (classify os (trust_words a @ ss)) ps ex ns = parse_loop os (classify os ss) ps ex
    (ns\<lparr>a_cosign_identity := (if a_cosign_identity a = None then a_cosign_identity ns else a_cosign_identity a),
      a_cosign_issuer := a_cosign_issuer a, a_skip_verify := a_skip_verify a \<or> a_skip_verify ns\<rparr>)"
proof -
  note m = offersD(1) [OF assms(1), unfolded trust_opts_def] and q = offersD(2) [OF assms(1)]
  show ?thesis unfolding trust_words_def append_assoc
    apply (subst loop_value_word [OF m _ _ q], simp, simp, simp)
    apply (subst loop_value_word [OF m _ _ q], simp, simp, simp)
    apply (subst loop_flag_word, rule m, simp, simp, simp)
    by (auto split: option.split)
qed

lemma loop_install:
  assumes "offers os (install_opts cwd)" "\<forall>p. a_disk a = Some p \<or> a_local a = Some p \<longrightarrow> plain_path p"
  shows "parse_loop os (classify os (install_words a @ ss)) ps ex ns = parse_loop os (classify os ss) ps ex
    (ns\<lparr>a_disk := (if a_disk a = None then a_disk ns else a_disk a), a_yes := a_yes a \<or> a_yes ns, a_esp_size := a_esp_size a,
      a_label := a_label a, a_ref := (if a_ref a = None then a_ref ns else a_ref a),
      a_local := (if a_local a = None then a_local ns else a_local a), a_no_limine := a_no_limine a \<or> a_no_limine ns\<rparr>)"
proof -
  note m = offersD(1) [OF assms(1), unfolded install_opts_def] and q = offersD(2) [OF assms(1)]
  show ?thesis unfolding install_words_def append_assoc
    apply (subst loop_value_word [OF m _ _ q], simp, simp, simp)
    apply (subst loop_flag_word, rule m, simp, simp, simp)
    apply (subst loop_value_word [OF m _ _ q], simp, simp, simp)
    apply (subst loop_value_word [OF m _ _ q], simp, simp, simp)
    apply (subst loop_value_word [OF m _ _ q], simp, simp, simp)
    apply (subst loop_value_word [OF m _ _ q], simp, simp, simp)
    apply (subst loop_flag_word, rule m, simp, simp, simp)
    using assms(2) by (cases "a_disk a"; cases "a_local a"; cases "a_ref a"; simp add: pjoin_path_str)
qed

lemma parser_offers:
  "offers (help_opts @ common_opts @ host_opts cwd) common_opts" "offers (help_opts @ common_opts @ host_opts cwd) (host_opts cwd)"
  "offers (help_opts @ common_opts @ host_opts cwd @ trust_opts) common_opts"
  "offers (help_opts @ common_opts @ host_opts cwd @ trust_opts) (host_opts cwd)"
  "offers (help_opts @ common_opts @ host_opts cwd @ trust_opts) trust_opts"
  "offers (help_opts @ common_opts @ trust_opts @ install_opts cwd) common_opts"
  "offers (help_opts @ common_opts @ trust_opts @ install_opts cwd) trust_opts"
  "offers (help_opts @ common_opts @ trust_opts @ install_opts cwd) (install_opts cwd)"
  by (simp_all add: offers_def opts_defs)

lemma command_parser:
  assumes "c \<in> {''status'', ''deploy'', ''update'', ''rollback'', ''swap'', ''gc'', ''install''}"
  shows "\<exists>os ps. map_of (build_parser cwd) c = Some (os, ps)"
proof -
  have "c \<in> fst ` set (build_parser cwd)" using assms by (simp add: build_parser_def Let_def)
  then have "map_of (build_parser cwd) c \<noteq> None" by (simp add: map_of_eq_None_iff)
  then show ?thesis by auto
qed

lemma words_parsed:
  assumes a: "sayable e a"
  shows "parse_args cwd e (words a) = Inr a"
proof -
  note A = a [unfolded sayable_def]
  note t = A [THEN conjunct1] and A = A [THEN conjunct2]
  note pp = A [THEN conjunct1] A [THEN conjunct2, THEN conjunct1] and A = A [THEN conjunct2, THEN conjunct2]
  note opt = A [THEN conjunct1] and A = A [THEN conjunct2]
  note id = A [THEN conjunct1, THEN mp]
  have b: "a_sysroot a = None \<longrightarrow> a_efi a = None" using A [THEN conjunct2] by blast
  note sh = t [unfolded typed_args_def, THEN conjunct2, THEN conjunct1]
  obtain os ps where m: "map_of (build_parser cwd) (a_cmd a) = Some (os, ps)"
    using command_parser [OF t [unfolded typed_args_def, THEN conjunct1], of cwd] by (elim exE) (rule that)
  obtain ws where w: "words a = a_cmd a # ws" by (simp add: words_def)
  let ?d = "default_args e (a_cmd a)"
  have c: "\<forall>p. a_config a = Some p \<longrightarrow> plain_path p" "\<forall>p. a_disk a = Some p \<or> a_local a = Some p \<longrightarrow> plain_path p"
     "\<forall>p. a_sysroot a = Some p \<or> a_efi a = Some p \<longrightarrow> plain_path p" using opt by simp_all
  note shD = sh [unfolded shaped_def]
  have eqI: "Inr (x, [], False) = (Inr (a, [], False) :: parse_exit + _)" if "x = a" for x :: args using that by simp
  have "parse_loop os (classify os ws) ps False ?d = Inr (a, [], False)"
    using m
  proof (cases rule: parser_cases)
    case host
    then have ne: "a_cmd a \<noteq> ''install''" "a_cmd a \<notin> {''deploy'', ''update'', ''install''}" "a_cmd a \<notin> {''deploy'', ''install''}"
      by auto
    then have ws: "ws = common_words a @ host_words a @ []" using w by (simp add: words_def)
    have f: "a_sysroot a = None" "a_efi a = None" "a_disk a = None" "a_local a = None" "\<not> a_yes a" "\<not> a_no_limine a"
      "a_esp_size a = DEFAULT_ESP_SIZE" "a_label a = DEFAULT_LABEL" "\<not> a_skip_verify a" "a_ref a = None"
      "a_cosign_identity a = a_cosign_identity ?d" "a_cosign_issuer a = a_cosign_issuer ?d"
      using shD ne by simp_all
    show ?thesis unfolding host(2,3) ws loop_common [OF parser_offers(1)] loop_host [OF parser_offers(2) pp(1,2) c(1)] loop_end
      by (rule eqI, rule args.equality) (use f in \<open>simp_all add: default_args_def\<close>)
  next
    case update
    have ws: "ws = common_words a @ host_words a @ trust_words a @ []" using w update(1) by (simp add: words_def)
    have f: "a_sysroot a = None" "a_efi a = None" "a_disk a = None" "a_local a = None" "\<not> a_yes a" "\<not> a_no_limine a"
      "a_esp_size a = DEFAULT_ESP_SIZE" "a_label a = DEFAULT_LABEL" "a_ref a = None"
      using shD update(1) by simp_all
    show ?thesis unfolding update(2,3) ws loop_common [OF parser_offers(3)] loop_host [OF parser_offers(4) pp(1,2) c(1)]
        loop_trust [OF parser_offers(5)] loop_end
      by (rule eqI, rule args.equality) (use f id update(1) in \<open>simp_all add: default_args_def\<close>)
  next
    case deploy
    obtain r where r: "a_ref a = Some r" using t deploy(1) by (auto simp: typed_args_def)
    have ws: "ws = common_words a @ host_words a @ trust_words a @ [''--'', r]" using w deploy(1) r by (simp add: words_def posn_words_def)
    have f: "a_sysroot a = None" "a_efi a = None" "a_disk a = None" "a_local a = None" "\<not> a_yes a" "\<not> a_no_limine a"
      "a_esp_size a = DEFAULT_ESP_SIZE" "a_label a = DEFAULT_LABEL"
      using shD deploy(1) by simp_all
    show ?thesis unfolding deploy(2,3) ws loop_common [OF parser_offers(3)] loop_host [OF parser_offers(4) pp(1,2) c(1)]
        loop_trust [OF parser_offers(5)] loop_end
      by (rule eqI, rule args.equality) (use f id r deploy(1) in \<open>simp_all add: default_args_def\<close>)
  next
    case install
    have ws: "ws = common_words a @ trust_words a @ install_words a @
        (''--'' # map path_str ((case a_sysroot a of Some p \<Rightarrow> [p] | None \<Rightarrow> []) @ (case a_efi a of Some p \<Rightarrow> [p] | None \<Rightarrow> [])))"
      using w install(1) by (simp add: words_def posn_words_def)
    have f: "a_deploy a = DEFAULT_DEPLOY" "a_esp a = DEFAULT_ESP" "a_config a = None"
      using shD install(1) by simp_all
    show ?thesis unfolding install(2,3) ws loop_common [OF parser_offers(6)] loop_trust [OF parser_offers(7)]
        loop_install [OF parser_offers(8) c(2)] loop_install_end [OF b c(3)]
      by (rule eqI, rule args.equality) (use f id install(1) in \<open>simp_all add: default_args_def\<close>)
  qed
  then show ?thesis unfolding w parse_named [OF m] parse_known_def by simp
qed

end
