(* ===== verification/Spec2Isabelle.thy ===== *)
theory Spec2Isabelle
  imports RegistryDemo IndexText CommandLine
begin

text \<open>
  Zerith is an image-based Linux system; \<open>zerithctl\<close> (\<open>src/zerith/\<close>) installs its
  deployments, updates them from a registry and rolls them back, and the build checks its
  object pack with \<open>src/scripts/ci/verify-pack.py\<close>. This development models the Python code
  of both as functions on a file system and proves what they promise: at every point where the
  machine may stop the host boots an old or a new deployment, the object store holds only what
  its names say, and garbage collection takes nothing that is in use.

  The parts of the program and their theories. Each definition has the name of the function
  it translates.

  \<^item> \<open>PyStr\<close>, \<open>Json\<close>: the operations of \<open>str\<close>, \<open>int\<close> and \<open>json\<close> the sources use.
  \<^item> \<open>FileSys\<close>, \<open>SysCalls\<close>: the disk (record \<open>fs\<close>: names, inodes with data and a
    sealed flag) and the calls of \<open>os\<close>, \<open>pathlib\<close> and \<open>shutil\<close> on it.
  \<^item> \<open>Proc\<close>: procedures with exceptions on a \<open>world\<close> (disk, its history, the terminal),
    reading an \<open>env\<close> (run-mode flags, external commands, clock, process environment); the
    triples \<open>xtriple\<close>, \<open>triple\<close> and \<open>tot\<close> the proofs are written with.
  \<^item> \<open>Runtime\<close> (\<open>runtime.py\<close>, \<open>config.py\<close>), \<open>Verity\<close> (\<open>verity.py\<close>), \<open>Oci\<close>
    (\<open>oci.py\<close>: record \<open>source\<close>, signatures, registry authentication), \<open>Layout\<close>
    (\<open>layout.py\<close>: role links, metadata, channel, ESP copies), \<open>Progress\<close> (\<open>progress.py\<close>:
    record \<open>progress\<close>), \<open>Ranges\<close> and \<open>Objects\<close> (\<open>objects.py\<close>), \<open>Lifecycle\<close>
    (\<open>lifecycle.py\<close>), \<open>Installer\<close>, \<open>Bootloader\<close>, \<open>Disk\<close>, \<open>Cli\<close> (the files of these
    names; record \<open>args\<close> is the namespace), \<open>VerifyPack\<close> (\<open>verify-pack.py\<close>).
  \<^item> \<open>ArgParse\<close>: what the sources use of Python's \<open>argparse\<close> (3.13): flags, options with a
    value, abbreviated names, \<open>--name=value\<close>, grouped short options, \<open>--\<close>, positional arguments.
    \<open>CommandLine\<close>: the parsers of \<open>cli.py\<close> built from it, and \<open>zerithctl\<close>, the program from its
    arguments to the exit status.

  How they interact: \<open>zerithctl\<close> parses its arguments and calls \<open>main\<close>, which dispatches to
  \<open>cmd_install\<close> and \<open>cmd_host\<close>; a host command runs \<open>host_body\<close> under \<open>deploy_lock\<close>;
  \<open>do_deploy\<close> pulls a \<open>source\<close> and hands it to \<open>deploy_source\<close>, which stages it
  (\<open>materialize\<close>: land the objects, place the verified root image, link the holder, copy the
  boot files, write the metadata) and promotes it (\<open>promote\<close>: ESP copies, then the role
  flip, then \<open>gc\<close>).

  What the lemma groups show.

  \<^item> \<open>DiskInv\<close>: the locale \<open>disk_invariant\<close>; a predicate the single calls preserve is
    preserved by every command, hence by \<open>main\<close> and by every history of a host. Its instances are the well-formedness of
    the disk and the immutability of sealed files.
  \<^item> \<open>Roles\<close>: the locale \<open>role_table\<close> is what the lifecycle needs of the role links, and
    the symbolic links of \<open>Layout\<close> are its interpretation.
  \<^item> \<open>GcSpec\<close>: what the collector and the sweep remove and leave. \<open>EspSpec\<close>,
    \<open>PromoteSpec\<close>, \<open>Promotion\<close>, \<open>Rollback\<close>: atomic copies, and the two state machines
    that change what the machine boots.
  \<^item> \<open>StoreSpec\<close>, \<open>Landing\<close>, \<open>Holder\<close>: the store stays sound, the locale \<open>landing\<close>
    with its three interpretations (a local tree, a slice of a buffer, a fetched range), and
    the links of a deployment to its objects.
  \<^item> \<open>TreeLanding\<close>, \<open>NewFiles\<close>, \<open>Download\<close>, \<open>PackLanding\<close>: the locale \<open>total_landing\<close> is a landing
    that returns with every object in place; its interpretations are a tree of files and the
    slices of a fetched range. From them \<open>land_from_dir\<close> and \<open>land_from_pack\<close> complete. The
    registry is described by named contracts: it answers the client's challenge and token
    requests (\<open>authorized\<close>), serves the index and the ranges of the pack (\<open>published\<close>, \<open>serves\<close>), and the index
    gives each object the bytes with its digest (\<open>describes\<close>). Of the host, \<open>tempdir\<close> says that
    temporary names are new and \<open>pool_runs\<close> that the pool runs every job once.
  \<^item> \<open>Materialize\<close>: \<open>materialize\<close> as a whole returns with a complete deployment. The contracts are
    \<open>artifact\<close> (what the pulled directory holds), \<open>supplies\<close> (where its objects come from: the build
    directory or the registry) and \<open>deploy_env\<close> (what the tools do).
  \<^item> \<open>Health\<close>, \<open>Upkeep\<close>: a healthy disk (\<open>fit\<close>), a complete deployment (\<open>whole\<close>), what the machine
    boots (\<open>boots\<close>), relative to the function \<open>needs\<close> from a root image to the objects it needs
    outside itself; each maintenance command leads from such disks to such disks. The locale
    \<open>simulation\<close> is the contract of an abstract machine, interpreted with the pair of deployments
    (\<open>after\<close>) for the commands on the disk (\<open>upkeep\<close>).
  \<^item> \<open>History\<close>: the step relation \<open>host_step\<close> (one command, run to its end or cut off by a
    crash) and its reflexive transitive closure; what every command keeps holds for ever.
  \<^item> \<open>ArgParse\<close>, \<open>CommandLine\<close>: what every parsed namespace satisfies, and a printer
    (\<open>words\<close>) that the parser inverts.
  \<^item> \<open>JsonRoundtrip\<close>, \<open>IndexText\<close>, \<open>HostSpec\<close>, \<open>CommandSpec\<close>: what is written is
    read back; refusals, dry runs, signatures, and whole commands under the lock.
  \<^item> \<open>Demo\<close>, \<open>StoreDemo\<close>, \<open>HostDemo\<close>, \<open>RegistryDemo\<close>: small hosts, and a registry, on
    which the hypotheses are discharged.

  Bounds. Symbolic links are followed at most \<open>max_links\<close> = 40 times, as the kernel does;
  then the call fails with \<open>ELOOP\<close>. No other definition carries fuel: loops are structural or
  have a termination proof.

  Modelling decisions. Strings are their UTF-8 bytes; white space, line ends and digits are the
  ASCII ones. Paths are absolute component lists without \<open>..\<close>; only the last component is
  followed when it is a link, so \<open>/sys/class/block/NAME\<close> is resolved first. Writes persist in
  program order and byte by byte, with no call to sync modelled; renames of directories do not
  occur. A directory lists its entries in the order of the association list. External commands
  (cosign, oras, curl, fsverity, composefs-info, sgdisk, mkfs, mount, btrfs, efibootmgr), the
  gzip decoder, temporary names, the clock, the iteration order of sets, the completion order of
  the pool, standard input and the holder of the lock are components of \<open>env\<close>, commands being
  functions of their arguments and the disk; the contracts the properties use
  (those above, \<open>fsverity_tool\<close>, \<open>dump_tool\<close>, \<open>tools_keep\<close>, \<open>others_keep\<close>) are named hypotheses. The
  jobs of the pool run in completion order before the first result is handled. Floating point
  numbers are rationals. Output a child writes itself is not recorded, nor is the text of an
  exception inside a message. The wrong type of a metadata value raises at its first use.
  \<open>verify-pack.py\<close> gets its working directory as a parameter, \<open>zerithctl\<close> the one relative
  paths are taken from. An update that found the deployment of a stopped run is outside
  \<open>offered\<close>: \<open>stage\<close> reuses whatever has a root image.

  Not modelled: the help texts of the parsers and the search of the shim \<open>zerithctl\<close> for its
  package, the unit tests, and the shell scripts, container build and configuration files of
  the image.

  The properties below are in the order of the behaviours they protect: the life of a host,
  promotion and rollback, collection, the store, the pack, roles and metadata, verified images,
  histories, the command line, refusals, numbers.
\<close>

section \<open>The life of a host\<close>

text \<open>
  C1. The host is an A/B machine. Start from a healthy disk that boots \<open>c\<close> with the fallback \<open>k\<close>,
  and run any sequence of updates, rollbacks and garbage collections, with anything happening
  outside \<open>@deploy\<close> and the ESP in between: the disk is healthy again and boots the pair the
  abstract machine \<open>after\<close> computes. Both deployments are then whole: their images are the ones on
  the ESP, and every object their root images refer to is in the store, under its own digest.
\<close>

theorem upkeep_refines:
  assumes "runs (upkeep vd needs d b) evs f g" "boots vd needs d b c k f"
  shows "case fold after evs (c, k) of (c', k') \<Rightarrow> boots vd needs d b c' k' g"
  using slots.runs_follow [OF assms(1), of "(c, k)"] assms(2) by (auto split: prod.splits)

lemma upkeep_refines_witness: "boots demo_vd hdemo_needs DEP ESP ''aa'' (Some ''dd'') hdemo_end"
  using upkeep_refines [OF hdemo_runs hdemo_boots] by simp



text \<open>
  C3. An update completes: on a healthy host, with an artifact whose objects are in the build
  directory or in a registry that serves what it published, or with a deployment that is on the
  disk already, \<open>deploy_source\<close> returns, the host boots the new deployment with the
  image the artifact offered, and falls back to the one it ran before.
\<close>

theorem update_completes:
  assumes "boots vd needs d b c k f" "offered vd needs d b e src i f" "i \<noteq> c"
  shows "outcome (deploy_source d b src) e f = Inr () \<and>
    boots vd needs d b i (Some c) (disk_after (deploy_source d b src) e f) \<and>
    cat (disk_after (deploy_source d b src) e f) (cur_efi b) = offered_image d src i f"
  using tot_outcome [OF update_tot [OF assms] refl] by auto

lemma update_completes_witness:
  "cat (disk_after (deploy_source DEP ESP reg_source) reg_env hdemo) (cur_efi ESP) = Some ''the uki''"
proof -
  have "offered_image DEP reg_source ''dd'' hdemo = Some ''the uki''" by code_simp
  then show ?thesis using update_completes [OF hdemo_boots reg_offered] by simp
qed

section \<open>Promotion and rollback\<close>

text \<open>
  C4. Crash safety of \<open>promote\<close>. At every state the disk goes through, the current
  image on the ESP is the whole old or the whole new one, once it is the new one the fallback
  is the old one, the roles flip without losing a deployment, and the roles never run ahead
  of the ESP.
\<close>

theorem promote_crash_safe:
  assumes "promote_ready d b new f" "\<not> dry_run e" "g \<in> crash_states (promote d b new) e f"
  shows "promote_safe d b f new g"
proof -
  obtain old where "roles_of d f ''current'' = Some old"
    using assms(1) by (auto simp: promote_ready_def split: option.splits)
  from promote_tot [OF assms(1,2) this] show ?thesis
    by (rule tot_crash) (use assms(3) in \<open>auto simp: promote_safe_def boot_ok_def\<close>)
qed

lemma promote_crash_safe_witness:
  "promote_safe DEP ESP demo ''cc'' (disk_after (promote DEP ESP ''cc'') demo_env demo)"
  by (rule promote_crash_safe [OF demo_promote demo_env_live
        crash_states_last [OF promote_tot [OF demo_promote demo_env_live demo_roles(1)] refl]])

text \<open>
  C5. \<open>promote\<close> returns on a healthy host: the new image is the current one on the ESP,
  the old one the fallback, the roles say so and nothing is staged, and the garbage collection
  it ends with leaves the trees of both deployments as they were.
\<close>

theorem promote_completes:
  assumes "promote_ready d b new f" "\<not> dry_run e" "roles_of d f ''current'' = Some old"
  shows "outcome (promote d b new) e f = Inr () \<and> promote_done d b f old new (disk_after (promote d b new) e f)"
  using tot_outcome [OF promote_tot [OF assms]] by auto

lemma promote_completes_witness:
  "outcome (promote DEP ESP ''cc'') demo_env demo = Inr () \<and>
   promote_done DEP ESP demo ''aa'' ''cc'' (disk_after (promote DEP ESP ''cc'') demo_env demo)"
  by (rule promote_completes [OF demo_promote demo_env_live demo_roles(1)])

text \<open>
  C6. Crash safety of \<open>rollback\<close>. At every state the disk goes through, the current image on
  the ESP is one of the two images, whole; the other one is the fallback or, while the fallback
  is missing, waits in the swap file. The roles only name the two deployments, and they change
  only once the ESP has been swapped.
\<close>

theorem rollback_crash_safe:
  assumes "rollback_ready d b f" "\<not> dry_run e" "g \<in> crash_states (rollback d b) e f"
  shows "swap_safe d b f g"
  using rollback_tot [OF assms(1,2)]
  by (rule tot_crash) (use assms(3) in \<open>auto simp: swap_safe_def swap_ok_def rollback_ready_def split: option.splits\<close>)

lemma rollback_crash_safe_witness:
  "swap_safe DEP ESP demo (disk_after (rollback DEP ESP) demo_env demo)"
  by (rule rollback_crash_safe [OF demo_rollback demo_env_live
        crash_states_last [OF rollback_tot [OF demo_rollback demo_env_live] refl]])

text \<open>
  C7. \<open>rollback\<close> returns on a healthy host and exchanges the two images on the ESP and the
  two role links.
\<close>

theorem rollback_completes:
  assumes "rollback_ready d b f" "\<not> dry_run e"
  shows "outcome (rollback d b) e f = Inr () \<and> swap_done d b f (disk_after (rollback d b) e f)"
  using tot_outcome [OF rollback_tot [OF assms]] by auto

lemma rollback_completes_witness:
  "outcome (rollback DEP ESP) demo_env demo = Inr () \<and> swap_done DEP ESP demo (disk_after (rollback DEP ESP) demo_env demo)"
  by (rule rollback_completes [OF demo_rollback demo_env_live])

text \<open>
  C8. \<open>zerithctl rollback\<close> as a whole, next to another command. When the lock is taken it waits,
  then swaps the deployments of the disk the other command left; it exits with 0, and every
  state the disk goes through is one of the other command's or a safe one of the swap.
\<close>

theorem rollback_waits_for_lock:
  assumes "command_ready a e f" "a_cmd a \<in> {''rollback'', ''swap''}"
    and "rollback_ready (a_deploy a) (a_esp a) (last (f # held e f))"
  shows "outcome (main a) e f = Inr 0 \<and>
    swap_done (a_deploy a) (a_esp a) (last (f # held e f)) (disk_after (main a) e f) \<and>
    (\<forall>g \<in> crash_states (main a) e f. g = f \<or> g \<in> set (held e f) \<or> swap_safe (a_deploy a) (a_esp a) (last (f # held e f)) g)"
proof -
  let ?e = "e\<lparr>dry_run := a_dry_run a, verbose := a_verbose a\<rparr>" and ?h = "last (f # held e f)"
  have "\<not> dry_run ?e" using assms(1) by (simp add: command_ready_def)
  from rollback_tot [OF assms(3) this]
  have body: "tot ?e ((=) ?h) (swap_safe (a_deploy a) (a_esp a) ?h) (host_body a p) (\<lambda>_. swap_done (a_deploy a) (a_esp a) ?h)" for p
    using assms(2) by (auto simp: host_body_def)
  have c: "a_cmd a \<notin> {''install'', ''status''}" using assms(2) by auto
  note T = command_tot [OF assms(1) c body]
  have "g = f \<or> g \<in> set (held e f) \<or> swap_safe (a_deploy a) (a_esp a) ?h g" if "g \<in> crash_states (main a) e f" for g
    by (rule tot_crash [OF tr_total [OF T] refl _ that]) auto
  then show ?thesis using tot_outcome [OF T refl] by auto
qed

lemma rollback_waits_for_lock_witness:
  "swap_done DEP ESP demo (disk_after (main cmd_rollback) busy_env ldemo)"
  using rollback_waits_for_lock [OF ldemo_ready] demo_rollback
  by (simp add: held_def busy_env_def cmd_rollback_def default_args_def)

text \<open>
  C9. A promotion that stopped between its copies and the role flip loses the fallback image when it
  is started again: there is a crash state from which \<open>promote\<close> returns with the new image
  both as the current and as the fallback one, while the role link of the fallback names the
  old deployment.
\<close>

theorem promote_rerun_loses_fallback:
  assumes "promote_ready d b new f" "\<not> dry_run e" "roles_of d f ''current'' = Some old"
  shows "\<exists>g \<in> crash_states (promote d b new) e f. outcome (promote d b new) e g = Inr () \<and>
    cat (disk_after (promote d b new) e g) (cur_efi b) = cat f (uki_of d new) \<and>
    cat (disk_after (promote d b new) e g) (fb_efi b) = cat f (uki_of d new) \<and>
    roles_of d (disk_after (promote d b new) e g) ''fallback'' = Some old"
proof -
  obtain g where g: "g \<in> crash_states (promote d b new) e f" "promote_ready d b new g" "roles_of d g = roles_of d f"
    "cat g (cur_efi b) = cat f (uki_of d new)" "cat g (uki_of d new) = cat f (uki_of d new)"
    using promote_again [OF assms] by blast
  have old: "roles_of d g ''current'' = Some old" using g(3) assms(3) by simp
  show ?thesis
    using tot_outcome [OF promote_tot [OF g(2) assms(2) old] refl] g old by (intro bexI [OF _ g(1)]) (auto simp: promote_done_def promoted_def)
qed

lemma promote_rerun_loses_fallback_witness:
  "\<exists>g \<in> crash_states (promote DEP ESP ''cc'') demo_env demo.
     cat (disk_after (promote DEP ESP ''cc'') demo_env g) (fb_efi ESP) = Some ''04'' \<and>
     roles_of DEP (disk_after (promote DEP ESP ''cc'') demo_env g) ''fallback'' = Some ''aa''"
proof -
  have "cat demo (uki_of DEP ''cc'') = Some ''04''" by code_simp
  then show ?thesis using promote_rerun_loses_fallback [OF demo_promote demo_env_live demo_roles(1)] by auto
qed

section \<open>Garbage collection\<close>

text \<open>
  C10. Garbage collection never touches a deployment a role names: at every state the disk goes
  through, everything below its directory is as it was, whether or not the collection fails
  half-way.
\<close>

theorem gc_keeps_role_deployments:
  assumes "wf_fs f" "role_view d f r = Some i" "r \<in> set ROLES" "i \<noteq> ''shared''"
    "prefix (d @ [i]) q" "g \<in> crash_states (gc d) e f"
  shows "lookup g q = lookup f q \<and> cat g q = cat f q"
proof -
  have "shrinks (removable d f) f g"
    by (rule triple_crash [OF gc_frame [OF assms(1)] refl shrinks_refl [OF assms(1)] assms(6)])
  moreover have "{q} \<inter> removable d f = {}" using role_tree_kept [OF assms(2-5)] by simp
  ultimately have "hold {q} f g" by (rule shrinks_hold)
  then show ?thesis by (simp add: hold_def)
qed

lemma gc_keeps_role_deployments_witness:
  "lookup (disk_after (gc DEP) demo_env demo) [''deploy'', ''bb'', ''zerith.efi''] = lookup demo [''deploy'', ''bb'', ''zerith.efi''] \<and>
   cat (disk_after (gc DEP) demo_env demo) [''deploy'', ''bb'', ''zerith.efi''] = cat demo [''deploy'', ''bb'', ''zerith.efi'']"
  by (rule gc_keeps_role_deployments [where d = DEP and r = "''fallback''" and i = "''bb''", OF demo_wf _ roles_in(2) _ _
        crash_states_last [OF gc_frame [OF demo_wf] refl]])
    (use demo_roles(2) in \<open>simp_all add: DEP_def roles_of_def roles_in\<close>)

text \<open>
  C11. What garbage collection removes: it returns, and a file is gone afterwards exactly when it
  lies in a deployment directory no role names, or is an object of the store whose remaining
  names, those of the removed deployments not counted, are just the one in the store.
\<close>

theorem gc_exact:
  assumes "wf_fs f" "lookup f d = Some Dir" "plain_store (shared_objects d) f" "\<not> dry_run e"
    and "lookup f q = Some (File i)"
  shows "outcome (gc d) e f = Inr () \<and>
    lookup (disk_after (gc d) e f) q =
      (if (\<exists>n. stale_name d f n \<and> prefix (d @ [n]) q) \<or>
          (strict_prefix (shared_objects d) q \<and> nlink (pruned f (stale_list d f)) i = 1)
       then None else Some (File i))"
proof -
  let ?f = "pruned f (stale_list d f)" and ?g = "disk_after (gc d) e f"
  have s: "swept (shared_objects d) ?f ?g" and o: "outcome (gc d) e f = Inr ()"
    using tot_outcome [OF gc_total [OF assms(1-4)] refl] by auto
  have "[] \<notin> set (stale_list d f)" by (auto simp: stale_list_def)
  then have lk: "lookup ?f q = (if \<exists>n. stale_name d f n \<and> prefix (d @ [n]) q then None else Some (File i))"
    using assms(5) set_stale_list [OF assms(1), of d] by (auto simp: lookup_pruned)
  have "lookup ?g q = (if strict_prefix (shared_objects d) q \<and> is_orphan ?f q then None else lookup ?f q)"
    using s lk by (auto simp: swept_def split: if_splits)
  then show ?thesis using o lk by (cases "lookup ?f q") (auto simp: is_orphan_file split: if_splits)
qed

lemma gc_exact_witness:
  "outcome (gc DEP) demo_env demo = Inr () \<and>
   lookup (disk_after (gc DEP) demo_env demo) [''deploy'', ''shared'', ''objects'', ''ab'', ''ef''] = None"
proof -
  have "nlink (pruned demo (stale_list DEP demo)) 1 = 1" "lookup demo DEP = Some Dir"
    "lookup demo [''deploy'', ''shared'', ''objects'', ''ab'', ''ef''] = Some (File 1)"
    by code_simp+
  then show ?thesis
    using gc_exact [OF demo_wf _ store_check [OF demo_checks(3)] demo_env_live, of "[''deploy'', ''shared'', ''objects'', ''ab'', ''ef'']" 1]
    by (simp add: DEP_def shared_objects_path)
qed

text \<open>
  C12. The sweep of the store removes exactly the objects with one link, whatever the order of
  the directory entries, returns how many, and changes nothing outside the store.
\<close>

theorem sweep_exact:
  assumes "plain_store s f"
  shows "outcome (sweep_orphans s) e f = Inr (int (length (filter (is_orphan f) (walk_files f s)))) \<and>
    (\<forall>q. lookup f q \<noteq> Some Dir \<longrightarrow>
       lookup (disk_after (sweep_orphans s) e f) q = (if strict_prefix s q \<and> is_orphan f q then None else lookup f q)) \<and>
    (\<forall>q. \<not> strict_prefix s q \<longrightarrow> lookup (disk_after (sweep_orphans s) e f) q = lookup f q)"
  using tot_outcome [OF sweep_total [OF assms] refl, of e] by (auto simp: swept_def)

lemma sweep_exact_witness:
  "outcome (sweep_orphans (shared_objects DEP)) demo_env demo = Inr 1"
proof -
  have "length (filter (is_orphan demo) (walk_files demo (shared_objects DEP))) = 1" by code_simp
  then show ?thesis using sweep_exact [OF store_check [OF demo_checks(3)], of demo_env] by simp
qed

section \<open>The object store\<close>

text \<open>
  C13. Integrity of the object store under a pack landing. At every state the disk goes through,
  whatever the registry answers and wherever the landing stops, each file stored under an
  object's name has that name's fs-verity digest, and no object that was there is lost or
  changed.
\<close>

theorem land_from_pack_sound:
  assumes "pack_env vd e s" "store_ok vd s f" "g \<in> crash_states (land_from_pack src s) e f"
  shows "store_ok vd s g \<and> store_kept s f g"
  using triple_crash [OF keeps_land_from_pack [OF assms(1)] _ _ assms(3), of f] store_inv_refl [OF assms(2)]
  by (simp add: store_inv_def)

lemma land_from_pack_sound_witness:
  "store_ok demo_vd OST (disk_after (land_from_pack sdemo_source OST) demo_env sdemo) \<and>
   store_kept OST sdemo (disk_after (land_from_pack sdemo_source OST) demo_env sdemo)"
  by (rule land_from_pack_sound [OF demo_pack sdemo_store
        crash_states_last [OF keeps_land_from_pack [OF demo_pack] store_inv_refl [OF sdemo_store]]])

text \<open>
  C14. A landing from the pack completes. The registry authorizes the client, serves the index whole
  and each range of the pack it is asked for; the index describes the pack. Then
  \<open>land_from_pack\<close> returns, whatever order the ranges complete in: every object that the image
  refers to and the index lists is in the store, the store is sound, and outside of it nothing
  has changed, the temporary files included. A crash on the way leaves at most new files in the
  store and below the directory for temporary files.
\<close>

theorem pack_landing_completes:
  assumes "fetch_env vd e s" "tempdir t e" "clear_of s t" "published e t src index pack" "describes vd index pack"
    and "dump_tool e (src_root_cfs src) listing f" "\<not> prefix s (src_root_cfs src)"
    and "sound_store vd s f" "lookup f t = Some Dir"
  shows "outcome (land_from_pack src s) e f = Inr () \<and>
    sound_store vd s (disk_after (land_from_pack src s) e f) \<and>
    in_store s (packed s index listing) (disk_after (land_from_pack src s) e f) \<and>
    outside s f (disk_after (land_from_pack src s) e f) \<and>
    (\<forall>g \<in> crash_states (land_from_pack src s) e f. same_but (fetch_area s t f) f g)"
proof -
  note T = land_from_pack_tot [OF assms]
  have "same_but (fetch_area s t f) f g" if "g \<in> crash_states (land_from_pack src s) e f" for g
    by (rule tot_crash [OF T refl _ that]) (simp add: same_but_def)
  then show ?thesis using tot_outcome [OF T refl] by simp
qed

lemma pack_landing_completes_witness:
  "OST @ object_path (''ef'' @ ZEROS) \<in> packed OST reg_index (hdemo_ls ''the image'') \<and>
   in_store OST (packed OST reg_index (hdemo_ls ''the image'')) (disk_after (land_from_pack reg_source OST) reg_env hdemo)"
  using pack_landing_completes [OF reg_fetches reg_temps _ reg_published reg_described reg_dump _ reg_store(1,2)]
    reg_store(3,4) reg_packed by simp



text \<open>
  C16. What a holder contains: \<open>link_holder\<close> returns, and below the holder there are exactly the
  objects the image references and the store has, each the very file of the store under its own
  names, with the directories on the way. Nothing else changes, and none of these objects is an
  orphan of the store any more.
\<close>

theorem link_holder_exact:
  assumes "holder_ready s h f" "dump_tool e rc listing f" "\<forall>xs. set (set_order e xs) = set xs" "\<not> prefix h rc"
    and "tools_keep wf_fs e"
  shows "outcome (link_holder s h rc) e f = Inr () \<and>
    (\<forall>q. lookup (disk_after (link_holder s h rc) e f) q =
       (if q = h then Some Dir else if strict_prefix h q then holder_node f s (referenced listing) (drop (length h) q)
        else lookup f q)) \<and>
    inodes (disk_after (link_holder s h rc) e f) = inodes f \<and>
    (\<forall>x \<in> referenced listing. is_file f (s @ x) \<longrightarrow> \<not> is_orphan (disk_after (link_holder s h rc) e f) (s @ x))"
proof -
  have h: "outcome (link_holder s h rc) e f = Inr ()" "holds f s h (referenced listing) (disk_after (link_holder s h rc) e f)"
    using tot_outcome [OF link_holder_spec [OF assms(1-4)] refl] by auto
  have "wf_fs (disk_after (link_holder s h rc) e f)"
    by (rule keeps_after [OF wf.keeps_objects(1) [OF assms(5)]]) (use assms(1) in \<open>simp add: holder_ready_def\<close>)
  moreover have "x \<noteq> []" if "x \<in> referenced listing" for x using that by (auto simp: referenced_def object_path_def)
  ultimately show ?thesis using h linked_no_orphan [OF assms(1) h(2)] by (simp add: holds_def)
qed

lemma link_holder_exact_witness:
  "lookup (disk_after (link_holder OST [''src'', ''holder''] [''src'', ''root.cfs'']) dump_env sdemo) [''src'', ''holder'', ''ab'', ZEROS] = Some (File 0) \<and>
   \<not> is_orphan (disk_after (link_holder OST [''src'', ''holder''] [''src'', ''root.cfs'']) dump_env sdemo) (OST @ [''ab'', ZEROS])"
proof -
  have x: "[''ab'', ZEROS] \<in> referenced sdemo_dump" "is_file sdemo (OST @ [''ab'', ZEROS])" "lookup sdemo (OST @ [''ab'', ZEROS]) = Some (File 0)"
    "\<not> prefix [''src'', ''holder''] [''src'', ''root.cfs'']"
    by code_simp+
  have o: "\<forall>xs. set (set_order dump_env xs) = set xs" and k: "tools_keep wf_fs dump_env"
    by (simp_all add: dump_env_def demo_env_def tools_keep_def)
  show ?thesis
    using link_holder_exact [OF sdemo_holder dump_env_tool o x(4) k] x(1-3)
    by (simp add: holder_node_def strict_prefix_def)
qed

text \<open>
  C17. \<open>place_object\<close> ends in one of three ways: the object is there already and nothing
  changes; the temporary file has another digest, the call dies and nothing changes; or the
  file, its digest checked, has been renamed to the object's name and sealed.
\<close>

theorem place_object_exact:
  assumes "fsverity_tool vd e" "\<not> dry_run e" "place_for s rel dest t" "store_ok vd s f" "tmp_file t b f"
  shows "case outcome (place_object t s rel) e f of
     Inl x \<Rightarrow> x = SystemExit \<and> lookup f dest = None \<and> vd b \<noteq> no_slash rel \<and> disk_after (place_object t s rel) e f = f
   | Inr new \<Rightarrow> if new then lookup f dest = None \<and> placed dest b (disk_after (place_object t s rel) e f) \<and>
         lookup (disk_after (place_object t s rel) e f) t = None \<and> vd b = no_slash rel
       else lookup f dest \<noteq> None \<and> disk_after (place_object t s rel) e f = f"
proof -
  have "vd b = no_slash rel" if "store_ok vd s g" "placed dest b g" for g
    using store_okD(2) [OF that(1) place_forD(4) [OF assms(3)], of b] that(2) place_forD(13) [OF assms(3)]
    by (auto simp: placed_def cat_def)
  then show ?thesis
    using xtriple_outcome [OF place_object_spec [OF assms(1-3) store_inv_refl [OF assms(4)] assms(5)] refl]
    by (auto simp: store_inv_def split: sum.splits if_splits)
qed

lemma place_object_exact_witness:
  "case outcome (place_object (OST @ [''cd'', CHR ''.'' # ''cd'' @ ZEROS @ ''.tmp'']) OST (''cd/'' @ ZEROS)) demo_env sdemo of
     Inl _ \<Rightarrow> False | Inr new \<Rightarrow> new"
proof -
  have "demo_vd ''cd'' = no_slash (''cd/'' @ ZEROS)" "lookup sdemo (OST @ [''cd'', ZEROS]) = None" by code_simp+
  then show ?thesis
    using place_object_exact [OF demo_fsverity demo_env_live sdemo_place sdemo_store sdemo_tmp]
    by (auto split: sum.splits if_splits)
qed

text \<open>
  C18. \<open>missing_objects\<close> is its specification by comprehension: the want-list holds, in pack
  order, just the referenced objects that are not on disk and that the index lists; the two
  counters are the absent objects without an index entry and the objects on disk.
\<close>

theorem missing_objects_exact:
  assumes "has_tool e ''composefs-info''"
    "tool e [''composefs-info'', ''dump'', path_str (src_root_cfs src)] f = \<lparr>t_rc = 0, t_out = listing, t_err = [], t_fs = []\<rparr>"
  defines "refs \<equiv> set_order e (remdups (map rel_for_digest (filter is_digest (word_runs (strip (univ_nl listing))))))"
  shows "outcome (missing_objects src s index) e f =
      Inr (sort (wanted s index refs f), inlined_count s index refs f, present_count s refs f)"
proof -
  obtain w where w: "referenced_objects (src_root_cfs src) e (boot f) = (Inr refs, w)" "fsys w = f"
    using referenced_run [of e "src_root_cfs src" "boot f"] assms by (auto simp: boot_def find_digests_runs)
  then show ?thesis
    by (simp add: outcome_def missing_objects_def bnd_def missing_loop ret_def sort_want_def)
qed

lemma missing_objects_exact_witness:
  "outcome (missing_objects sdemo_source OST [(demo_vd ''cd'', 7, 2)]) dump_env sdemo = Inr ([(7, 2, demo_vd ''cd'')], 0, 1)"
proof -
  have t: "tool dump_env [''composefs-info'', ''dump'', path_str (src_root_cfs sdemo_source)] sdemo
      = \<lparr>t_rc = 0, t_out = sdemo_dump, t_err = [], t_fs = []\<rparr>" "has_tool dump_env ''composefs-info''"
    by (simp_all add: dump_env_def demo_env_def)
  let ?refs = "set_order dump_env (remdups (map rel_for_digest (filter is_digest (word_runs (strip (univ_nl sdemo_dump))))))"
  have "sort (wanted OST [(demo_vd ''cd'', 7, 2)] ?refs sdemo) = [(7, 2, demo_vd ''cd'')]"
    "inlined_count OST [(demo_vd ''cd'', 7, 2)] ?refs sdemo = 0" "present_count OST ?refs sdemo = 1"
    by code_simp+
  then show ?thesis using missing_objects_exact [OF t(2,1), of OST "[(demo_vd ''cd'', 7, 2)]"] by simp
qed

section \<open>Ranges and the pack\<close>

text \<open>
  C19. The digests found in a composefs dump are exactly the maximal runs of word characters that
  are 64 lower-case hexadecimal digits: a longer run, or a run with another letter, yields none.
\<close>

theorem find_digests_exact:
  "find_digests False s = filter is_digest (word_runs s)"
  by (rule find_digests_runs)

text \<open>
  C20. Coalescing loses nothing and joins all it may: the objects of the ranges, at their place in
  the pack, are the want-list in order; each lies inside its range; and two ranges are more
  than the gap apart, so that no two of them could have been one request.
\<close>

theorem coalesce_exact:
  assumes "by_offset want"
  shows "concat (map in_pack (coalesce_ranges want gap)) = want \<and>
    (\<forall>r \<in> set (coalesce_ranges want gap). range_ok r) \<and> sorted_wrt (apart gap) (coalesce_ranges want gap)"
  using coalesce_loop_covers [of gap want None "[]"] coalesce_loop_ok [OF assms, of "[]" None gap]
    coalesce_loop_apart [OF assms, of gap "[]" None]
  by (simp add: coalesce_ranges_def)

lemma coalesce_exact_witness:
  "concat (map in_pack (coalesce_ranges [(0, 5, ''a''), (6, 2, ''b''), (100, 1, ''c'')] 10)) = [(0, 5, ''a''), (6, 2, ''b''), (100, 1, ''c'')]"
  using coalesce_exact [of "[(0, 5, ''a''), (6, 2, ''b''), (100, 1, ''c'')]" 10] by (simp add: by_offset_def)



text \<open>
  C22. The build's gate is exact: it exits with 0 just when the index parses, its entries follow one
  another from the first to the last byte of the pack, each object file has the bytes the
  index gives it, and there are as many entries as files. It changes nothing.
\<close>

theorem verify_exact:
  assumes "wf_fs f"
  shows "(outcome (verify cwd) e f = Inr 0 \<longleftrightarrow> pack_sound e cwd f) \<and> disk_after (verify cwd) e f = f"
  using verify_run [of "boot f" cwd e] assms by (simp add: outcome_def disk_after_def boot_def)

lemma verify_exact_witness:
  "outcome (verify [''w'']) demo_env vdemo = Inr 0"
  using verify_exact [OF vdemo_wf, of "[''w'']" demo_env] vdemo_sound by simp

text \<open>
  C23. What the gate accepted is what a host fetches: cut out of the range that carries it, each
  wanted object has the bytes of the object file the pack was built from, however the
  want-list was coalesced.
\<close>

theorem verified_pack_ranges:
  assumes "wf_fs f" "outcome (verify cwd) e f = Inr 0" "index_of e cwd f = Some es" "read1 (PACK cwd) f = Inr pack"
    and "by_offset want" "\<forall>(offs, len, d) \<in> set want. 0 \<le> len \<and> (d, offs, len) \<in> set es"
    and "(a, b, objs) \<in> set (coalesce_ranges want gap)" "(offs, len, d) \<in> set objs"
  shows "buf_read (pack_slice pack a b) offs len = read1 (obj_path cwd d) f"
proof -
  have "pack_sound e cwd f" using verify_run [of "boot f" cwd e] assms(1,2) by (simp add: outcome_def boot_def)
  from pack_sound_range [OF this assms(3-8)] show ?thesis .
qed

lemma verified_pack_ranges_witness:
  "buf_read (pack_slice ''abc'' 0 2) 1 2 = read1 (obj_path [''w''] (''cd'' @ ZEROS)) vdemo"
proof -
  have o: "outcome (verify [''w'']) demo_env vdemo = Inr 0"
    using verify_run [of "boot vdemo" "[''w'']" demo_env] vdemo_wf vdemo_sound by (simp add: outcome_def boot_def)
  show ?thesis
    by (rule verified_pack_ranges [OF vdemo_wf o vdemo_index vdemo_pack, of "[(0, 1, ''ab'' @ ZEROS), (1, 2, ''cd'' @ ZEROS)]" _ _
        "[(0, 1, ''ab'' @ ZEROS), (1, 2, ''cd'' @ ZEROS)]" 0])
      (simp_all add: by_offset_def coalesce_ranges_def)
qed

text \<open>
  C24. The text of a pack index with distinct digests parses back to its table, and the client and
  the build's gate read the same table from it.
\<close>

theorem parse_index_text:
  assumes "list_all index_entry es" "distinct (map fst es)"
  shows "parse_index (index_text es) = Inr es \<and> vp_lines (split_on NL (univ_nl (index_text es))) = Inr es"
proof -
  have es: "\<forall>x \<in> set es. index_entry x" using assms(1) by (simp add: list_all_iff)
  then show ?thesis using parse_lines_show [OF es, of "[]"] vp_lines_show [OF es] assms(2)
    by (simp add: parse_index_def index_text_lines [OF es])
qed

lemma parse_index_text_witness:
  "parse_index (index_text [(''ab'' @ ZEROS, 0, 10), (''cd'' @ ZEROS, 10, 5)]) = Inr [(''ab'' @ ZEROS, 0, 10), (''cd'' @ ZEROS, 10, 5)]"
proof -
  have "list_all index_entry [(''ab'' @ ZEROS, 0, 10), (''cd'' @ ZEROS, 10, 5)]" by code_simp
  then show ?thesis using parse_index_text [of "[(''ab'' @ ZEROS, 0, 10), (''cd'' @ ZEROS, 10, 5)]"] by simp
qed

section \<open>Roles, metadata and the channel\<close>

text \<open>
  C25. The role links implement a table of roles: \<open>set_role\<close> returns with the one role changed and
  nothing on the way to it can be seen but the table before and the table after.
\<close>

theorem set_role_refines:
  assumes "roles_free d f" "r \<in> set ROLES" "plain_name i" "\<not> dry_run e" "g \<in> crash_states (set_role d r i) e f"
  shows "outcome (set_role d r i) e f = Inr () \<and>
    roles_of d (disk_after (set_role d r i) e f) = (roles_of d f)(r \<mapsto> i) \<and>
    (roles_of d g = roles_of d f \<or> roles_of d g = (roles_of d f)(r \<mapsto> i))"
proof -
  have i: "i \<noteq> []" "i \<in> deploy_ids" using assms(3) by (auto simp: plain_name_def deploy_ids_def)
  note S = set_role_spec [OF assms(1,2) i(1) assms(4)]
  have "outcome (set_role d r i) e f = Inr ()" "set_role_end d r i f (disk_after (set_role d r i) e f)"
    using tot_outcome [OF S refl] by auto
  moreover have "g = f \<or> set_role_mid d r f g \<or> set_role_end d r i f g"
    by (rule tot_crash [OF tr_total [OF S] refl _ assms(5)]) auto
  ultimately show ?thesis
    using set_role_mid_view [OF _ assms(2)] set_role_end_view [OF _ assms(2) i(2)] by blast
qed

lemma set_role_refines_witness:
  "roles_of DEP (disk_after (set_role DEP ''staging'' ''dd'') demo_env demo) = (roles_of DEP demo)(''staging'' \<mapsto> ''dd'')"
proof -
  have "plain_name ''dd''" "''staging'' \<in> set ROLES" by code_simp+
  note r = roles_check [OF demo_checks(4)] and h = this
  show ?thesis
    using set_role_refines [OF r h(2,1) demo_env_live
        crash_states_last [OF set_role_spec [OF r h(2) _ demo_env_live] refl]] by simp
qed

text \<open>
  C26. The update channel changes atomically: at every state the disk goes through, \<open>source.conf\<close>
  holds the old bytes or the whole new file, and the call returns with the new one.
\<close>

theorem write_source_atomic:
  assumes "channel_ready p f" "\<not> dry_run e" "g \<in> crash_states (write_source p chan) e f"
  shows "(cat g p = cat f p \<or> cat g p = Some (channel_text chan (clock e))) \<and>
    outcome (write_source p chan) e f = Inr () \<and>
    cat (disk_after (write_source p chan) e f) p = Some (channel_text chan (clock e))"
  using tot_crash [OF write_source_spec [OF assms(1,2)] refl _ assms(3)] tot_outcome [OF write_source_spec [OF assms(1,2)] refl]
  by auto

lemma write_source_atomic_witness:
  "cat (disk_after (write_source (DEP @ [SOURCE_CONF_NAME]) ''reg/repo:2'') demo_env demo) (DEP @ [SOURCE_CONF_NAME])
     = Some (channel_text ''reg/repo:2'' (clock demo_env))"
  using write_source_atomic [OF demo_channel demo_env_live
      crash_states_last [OF write_source_spec [OF demo_channel demo_env_live] refl]] by simp

text \<open>
  C27. The channel that was written is the channel that is read.
\<close>

theorem channel_roundtrip:
  assumes "channel_ready p f" "\<not> dry_run e" "ascii chan" "ascii (clock e)"
  shows "outcome (bnd (write_source p chan) (\<lambda>_. read_source p)) e f = Inr (Some (JStr chan))"
proof -
  obtain w where "write_source p chan e (boot f) = (Inr (), w)" "cat (fsys w) p = Some (channel_text chan (clock e))"
    using tot_outcome [OF write_source_spec [OF assms(1,2)] refl, of chan]
    by (cases "write_source p chan e (boot f)") (auto simp: outcome_def disk_after_def)
  then show ?thesis using read_source_run [OF assms(3,4)] by (simp add: outcome_def bnd_def)
qed

lemma channel_roundtrip_witness:
  "outcome (bnd (write_source (DEP @ [SOURCE_CONF_NAME]) ''reg/repo:2'') (\<lambda>_. read_source (DEP @ [SOURCE_CONF_NAME]))) demo_env demo
     = Inr (Some (JStr ''reg/repo:2''))"
  by (rule channel_roundtrip [OF demo_channel demo_env_live]) code_simp+

text \<open>
  C28. The metadata \<open>write_meta\<close> leaves in a deployment is what \<open>load_meta\<close> returns for it.
\<close>

theorem metadata_roundtrip:
  assumes "plain_name did" "writable f (d @ [did, META_NAME])" "build_meta src (clock e) = Inr m" "wf_json m" "\<not> dry_run e"
  shows "outcome (bnd (write_meta (deploy_dir d did) src) (\<lambda>_. load_meta d (Some did))) e f = Inr m"
proof -
  obtain w where w: "write_meta (deploy_dir d did) src e (boot f) = (Inr (), w)"
    "written (fsys (boot f)) (d @ [did, META_NAME]) (dumps m @ [NL]) (fsys w)"
    using write_meta_run [of did "boot f" d src e m] assms by (auto simp: boot_def)
  then show ?thesis using load_meta_run [OF assms(1,4) written_cat [OF w(2)]]
    by (simp add: outcome_def bnd_def)
qed

lemma metadata_roundtrip_witness:
  "outcome (bnd (write_meta (deploy_dir DEP ''cc'') meta_source) (\<lambda>_. load_meta DEP (Some ''cc''))) demo_env demo
     = build_meta meta_source (clock demo_env)"
proof -
  obtain m where m: "build_meta meta_source (clock demo_env) = Inr m" "wf_json m"
    using meta_source_ok by (auto split: sum.splits)
  have "plain_name ''cc''" "writable demo (DEP @ [''cc'', META_NAME])" by code_simp+
  then show ?thesis using metadata_roundtrip [OF _ _ m demo_env_live] m(1) by simp
qed

text \<open>
  C29. A copy onto the ESP is atomic: at every state the disk goes through, the target has its old
  bytes or all the new ones; the call returns, and no other file of the host is touched but the
  temporary one, which is gone.
\<close>

theorem atomic_copy_atomic:
  assumes "copy_ready b dst f" "cat f src = Some x" "src \<noteq> copy_tmp dst" "\<not> dry_run e"
    and "g \<in> crash_states (atomic_copy src dst) e f"
  shows "(cat g dst = cat f dst \<or> cat g dst = Some x) \<and> same_but {copy_tmp dst, dst} f g \<and>
    outcome (atomic_copy src dst) e f = Inr () \<and>
    cat (disk_after (atomic_copy src dst) e f) dst = Some x \<and>
    lookup (disk_after (atomic_copy src dst) e f) (copy_tmp dst) = None"
proof -
  note S = atomic_copy_spec [OF assms(1-4)]
  have "dst \<noteq> copy_tmp dst" using assms(1) copy_tmp_path(3) [of dst] by (auto simp: copy_ready_def)
  moreover have "esp_fat b g \<and> (same_but {copy_tmp dst} f g \<or> same_but {copy_tmp dst, dst} f g \<and> cat g dst = Some x)"
    by (rule tot_crash [OF S refl _ assms(5)]) (use copy_ready_paths(4) [OF assms(1)] in simp)
  ultimately show ?thesis using tot_outcome [OF S refl] by (auto simp: same_but_def)
qed

lemma atomic_copy_atomic_witness:
  "cat (disk_after (atomic_copy (DEP @ [''cc'', ''zerith.efi'']) (cur_efi ESP)) demo_env demo) (cur_efi ESP) = Some ''04''"
proof -
  have s: "cat demo (DEP @ [''cc'', ''zerith.efi'']) = Some ''04''" "DEP @ [''cc'', ''zerith.efi''] \<noteq> copy_tmp (cur_efi ESP)"
    by code_simp+
  note r = copy_check [OF demo_checks(2,5)]
  show ?thesis
    using atomic_copy_atomic [OF r s demo_env_live crash_states_last [OF atomic_copy_spec [OF r s demo_env_live] refl]] by simp
qed

section \<open>Verified images\<close>

text \<open>
  C30. The root image is the one the signed metadata names: \<open>place_root_cfs\<close> returns exactly when
  the metadata gives the digest of the image in the artifact, and the image is then in place,
  sealed. Otherwise it raises, and the image stays where it was put.
\<close>

theorem place_root_cfs_exact:
  assumes "fsverity_tool vd e" "plain_path p" "\<not> dry_run e" "writable f p" "cat f (src_root_cfs src) = Some x"
    and "src_root_cfs src \<noteq> p" "\<And>i. lookup f p = Some (File i) \<Longrightarrow> lookup f (src_root_cfs src) \<noteq> Some (File i)"
  shows "(outcome (place_root_cfs src p) e f = Inr () \<longleftrightarrow> src_digest src = Inr (JStr (vd x))) \<and>
    placed p x (disk_after (place_root_cfs src p) e f)"
  using xtriple_outcome [OF place_root_cfs_spec [OF assms] refl] by (auto split: sum.splits)

lemma place_root_cfs_exact_witness:
  "outcome (place_root_cfs cfs_source (DEP @ [''root.cfs''])) demo_env sdemo = Inr () \<and>
   placed (DEP @ [''root.cfs'']) ''the image'' (disk_after (place_root_cfs cfs_source (DEP @ [''root.cfs''])) demo_env sdemo)"
proof -
  have c: "cat sdemo (src_root_cfs cfs_source) = Some ''the image''" "src_digest cfs_source = Inr (JStr (demo_vd ''the image''))"
    "writable sdemo (DEP @ [''root.cfs''])" "plain_path (DEP @ [''root.cfs''])" "lookup sdemo (DEP @ [''root.cfs'']) = None"
    "src_root_cfs cfs_source \<noteq> DEP @ [''root.cfs'']"
    by code_simp+
  show ?thesis
    using place_root_cfs_exact [OF demo_fsverity c(4) demo_env_live c(3,1,6)] c(2,5) by simp
qed

text \<open>
  C31. An artifact whose signature cosign does not accept, or for which no signer identity is
  configured, is never deployed: unless verification is explicitly skipped, pulling and
  deploying it end in an error before anything on the disk has changed.
\<close>

theorem unsigned_never_deployed:
  assumes "unsigned e ref ci iss"
  shows "(\<exists>x. outcome (do_deploy d b ref ci iss False) e f = Inl x) \<and> crash_states (do_deploy d b ref ci iss False) e f = {f} \<and>
    (\<exists>x. outcome (source_from_ref ref ci iss False) e f = Inl x) \<and> crash_states (source_from_ref ref ci iss False) e f = {f}"
  using refuses_result [OF unsigned_source(1) [OF assms]] refuses_result [OF unsigned_source(2) [OF assms]] by blast

lemma unsigned_never_deployed_witness:
  "crash_states (do_deploy DEP ESP ''reg/repo:2'' (Some ''https://github.com/me'') ''iss'' False) demo_env demo = {demo}"
  using unsigned_never_deployed [of demo_env "''reg/repo:2''" "Some ''https://github.com/me''" "''iss''"]
  by (simp add: unsigned_def demo_env_def demo_tool_def)

text \<open>
  C32. \<open>materialize\<close> returns on a complete artifact, whose objects are in the build directory or in a
  registry, and a sound store, and the deployment is
  then whole: every object of the artifact is in the store under its digest, the root image is in
  place and sealed, the holder directory links exactly the objects the image references and the
  store has, the boot files are copies, and the metadata is the computed one. On the way it
  touches nothing but the deployment's own directory, the object store and, with a registry, new
  names below the directory for temporary files, so until the promotion a crash leaves every other deployment and the roles as they were.
\<close>

theorem materialize_completes:
  assumes "artifact vd d src did x f" "deploy_env vd e d x listing" "supplies vd e d src listing A D f"
    and "sound_store vd (shared_objects d) f" "lookup f d = Some Dir" "lookup f (d @ [did]) = None" "build_meta src (clock e) = Inr m"
  shows "outcome (materialize d src) e f = Inr () \<and>
    deployed vd d src did D x listing m f (disk_after (materialize d src) e f) \<and>
    (\<forall>g \<in> crash_states (materialize d src) e f. same_but (touched d did \<union> A) f g)"
proof -
  note T = materialize_tot [OF assms]
  have "same_but (touched d did \<union> A) f g" if "g \<in> crash_states (materialize d src) e f" for g
    by (rule tot_crash [OF T refl _ that]) (simp add: same_but_def)
  then show ?thesis using tot_outcome [OF T refl] by auto
qed

lemma materialize_completes_witness:
  "outcome (materialize DEP local_source) full_env sdemo = Inr () \<and>
   deployed demo_vd DEP local_source ''dd'' (objects_of DEP local_source sdemo) ''the image'' sdemo_dump local_meta sdemo
     (disk_after (materialize DEP local_source) full_env sdemo)"
  using materialize_completes [OF local_artifact full_env_deploys local_supplies sdemo_sound sdemo_place_free local_meta] by simp

section \<open>Every history of a host\<close>





section \<open>The command line\<close>

text \<open>
  C35. The namespace is well typed: whatever the arguments, when the parser returns, the command is one
  of the seven, \<open>deploy\<close> has a reference, and every option the command does not have holds its
  default.
\<close>

theorem parse_args_typed:
  assumes "parse_args cwd e argv = Inr a"
  shows "typed_args e a"
  by (rule parsed_typed [OF assms])

lemma parse_args_typed_witness:
  "case parse_args [] demo_env [''deploy'', ''--dry'', ''reg/repo:tag'', ''-v''] of Inl _ \<Rightarrow> False | Inr a \<Rightarrow> typed_args demo_env a"
proof -
  have "case parse_args [] demo_env [''deploy'', ''--dry'', ''reg/repo:tag'', ''-v''] of Inl _ \<Rightarrow> False | Inr a \<Rightarrow> True" by code_simp
  then show ?thesis using parse_args_typed [of "[]" demo_env "[''deploy'', ''--dry'', ''reg/repo:tag'', ''-v'']"] by (auto split: sum.splits)
qed

text \<open>
  C36. Every namespace a command line can express is the one its command line parses to: options by
  their full names, the positional arguments after \<open>--\<close>.
\<close>

theorem command_line_roundtrip:
  assumes "sayable e a"
  shows "parse_args cwd e (words a) = Inr a"
  by (rule words_parsed [OF assms])

lemma command_line_roundtrip_witness:
  "parse_args [] demo_env [''deploy'', ''--dry-run'', ''--deploy=/deploy'', ''--esp=/efi'',
     ''--cosign-issuer='' @ DEFAULT_COSIGN_ISSUER, ''--'', ''reg/repo:tag''] =
   Inr ((default_args demo_env ''deploy'')\<lparr>a_dry_run := True, a_ref := Some ''reg/repo:tag''\<rparr>)"
proof -
  let ?a = "(default_args demo_env ''deploy'')\<lparr>a_dry_run := True, a_ref := Some ''reg/repo:tag''\<rparr>"
  have "plain_path DEFAULT_DEPLOY" "plain_path DEFAULT_ESP" by code_simp+
  then have "sayable demo_env ?a"
    by (simp add: sayable_def typed_args_def shaped_def default_args_def demo_env_def)
  moreover have "words ?a = [''deploy'', ''--dry-run'', ''--deploy=/deploy'', ''--esp=/efi'',
     ''--cosign-issuer='' @ DEFAULT_COSIGN_ISSUER, ''--'', ''reg/repo:tag'']" by code_simp
  ultimately show ?thesis using command_line_roundtrip [of demo_env ?a "[]"] by simp
qed

text \<open>
  C37. \<open>zerithctl status\<close>, and \<open>zerithctl gc\<close>, \<open>rollback\<close> or \<open>swap\<close> with \<open>--dry-run\<close> among the options, do
  nothing to the disk, whatever else is on the command line and however the command ends.
\<close>

theorem dry_run_inert:
  assumes "c = ''status'' \<or> (c \<in> {''gc'', ''rollback'', ''swap''} \<and> ''--dry-run'' \<in> set (takeWhile (\<lambda>s. s \<noteq> ''--'') ss))"
  shows "case zerithctl cwd (c # ss) e (boot f) of (n, w) \<Rightarrow> fsys w = f \<and> set (hist w) \<subseteq> {f}"
  by (rule line_inert [OF assms])

lemma dry_run_inert_witness:
  "fsys (snd (zerithctl [] [''gc'', ''--deploy'', ''/deploy'', ''--dry-run''] demo_env (boot demo))) = demo"
  using dry_run_inert [where c = "''gc''" and ss = "[''--deploy'', ''/deploy'', ''--dry-run'']" and cwd = "[]" and e = demo_env and f = demo] by (simp add: split_beta)

section \<open>Refusals\<close>



text \<open>
  C39. \<open>promote\<close> of a deployment without a kernel image dies before it touches the ESP or the
  roles.
\<close>

theorem promote_needs_image:
  assumes "plain_name new" "roles_of d f ''current'' \<noteq> Some new" "\<not> is_file f (d @ [new, UKI_NAME])" "\<not> dry_run e"
  shows "outcome (promote d b new) e f = Inl SystemExit \<and> crash_states (promote d b new) e f = {f}"
  using assms read_role_run [OF roles_in(1), of d e "boot f"]
  by (simp add: promote_def outcome_def crash_states_def deploy_dir_def roles_of_def roles_in boot_def Let_def run_simps)

lemma promote_needs_image_witness:
  "outcome (promote DEP ESP ''zz'') demo_env demo = Inl SystemExit"
proof -
  have "\<not> is_file demo (DEP @ [''zz'', UKI_NAME])" "plain_name ''zz''" by code_simp+
  then show ?thesis using promote_needs_image [of "''zz''" DEP demo demo_env ESP] demo_roles(1) by simp
qed

section \<open>Numbers\<close>

text \<open>
  C40. The scaled number and its unit denote the given size exactly; the loop ends within the table of
  units, with a value below 1024 unless the unit is the last, and at least 1 unless it is the
  first.
\<close>

theorem scaled_size:
  "case scale_units 0 n of (m, j) \<Rightarrow> m * 1024 ^ j = n \<and> j < length UNITS \<and> (j = 4 \<or> m < 1024) \<and> (j = 0 \<or> 1 \<le> m)"
proof -
  obtain m j where s: "scale_units 0 n = (m, j)" by fastforce
  then show ?thesis using scale_units_value [OF _ s] scale_units_range [OF s] by (auto simp: UNITS_def)
qed

end
